(* ===== verification/Prelude.thy ===== *)
theory Prelude
  imports Main "HOL-Library.Word"
begin

text \<open>
  Shared vocabulary of the development: the machine types of the C program on its LP64
  target, the collections of simplification rules the component theories extend, and the
  generic facts on bit lists, bytes and lists that several components use.

  Bit sequences are boolean lists, most significant bit first, because that is the order in
  which \<^verbatim>\<open>src/bit_io.c\<close> packs them into bytes.
\<close>

unbundle bit_operations_syntax

type_synonym byte = "8 word"
type_synonym u32 = "32 word"
type_synonym u64 = "64 word"

text \<open>\<open>long\<close> and \<open>int64_t\<close> share the bit patterns of \<open>u64\<close> and are read with \<open>sint\<close>.\<close>

type_synonym long = "64 word"

text \<open>
  The outcome of a C function that can run into undefined behaviour: a dereference of
  \<open>NULL\<close>, a store past the end of a heap or a stack object, or an overflow of signed
  arithmetic. Nothing is said of what the process does from there.
\<close>

datatype ub = NullDeref | HeapOverflow | StackOverflow | SignedOverflow

datatype 'a c_result = Ret 'a | UB ub

named_theorems codec_simps \<open>how the codecs act on the bit stream\<close>
named_theorems inv_intros \<open>preservation of component invariants\<close>

section \<open>Bit lists and words\<close>

definition msb_bits :: "nat \<Rightarrow> 'a::len word \<Rightarrow> bool list" where
  "msb_bits n w = map (bit w) (rev [0..<n])"

definition word_of_bits :: "bool list \<Rightarrow> 'a::len word" where
  "word_of_bits bs = horner_sum of_bool 2 (rev bs)"

definition bits_of_bytes :: "byte list \<Rightarrow> bool list" where
  "bits_of_bytes bs = concat (map (msb_bits 8) bs)"

lemma length_msb_bits [simp]: "length (msb_bits n w) = n"
  by (simp add: msb_bits_def)

lemma nth_msb_bits [simp]: "i < n \<Longrightarrow> msb_bits n w ! i = bit w (n - Suc i)"
  by (simp add: msb_bits_def rev_nth)

lemma msb_bits_0 [simp]: "msb_bits 0 w = []"
  by (simp add: msb_bits_def)

lemma word_of_bits_Nil [simp]: "word_of_bits [] = 0"
  by (simp add: word_of_bits_def)

lemma word_of_msb_bits [simp]: "word_of_bits (msb_bits n w) = take_bit n w"
  by (simp add: word_of_bits_def msb_bits_def horner_sum_bit_eq_take_bit flip: rev_map)

lemma msb_bits_split: "msb_bits (m + k) w = msb_bits m (drop_bit k w) @ msb_bits k w"
  by (rule nth_equalityI) (auto simp: nth_append bit_simps intro!: arg_cong [of _ _ "bit w"])

lemma bit_word_of_bits:
  "bit (word_of_bits bs :: 'a::len word) n \<longleftrightarrow>
     n < LENGTH('a) \<and> n < length bs \<and> bs ! (length bs - Suc n)"
  by (auto simp: word_of_bits_def bit_horner_sum_bit_iff rev_nth)

lemma word_of_bits_append:
  "word_of_bits (xs @ ys) = push_bit (length ys) (word_of_bits xs) OR word_of_bits ys"
  by (rule bit_word_eqI) (auto simp: bit_word_of_bits bit_simps nth_append)

lemma msb_bits_cong:
  assumes "\<And>i. i < n \<Longrightarrow> bit v i = bit w i"
  shows "msb_bits n v = msb_bits n w"
  using assms by (intro nth_equalityI) auto

lemma msb_bits_take_bit [simp]: "n \<le> m \<Longrightarrow> msb_bits n (take_bit m w) = msb_bits n w"
  by (rule msb_bits_cong) (auto simp: bit_simps)

lemma msb_bits_word_of_bits:
  "length bs \<le> LENGTH('a) \<Longrightarrow> msb_bits (length bs) (word_of_bits bs :: 'a::len word) = bs"
  by (intro nth_equalityI) (auto simp: bit_word_of_bits)

lemma msb_bits_inject_8:
  fixes v w :: byte
  shows "msb_bits 8 v = msb_bits 8 w \<Longrightarrow> v = w"
  by (metis take_bit_word_eq_self word_of_msb_bits len_num0 len_bit0 len_num1 mult_numeral_1_right
      numeral_Bit0_eq_double numeral_One numerals(1) nat_le_linear order.refl)

lemma bits_of_bytes_simps [simp]:
  "bits_of_bytes [] = []"
  "bits_of_bytes (b # bs) = msb_bits 8 b @ bits_of_bytes bs"
  "bits_of_bytes (bs @ cs) = bits_of_bytes bs @ bits_of_bytes cs"
  by (simp_all add: bits_of_bytes_def)

lemma length_bits_of_bytes [simp]: "length (bits_of_bytes bs) = 8 * length bs"
  by (induction bs) auto

lemma drop_bits_of_bytes:
  "i < length bs \<Longrightarrow>
     drop (8 * i) (bits_of_bytes bs) = msb_bits 8 (bs ! i) @ bits_of_bytes (drop (Suc i) bs)"
proof (induction bs arbitrary: i)
  case Nil
  then show ?case by simp
next
  case (Cons b bs)
  then show ?case by (cases i) auto
qed

lemma take_bit_64 [simp]: "take_bit 64 (w :: u64) = w"
  by (simp add: take_bit_word_eq_self)

section \<open>C arrays as lists\<close>

text \<open>
  An array whose first cells have been written is the list of those cells. A store at an
  index inside the list overwrites the cell, a store at its end writes the next cell; the
  components prove that no other store happens.
\<close>

definition store_at :: "'a list \<Rightarrow> nat \<Rightarrow> 'a \<Rightarrow> 'a list" where
  "store_at xs i x = (if i < length xs then xs[i := x] else xs @ [x])"

lemma take_store_at [simp]:
  "i \<le> length xs \<Longrightarrow> take (Suc i) (store_at xs i x) = take i xs @ [x]"
  by (auto simp: store_at_def take_Suc_conv_app_nth)

lemma length_store_at:
  "i \<le> length xs \<Longrightarrow> length (store_at xs i x) = max (length xs) (Suc i)"
  by (auto simp: store_at_def)

lemma nth_store_at [simp]: "i \<le> length xs \<Longrightarrow> store_at xs i x ! i = x"
  by (auto simp: store_at_def nth_append)

lemma take_store_at_same [simp]: "i \<le> length xs \<Longrightarrow> take i (store_at xs i x) = take i xs"
  by (auto simp: store_at_def)

section \<open>Integer conversions\<close>

text \<open>The C conversion of a 64-bit value to \<open>int\<close> (32 bits, two's complement).\<close>

definition c_int :: "u64 \<Rightarrow> int" where
  "c_int w = sint (ucast w :: u32)"

lemma c_int_small: "uint w < 2 ^ 31 \<Longrightarrow> c_int w = uint w"
  by (simp add: c_int_def sint_uint unsigned_ucast_eq take_bit_int_eq_self
      signed_take_bit_int_eq_self_iff order.trans [OF _ uint_ge_0])

lemma c_int_of_bool [simp]: "c_int (of_bool b) = of_bool b"
  by (cases b) (simp_all add: c_int_def)

lemma mask_and_msb_bits [simp]: "msb_bits n (w AND mask n) = msb_bits n w"
  by (rule msb_bits_cong) (auto simp: bit_simps dest: bit_imp_le_length)

text \<open>A value in the range of an \<open>n\<close>-bit signed integer repeats its sign bit from bit \<open>n - 1\<close>.\<close>

lemma bit_of_small_signed:
  fixes w :: "'a::len word"
  assumes "- (2 ^ n) \<le> sint w" "sint w < 2 ^ n" "n \<le> i" "i < LENGTH('a)"
  shows "bit w i = bit w (LENGTH('a) - 1)"
proof -
  have eq: "signed_take_bit n (sint w) = sint w"
    using assms by (simp add: signed_take_bit_int_eq_self_iff)
  have *: "bit (sint w) j = bit (sint w) n" if "n \<le> j" for j
  proof -
    have "bit (signed_take_bit n (sint w)) j = bit (sint w) n"
      using that by (simp add: bit_signed_take_bit_iff min_absorb1)
    then show ?thesis by (simp only: eq)
  qed
  have "bit (sint w) i = bit (sint w) (LENGTH('a) - 1)"
    using * [of i] * [of "LENGTH('a) - 1"] assms(3,4) by simp
  with assms(4) show ?thesis
    by (auto simp: bit_sint_iff split: if_splits)
qed

section \<open>Runs of a transition system\<close>

locale step_invariant =
  fixes step :: "'s \<Rightarrow> 's \<Rightarrow> bool" and inv :: "'s \<Rightarrow> bool"
  assumes preserved: "step s s' \<Longrightarrow> inv s \<Longrightarrow> inv s'"
begin

lemma run: "step\<^sup>*\<^sup>* s s' \<Longrightarrow> inv s \<Longrightarrow> inv s'"
  by (induction rule: rtranclp_induct) (auto dest: preserved)

lemma run_keeps: "step\<^sup>*\<^sup>* s s' \<Longrightarrow> inv s \<Longrightarrow> step s' s'' \<Longrightarrow> inv s''"
  using run preserved by blast

end

end
