(* ===== verification/Bit_IO.thy ===== *)
theory Bit_IO
  imports Prelude
begin

text \<open>
  The growable byte buffer and the bit-level writer and reader of \<^verbatim>\<open>src/bit_io.c\<close>.

  A \<open>bytebuffer\<close> keeps the written bytes (\<open>data\<close>), their number and the allocated
  capacity; \<open>bwwrite\<close> and \<open>brread\<close> are the loops of the C functions, one iteration per
  byte they touch. The abstraction of a writer is the bit list \<open>writer_bits\<close> it holds, that
  of a reader the bit list \<open>reader_bits\<close> it has still to deliver, and the refinement lemmas
  say that a write appends the low \<open>n\<close> bits of its value and a read removes \<open>n\<close> bits. The
  two locales \<open>bit_sink\<close> and \<open>bit_source\<close> state this as the interface the codecs rely on.
\<close>

section \<open>State\<close>

record bytebuffer =
  data :: "byte list"
  bb_size :: nat
  bb_capacity :: nat

record bitwriter =
  bw_buffer :: bytebuffer
  current_byte :: byte
  filledbits :: int

record bitreader =
  br_buffer :: bytebuffer
  byteoffset :: nat
  bitsconsumed :: int

section \<open>The byte buffer\<close>

definition buffercreate :: bytebuffer where
  "buffercreate = \<lparr>data = [], bb_size = 0, bb_capacity = 64\<rparr>"

definition bufferappend :: "bytebuffer \<Rightarrow> byte \<Rightarrow> bytebuffer" where
  "bufferappend buf b =
     (let buf = (if bb_size buf \<ge> bb_capacity buf
                 then buf\<lparr>bb_capacity := bb_capacity buf * 2\<rparr> else buf)
      in buf\<lparr>data := store_at (data buf) (bb_size buf) b, bb_size := bb_size buf + 1\<rparr>)"

definition buffer_inv :: "bytebuffer \<Rightarrow> bool" where
  "buffer_inv buf \<longleftrightarrow>
     length (data buf) = bb_size buf \<and> bb_size buf \<le> bb_capacity buf \<and> 0 < bb_capacity buf"

lemma buffer_inv_create [inv_intros]: "buffer_inv buffercreate"
  by (simp add: buffer_inv_def buffercreate_def)

lemma buffer_inv_append [inv_intros]: "buffer_inv buf \<Longrightarrow> buffer_inv (bufferappend buf b)"
  by (auto simp: buffer_inv_def bufferappend_def Let_def length_store_at)

lemma data_bufferappend [simp]: "buffer_inv buf \<Longrightarrow> data (bufferappend buf b) = data buf @ [b]"
  by (auto simp: buffer_inv_def bufferappend_def Let_def store_at_def)

lemma bb_size_bufferappend [simp]: "bb_size (bufferappend buf b) = bb_size buf + 1"
  by (simp add: bufferappend_def Let_def)

section \<open>The bit writer\<close>

definition bwcreate :: bitwriter where
  "bwcreate = \<lparr>bw_buffer = buffercreate, current_byte = 0, filledbits = 0\<rparr>"

function bwwrite :: "bitwriter \<Rightarrow> u64 \<Rightarrow> int \<Rightarrow> bitwriter" where
  "bwwrite bw v n_bits =
     (if n_bits > 0 then
        let free_in_byte = 8 - filledbits bw;
            tk = (if n_bits < free_in_byte then n_bits else free_in_byte);
            shift = n_bits - tk;
            msk = (if tk = 64 then NOT 0 else push_bit (nat tk) 1 - 1);
            chunk = drop_bit (nat shift) v AND msk;
            bw = bw\<lparr>current_byte :=
                       ucast (ucast (current_byte bw) OR push_bit (nat (free_in_byte - tk)) chunk),
                    filledbits := filledbits bw + tk\<rparr>;
            n_bits = n_bits - tk
        in if filledbits bw = 8
           then bwwrite (bw\<lparr>bw_buffer := bufferappend (bw_buffer bw) (current_byte bw),
                            current_byte := 0, filledbits := 0\<rparr>) v n_bits
           else bwwrite bw v n_bits
      else bw)"
  by pat_completeness auto
termination
  by (relation "measure (\<lambda>(bw, v, n).
        nat n + (if filledbits bw \<ge> 8 then nat (filledbits bw - 8) + 1 else 0))")
    (auto simp: Let_def split: if_splits)

declare bwwrite.simps [simp del]

definition bwclose :: "bitwriter \<Rightarrow> bitwriter" where
  "bwclose bw =
     (if filledbits bw > 0
      then bw\<lparr>bw_buffer := bufferappend (bw_buffer bw) (current_byte bw),
              current_byte := 0, filledbits := 0\<rparr>
      else bw)"

text \<open>
  The invariant of a writer between calls: fewer than eight bits are pending, and the bits of
  the current byte below them are still clear, so that \<open>|=\<close> sets them.
\<close>

definition writer_inv :: "bitwriter \<Rightarrow> bool" where
  "writer_inv bw \<longleftrightarrow>
     buffer_inv (bw_buffer bw) \<and> 0 \<le> filledbits bw \<and> filledbits bw < 8 \<and>
     (\<forall>i < 8 - nat (filledbits bw). \<not> bit (current_byte bw) i)"

definition writer_bits :: "bitwriter \<Rightarrow> bool list" where
  "writer_bits bw =
     bits_of_bytes (data (bw_buffer bw)) @
     take (nat (filledbits bw)) (msb_bits 8 (current_byte bw))"

lemma writer_inv_create [inv_intros]: "writer_inv bwcreate"
  by (simp add: writer_inv_def bwcreate_def inv_intros)

lemma writer_bits_create [codec_simps]: "writer_bits bwcreate = []"
  by (simp add: writer_bits_def bwcreate_def buffercreate_def)

text \<open>One loop iteration puts the next \<open>k\<close> bits of the value below the \<open>f\<close> pending ones.\<close>

lemma current_byte_step:
  fixes cur :: byte and c :: u64
  assumes "f + k \<le> 8" and clear: "\<forall>i < 8 - f. \<not> bit cur i"
  defines "cur' \<equiv> (ucast (ucast cur OR push_bit (8 - f - k) (take_bit k c)) :: byte)"
  shows "take (f + k) (msb_bits 8 cur') = take f (msb_bits 8 cur) @ msb_bits k c"
    and "\<forall>i < 8 - (f + k). \<not> bit cur' i"
proof -
  have b: "bit cur' i \<longleftrightarrow> i < 8 \<and> (bit cur i \<or> 8 - f - k \<le> i \<and> i < 8 - f \<and> bit c (i - (8 - f - k)))" for i
    using assms(1) by (auto simp: cur'_def bit_simps dest: bit_imp_le_length)
  show "take (f + k) (msb_bits 8 cur') = take f (msb_bits 8 cur) @ msb_bits k c"
  proof (rule nth_equalityI)
    fix i assume "i < length (take (f + k) (msb_bits 8 cur'))"
    then have i: "i < f + k" using assms(1) by simp
    show "take (f + k) (msb_bits 8 cur') ! i = (take f (msb_bits 8 cur) @ msb_bits k c) ! i"
    proof (cases "i < f")
      case True
      with i assms(1) show ?thesis by (auto simp: nth_append b)
    next
      case False
      with i assms(1) have "7 - i - (8 - f - k) = k - Suc (i - f)" "7 - i < 8 - f" "8 - f - k \<le> 7 - i"
        by auto
      moreover have "7 - i < 8" by simp
      ultimately show ?thesis using False i assms(1) clear by (simp add: nth_append b)
    qed
  qed (use assms(1) in simp)
  show "\<forall>i < 8 - (f + k). \<not> bit cur' i"
    using clear by (auto simp: b)
qed

text \<open>The shift-and-subtract mask of the C code keeps the low \<open>k\<close> bits.\<close>

lemma and_shift_mask: "w AND (push_bit k 1 - 1) = take_bit k (w :: 'a::len word)"
  by (simp add: take_bit_eq_mask mask_eq_exp_minus_1 push_bit_eq_mult)

lemma msb_bits_field:
  "k \<le> n \<Longrightarrow> msb_bits n v = msb_bits k (drop_bit (n - k) v) @ msb_bits (n - k) v"
  using msb_bits_split [of k "n - k" v] by simp

text \<open>One iteration of the write loop, for pending bits \<open>f\<close> and a request of \<open>n\<close> bits.\<close>

definition write_step :: "bitwriter \<Rightarrow> u64 \<Rightarrow> nat \<Rightarrow> nat \<Rightarrow> bitwriter" where
  "write_step bw v n k =
     (let f = nat (filledbits bw);
          cur = ucast (ucast (current_byte bw) OR
                  push_bit (8 - f - k) (take_bit k (drop_bit (n - k) v)))
      in if f + k = 8
         then bw\<lparr>bw_buffer := bufferappend (bw_buffer bw) cur, current_byte := 0, filledbits := 0\<rparr>
         else bw\<lparr>current_byte := cur, filledbits := filledbits bw + int k\<rparr>)"

lemma bwwrite_0 [simp]: "bwwrite bw v 0 = bw"
  by (subst bwwrite.simps) simp

lemma bwwrite_step:
  assumes "writer_inv bw" and "0 < n"
  defines "k \<equiv> min n (8 - nat (filledbits bw))"
  shows "bwwrite bw v (int n) = bwwrite (write_step bw v n k) v (int (n - k))"
proof -
  define f where "f = nat (filledbits bw)"
  have f: "filledbits bw = int f" "f < 8"
    using assms(1) by (auto simp: writer_inv_def f_def)
  have k: "(if int n < 8 - int f then int n else 8 - int f) = int k"
    using f by (auto simp: k_def min_def of_nat_diff)
  have k8: "k \<le> 8" "0 < k" "k \<le> n" "f + k \<le> 8"
    using assms(2) f by (auto simp: k_def)
  have sub: "nat (int n - int k) = n - k" "nat (8 - int f - int k) = 8 - f - k"
    "int f + int k = 8 \<longleftrightarrow> f + k = 8" "int k \<noteq> 64" "int n > 0"
    "int n - int k = int (n - k)"
    using k8 by auto
  show ?thesis
    unfolding bwwrite.simps [of bw v "int n"] write_step_def Let_def f(1) k nat_int sub and_shift_mask
    using f k8 assms(2) by (auto simp: sub take_bit_eq_mask mask_eq_exp_minus_1 simp del: of_nat_diff of_nat_add)
qed

lemma write_step_correct:
  assumes inv: "writer_inv bw" and "0 < k" "k \<le> n" "nat (filledbits bw) + k \<le> 8"
  shows "writer_inv (write_step bw v n k)"
    and "writer_bits (write_step bw v n k) = writer_bits bw @ msb_bits k (drop_bit (n - k) v)"
proof -
  define f where "f = nat (filledbits bw)"
  have f: "f + k \<le> 8" "filledbits bw = int f" and clear: "\<forall>i < 8 - f. \<not> bit (current_byte bw) i"
    and buf: "buffer_inv (bw_buffer bw)"
    using inv assms(4) by (auto simp: writer_inv_def f_def)
  note step = current_byte_step [OF f(1) clear, of "drop_bit (n - k) v"]
  show "writer_inv (write_step bw v n k)"
    using step(2) buf f by (auto simp: write_step_def writer_inv_def Let_def inv_intros nat_add_distrib)
  show "writer_bits (write_step bw v n k) = writer_bits bw @ msb_bits k (drop_bit (n - k) v)"
    using step(1) buf
    by (cases "f + k = 8") (auto simp: write_step_def writer_bits_def Let_def nat_add_distrib f)
qed

text \<open>The refinement of the writer: a call appends the low \<open>n\<close> bits of the value.\<close>

lemma bwwrite_correct:
  assumes "writer_inv bw"
  shows "writer_inv (bwwrite bw v (int n)) \<and>
         writer_bits (bwwrite bw v (int n)) = writer_bits bw @ msb_bits n v"
  using assms
proof (induction n arbitrary: bw rule: less_induct)
  case (less n)
  show ?case
  proof (cases "n = 0")
    case True
    with less.prems show ?thesis by simp
  next
    case False
    define k where "k = min n (8 - nat (filledbits bw))"
    have k: "0 < k" "k \<le> n" "nat (filledbits bw) + k \<le> 8" "n - k < n"
      using False less.prems by (auto simp: k_def writer_inv_def)
    note step = write_step_correct [OF less.prems k(1,2,3), of v]
    show ?thesis
      using bwwrite_step [OF less.prems] False less.IH [OF k(4) step(1)] step(2) msb_bits_field [OF k(2), of v]
      by (simp flip: k_def of_nat_diff)
  qed
qed

lemma writer_inv_write [inv_intros]: "writer_inv bw \<Longrightarrow> writer_inv (bwwrite bw v (int n))"
  using bwwrite_correct by blast

lemma writer_bits_write [codec_simps]:
  "writer_inv bw \<Longrightarrow> writer_bits (bwwrite bw v (int n)) = writer_bits bw @ msb_bits n v"
  using bwwrite_correct by blast

lemma writer_inv_close [inv_intros]: "writer_inv bw \<Longrightarrow> writer_inv (bwclose bw)"
  by (auto simp: bwclose_def writer_inv_def inv_intros)

text \<open>Closing pads the pending bits with zeros to a whole byte.\<close>

lemma pad_current_byte:
  assumes "\<forall>i < 8 - f. \<not> bit (cur :: byte) i" and "f \<le> 8"
  shows "msb_bits 8 cur = take f (msb_bits 8 cur) @ replicate (8 - f) False"
  using assms by (intro nth_equalityI) (auto simp: nth_append)

lemma bwclose_bits [codec_simps]:
  assumes "writer_inv bw"
  shows "bits_of_bytes (data (bw_buffer (bwclose bw))) =
         writer_bits bw @ replicate (nat ((- filledbits bw) mod 8)) False"
proof (cases "filledbits bw = 0")
  case True
  then show ?thesis by (simp add: bwclose_def writer_bits_def)
next
  case False
  define f where "f = nat (filledbits bw)"
  have f: "filledbits bw = int f" "0 < f" "f < 8" and clear: "\<forall>i < 8 - f. \<not> bit (current_byte bw) i"
    and buf: "buffer_inv (bw_buffer bw)"
    using assms False by (auto simp: writer_inv_def f_def)
  have "nat ((- int f) mod 8) = 8 - f"
    using f by (simp add: zmod_zminus1_eq_if)
  with f buf pad_current_byte [OF clear] show ?thesis
    by (simp add: bwclose_def writer_bits_def)
qed

section \<open>The bit reader\<close>

definition brcreate :: "bytebuffer \<Rightarrow> bitreader" where
  "brcreate buf = \<lparr>br_buffer = buf, byteoffset = 0, bitsconsumed = 0\<rparr>"

text \<open>The loop of \<open>brread\<close>, with the partial result it has accumulated.\<close>

function brread_loop :: "bitreader \<Rightarrow> u64 \<Rightarrow> int \<Rightarrow> u64 \<times> bitreader" where
  "brread_loop br result n_bits =
     (if n_bits > 0 then
        if byteoffset br \<ge> bb_size (br_buffer br) then (result, br)
        else
          let available_in_byte = 8 - bitsconsumed br;
              tk = (if n_bits < available_in_byte then n_bits else available_in_byte);
              current = data (br_buffer br) ! byteoffset br;
              msk = (if tk = 8 then 0xFF else push_bit (nat tk) 1 - 1);
              chunk = drop_bit (nat (available_in_byte - tk)) current AND msk;
              result = push_bit (nat tk) result OR ucast chunk;
              br = br\<lparr>bitsconsumed := bitsconsumed br + tk\<rparr>;
              n_bits = n_bits - tk
          in if bitsconsumed br = 8
             then brread_loop (br\<lparr>bitsconsumed := 0, byteoffset := byteoffset br + 1\<rparr>) result n_bits
             else brread_loop br result n_bits
      else (result, br))"
  by pat_completeness auto
termination
  by (relation "measure (\<lambda>(br, r, n).
        nat n + (if bitsconsumed br \<ge> 8 then nat (bitsconsumed br - 8) + 1 else 0))")
    (auto simp: Let_def split: if_splits)

declare brread_loop.simps [simp del]

definition brread :: "bitreader \<Rightarrow> int \<Rightarrow> u64 \<times> bitreader" where
  "brread br n_bits = brread_loop br 0 n_bits"

definition reader_inv :: "bitreader \<Rightarrow> bool" where
  "reader_inv br \<longleftrightarrow>
     length (data (br_buffer br)) = bb_size (br_buffer br) \<and>
     byteoffset br \<le> bb_size (br_buffer br) \<and>
     (byteoffset br = bb_size (br_buffer br) \<longrightarrow> bitsconsumed br = 0) \<and>
     0 \<le> bitsconsumed br \<and> bitsconsumed br < 8"

definition reader_bits :: "bitreader \<Rightarrow> bool list" where
  "reader_bits br =
     drop (8 * byteoffset br + nat (bitsconsumed br)) (bits_of_bytes (data (br_buffer br)))"

lemma reader_inv_create [inv_intros]:
  "length (data buf) = bb_size buf \<Longrightarrow> reader_inv (brcreate buf)"
  by (simp add: reader_inv_def brcreate_def)

lemma reader_bits_create [codec_simps]: "reader_bits (brcreate buf) = bits_of_bytes (data buf)"
  by (simp add: reader_bits_def brcreate_def)

text \<open>One iteration of the read loop.\<close>

definition read_step :: "bitreader \<Rightarrow> nat \<Rightarrow> bitreader" where
  "read_step br k =
     (if nat (bitsconsumed br) + k = 8
      then br\<lparr>bitsconsumed := 0, byteoffset := byteoffset br + 1\<rparr>
      else br\<lparr>bitsconsumed := bitsconsumed br + int k\<rparr>)"

lemma reader_bits_current:
  assumes "reader_inv br" and "byteoffset br < bb_size (br_buffer br)"
    and "nat (bitsconsumed br) + k \<le> 8"
  shows "take k (reader_bits br) =
           msb_bits k (drop_bit (8 - nat (bitsconsumed br) - k) (data (br_buffer br) ! byteoffset br))"
    and "reader_bits (read_step br k) = drop k (reader_bits br)"
    and "reader_inv (read_step br k)"
proof -
  define f where "f = nat (bitsconsumed br)"
  define c where "c = data (br_buffer br) ! byteoffset br"
  have f: "bitsconsumed br = int f" "f < 8" "f + k \<le> 8" and off: "byteoffset br < length (data (br_buffer br))"
    using assms by (auto simp: reader_inv_def f_def)
  have bits: "reader_bits br = drop f (msb_bits 8 c) @ bits_of_bytes (drop (Suc (byteoffset br)) (data (br_buffer br)))"
    using drop_bits_of_bytes [OF off] f
    by (simp add: reader_bits_def c_def add.commute flip: drop_drop)
  have "take k (drop f (msb_bits 8 c)) = msb_bits k (drop_bit (8 - f - k) c)"
    using f by (intro nth_equalityI) (auto simp: bit_simps intro!: arg_cong [of _ _ "bit c"])
  then show "take k (reader_bits br) = msb_bits k (drop_bit (8 - nat (bitsconsumed br) - k) c)"
    using f by (simp add: bits)
  show "reader_bits (read_step br k) = drop k (reader_bits br)"
  proof (cases "f + k = 8")
    case True
    then have "8 * Suc (byteoffset br) = k + (8 * byteoffset br + f)" by simp
    with True f show ?thesis by (simp add: read_step_def reader_bits_def del: mult_Suc_right)
  next
    case False
    with f show ?thesis by (simp add: read_step_def reader_bits_def nat_add_distrib ac_simps)
  qed
  show "reader_inv (read_step br k)"
    using assms f by (auto simp: read_step_def reader_inv_def)
qed

lemma word_of_bits_ucast:
  fixes w :: byte
  assumes "k \<le> 8"
  shows "(word_of_bits (msb_bits k w) :: u64) = ucast (take_bit k w)"
  using assms by (intro bit_word_eqI) (auto simp: bit_word_of_bits bit_simps)

lemma brread_loop_0 [simp]: "brread_loop br r 0 = (r, br)"
  by (subst brread_loop.simps) simp

lemma brread_loop_end: "bb_size (br_buffer br) \<le> byteoffset br \<Longrightarrow> brread_loop br r n = (r, br)"
  by (subst brread_loop.simps) simp

lemma brread_loop_step:
  assumes inv: "reader_inv br" and "0 < n" and "byteoffset br < bb_size (br_buffer br)"
  defines "k \<equiv> min n (8 - nat (bitsconsumed br))"
  shows "brread_loop br r (int n) =
         brread_loop (read_step br k)
           (push_bit k r OR word_of_bits (take k (reader_bits br))) (int (n - k))"
proof -
  define f where "f = nat (bitsconsumed br)"
  have f: "bitsconsumed br = int f" "f < 8"
    using inv by (auto simp: reader_inv_def f_def)
  have k: "(if int n < 8 - int f then int n else 8 - int f) = int k"
    using f by (auto simp: k_def min_def of_nat_diff)
  have k8: "k \<le> 8" "0 < k" "k \<le> n" "f + k \<le> 8"
    using assms(2) f by (auto simp: k_def)
  have sub: "nat (int n - int k) = n - k" "nat (8 - int f - int k) = 8 - f - k"
    "int f + int k = 8 \<longleftrightarrow> f + k = 8" "int n > 0" "int n - int k = int (n - k)"
    "int k = 8 \<longleftrightarrow> k = 8" "\<not> bb_size (br_buffer br) \<le> byteoffset br"
    using k8 assms(3) by auto
  have bits: "word_of_bits (take k (reader_bits br)) =
    (ucast (take_bit k (drop_bit (8 - f - k) (data (br_buffer br) ! byteoffset br))) :: u64)"
    using reader_bits_current(1) [OF inv assms(3)] k8 f by (simp add: word_of_bits_ucast)
  show ?thesis
    unfolding brread_loop.simps [of br r "int n"] Let_def f(1) k nat_int sub bits read_step_def
    using f k8 by (simp add: sub take_bit_eq_mask mask_eq_exp_minus_1 del: of_nat_diff of_nat_add)
qed

text \<open>
  The refinement of the reader: a call delivers the next \<open>n\<close> bits, or all that are left when
  the buffer ends first, and removes them from the stream.
\<close>

lemma brread_loop_correct:
  assumes "reader_inv br"
  shows "fst (brread_loop br r (int n)) =
           push_bit (length (take n (reader_bits br))) r OR word_of_bits (take n (reader_bits br)) \<and>
         reader_bits (snd (brread_loop br r (int n))) = drop n (reader_bits br) \<and>
         reader_inv (snd (brread_loop br r (int n)))"
  using assms
proof (induction n arbitrary: br r rule: less_induct)
  case (less n)
  consider "n = 0" | "0 < n" "bb_size (br_buffer br) \<le> byteoffset br"
    | "0 < n" "byteoffset br < bb_size (br_buffer br)" by linarith
  then show ?case
  proof cases
    case 1
    with less.prems show ?thesis by simp
  next
    case 2
    with less.prems have "reader_bits br = []"
      by (auto simp: reader_inv_def reader_bits_def)
    with 2 less.prems show ?thesis by (simp add: brread_loop_end)
  next
    case 3
    define k where "k = min n (8 - nat (bitsconsumed br))"
    have k: "0 < k" "k \<le> n" "nat (bitsconsumed br) + k \<le> 8" "n - k < n"
      using 3 less.prems by (auto simp: k_def reader_inv_def)
    note cur = reader_bits_current [OF less.prems 3(2) k(3)]
    have len: "length (take k (reader_bits br)) = k" by (simp add: cur(1))
    have "take n (reader_bits br) = take k (reader_bits br) @ take (n - k) (drop k (reader_bits br))"
      using k(2) by (metis le_add_diff_inverse take_add)
    then have accum: "push_bit (length (take n (reader_bits br))) r OR word_of_bits (take n (reader_bits br)) =
      push_bit (length (take (n - k) (drop k (reader_bits br))))
        (push_bit k r OR word_of_bits (take k (reader_bits br)))
        OR word_of_bits (take (n - k) (drop k (reader_bits br)))"
      using len by (simp add: word_of_bits_append push_bit_or or.assoc add.commute del: take_drop length_take drop_take)
    have "drop (n - k) (drop k (reader_bits br)) = drop n (reader_bits br)"
      using k(2) by simp
    then show ?thesis
      using less.IH [OF k(4) cur(3)]
      unfolding accum brread_loop_step [OF less.prems 3, folded k_def] cur(2) by metis
  qed
qed

lemma brread_bits [codec_simps]:
  "reader_inv br \<Longrightarrow> fst (brread br (int n)) = word_of_bits (take n (reader_bits br))"
  using brread_loop_correct [of br 0 n] by (simp add: brread_def)

lemma brread_remaining [codec_simps]:
  "reader_inv br \<Longrightarrow> reader_bits (snd (brread br (int n))) = drop n (reader_bits br)"
  using brread_loop_correct [of br 0 n] by (simp add: brread_def)

lemma reader_inv_read [inv_intros]: "reader_inv br \<Longrightarrow> reader_inv (snd (brread br (int n)))"
  using brread_loop_correct [of br 0 n] by (simp add: brread_def)

text \<open>The same facts for bit counts written as C integers.\<close>

lemma writer_write_int:
  assumes "writer_inv bw" and "0 \<le> n"
  shows "writer_inv (bwwrite bw v n)"
    and "writer_bits (bwwrite bw v n) = writer_bits bw @ msb_bits (nat n) v"
  using writer_inv_write [OF assms(1), of v "nat n"] writer_bits_write [OF assms(1), of v "nat n"] assms(2)
  by simp_all

section \<open>The interface of the bit stream\<close>

text \<open>
  What an encoder relies on: every put appends the bits of one field. A sequence of puts
  appends the fields in order, whatever is put behind the interface.
\<close>

locale bit_sink =
  fixes put :: "'w \<Rightarrow> u64 \<Rightarrow> int \<Rightarrow> 'w"
    and sent :: "'w \<Rightarrow> bool list"
    and valid :: "'w \<Rightarrow> bool"
  assumes put_valid: "valid w \<Longrightarrow> valid (put w v (int n))"
    and sent_put: "valid w \<Longrightarrow> sent (put w v (int n)) = sent w @ msb_bits n v"
begin

lemma put_fields:
  assumes "valid w"
  shows "valid (fold (\<lambda>(v, n) w. put w v (int n)) fs w)"
    and "sent (fold (\<lambda>(v, n) w. put w v (int n)) fs w) =
           sent w @ concat (map (\<lambda>(v, n). msb_bits n v) fs)"
  using assms
  by (induction fs arbitrary: w) (auto simp: put_valid sent_put)

end

text \<open>
  What a decoder relies on: a get of \<open>n\<close> bits delivers the field that was put, and leaves
  the rest of the stream for the next get.
\<close>

locale bit_source =
  fixes get :: "'r \<Rightarrow> int \<Rightarrow> u64 \<times> 'r"
    and pending :: "'r \<Rightarrow> bool list"
    and valid :: "'r \<Rightarrow> bool"
  assumes get_valid: "valid r \<Longrightarrow> valid (snd (get r (int n)))"
    and get_bits: "valid r \<Longrightarrow> fst (get r (int n)) = word_of_bits (take n (pending r))"
    and pending_get: "valid r \<Longrightarrow> pending (snd (get r (int n))) = drop n (pending r)"
begin

lemma get_field:
  assumes "valid r" and "pending r = msb_bits n v @ rest"
  obtains r' where "get r (int n) = (take_bit n v, r')" "valid r'" "pending r' = rest"
  using assms get_valid [of r n] get_bits [of r n] pending_get [of r n]
  by (metis append_eq_conv_conj length_msb_bits prod.collapse word_of_msb_bits)

lemma get_bit:
  assumes "valid r" and "pending r = b # rest"
  obtains r' where "get r 1 = (of_bool b, r')" "valid r'" "pending r' = rest"
proof -
  have "msb_bits 1 (of_bool b :: u64) = [b]"
    by (cases b) (auto simp: msb_bits_def)
  with assms(2) have "pending r = msb_bits 1 (of_bool b :: u64) @ rest"
    by (simp only: append_Cons append_Nil)
  from get_field [OF assms(1) this] obtain r' where
    "get r (int 1) = (take_bit 1 (of_bool b), r')" "valid r'" "pending r' = rest" by blast
  moreover have "take_bit 1 (of_bool b :: u64) = of_bool b" by (cases b) simp_all
  ultimately show thesis using that by simp
qed

lemma get_past_end:
  assumes "valid r" and "pending r = []"
  shows "fst (get r (int n)) = 0 \<and> pending (snd (get r (int n))) = []"
  using assms get_bits [of r n] pending_get [of r n] by simp

end

interpretation wr: bit_sink bwwrite writer_bits writer_inv
  by unfold_locales (simp_all add: inv_intros codec_simps)

interpretation rd: bit_source brread reader_bits reader_inv
  by unfold_locales (simp_all add: inv_intros codec_simps)

section \<open>Properties\<close>

text \<open>A sequence of fields written through a fresh writer, and the same widths read back.\<close>

definition bwwrite_fields :: "(u64 \<times> nat) list \<Rightarrow> bitwriter \<Rightarrow> bitwriter" where
  "bwwrite_fields fs bw = fold (\<lambda>(v, n) bw. bwwrite bw v (int n)) fs bw"

fun brread_fields :: "nat list \<Rightarrow> bitreader \<Rightarrow> u64 list" where
  "brread_fields [] br = []"
| "brread_fields (n # ns) br =
     (let (v, br) = brread br (int n) in v # brread_fields ns br)"

lemma brread_fields_stream:
  "reader_inv br \<Longrightarrow> reader_bits br = concat (map (\<lambda>(v, n). msb_bits n v) fs) @ rest \<Longrightarrow>
     brread_fields (map snd fs) br = map (\<lambda>(v, n). take_bit n v) fs"
proof (induction fs arbitrary: br)
  case Nil
  then show ?case by simp
next
  case (Cons f fs)
  obtain v n where f: "f = (v, n)" by (cases f)
  from Cons.prems f have "reader_bits br = msb_bits n v @ concat (map (\<lambda>(v, n). msb_bits n v) fs) @ rest"
    by simp
  from rd.get_field [OF Cons.prems(1) this] obtain br' where
    "brread br (int n) = (take_bit n v, br')" "reader_inv br'"
    "reader_bits br' = concat (map (\<lambda>(v, n). msb_bits n v) fs) @ rest" by blast
  with Cons.IH f show ?case by simp
qed

lemma reader_inv_closed:
  "writer_inv bw \<Longrightarrow> reader_inv (brcreate (bw_buffer bw))"
  by (auto simp: writer_inv_def buffer_inv_def intro: inv_intros)

text \<open>C24: every sequence of fields written by bwwrite and flushed by bwclose is read back by
  brread, field by field, as the low bits that were asked for.\<close>

theorem bit_io_roundtrip:
  "brread_fields (map snd fs) (brcreate (bw_buffer (bwclose (bwwrite_fields fs bwcreate)))) =
     map (\<lambda>(v, n). take_bit n v) fs"
proof -
  note put = wr.put_fields [OF writer_inv_create, of fs, folded bwwrite_fields_def]
  show ?thesis
    using put by (intro brread_fields_stream)
      (auto intro: reader_inv_closed inv_intros simp: codec_simps)
qed

text \<open>The buffer of a closed writer has exactly the bytes the written bits need, inside the
  allocated capacity, so that no append stores past the allocation.\<close>

theorem bwclose_size:
  "let buf = bw_buffer (bwclose (bwwrite_fields fs bwcreate))
   in bb_size buf = (sum_list (map snd fs) + 7) div 8 \<and> bb_size buf \<le> bb_capacity buf \<and>
      length (data buf) = bb_size buf"
proof -
  define bw where "bw = bwwrite_fields fs bwcreate"
  note put = wr.put_fields [OF writer_inv_create, of fs, folded bwwrite_fields_def bw_def]
  have len: "length (writer_bits bw) = sum_list (map snd fs)"
    using put(2) by (simp add: codec_simps length_concat comp_def case_prod_unfold)
  have inv: "writer_inv (bwclose bw)" using put(1) by (rule inv_intros)
  then have buf: "buffer_inv (bw_buffer (bwclose bw))" by (simp add: writer_inv_def)
  define f where "f = nat (filledbits bw)"
  have f: "filledbits bw = int f" "f < 8" using put(1) by (auto simp: writer_inv_def f_def)
  have "sum_list (map snd fs) = 8 * length (data (bw_buffer bw)) + f"
    using len f by (simp add: writer_bits_def)
  moreover have "length (data (bw_buffer (bwclose bw))) = length (data (bw_buffer bw)) + (if f = 0 then 0 else 1)"
    using put(1) f by (auto simp: bwclose_def writer_inv_def)
  ultimately have "length (data (bw_buffer (bwclose bw))) = (sum_list (map snd fs) + 7) div 8"
    using f(2) by (auto split: if_splits)
  with buf show ?thesis by (simp add: buffer_inv_def Let_def flip: bw_def)
qed

end
