(* ===== verification/Codec.thy ===== *)
theory Codec
  imports Bit_IO
begin

text \<open>
  The interface between the two Gorilla codecs and the code that streams points through
  them. A codec is an encoder step over the shared bit writer and a decoder step over the
  bit reader; \<^verbatim>\<open>src/flush.c\<close> runs the encoder step once per point, and
  \<^verbatim>\<open>src/registry.c\<close> and \<^verbatim>\<open>src/downsample.c\<close> run the decoder step once per point.
  The locale \<open>stream_codec\<close> states what one step promises; its round trip lemma lifts the
  promise to whole streams, and two codecs that share a stream form a codec again.

  The C structs hold a pointer to the writer or reader they share. Here that object is
  passed to each call and returned by it.
\<close>

fun encode_all ::
    "('e \<Rightarrow> bitwriter \<Rightarrow> 'v \<Rightarrow> 'e \<times> bitwriter) \<Rightarrow> 'e \<Rightarrow> bitwriter \<Rightarrow> 'v list \<Rightarrow> 'e \<times> bitwriter" where
  "encode_all enc e bw [] = (e, bw)"
| "encode_all enc e bw (v # vs) = (let (e, bw) = enc e bw v in encode_all enc e bw vs)"

fun decode_all ::
    "('d \<Rightarrow> bitreader \<Rightarrow> 'v \<times> 'd \<times> bitreader) \<Rightarrow> nat \<Rightarrow> 'd \<Rightarrow> bitreader \<Rightarrow> 'v list \<times> 'd \<times> bitreader" where
  "decode_all dec 0 d br = ([], d, br)"
| "decode_all dec (Suc n) d br =
     (let (v, d, br) = dec d br; (vs, d, br) = decode_all dec n d br in (v # vs, d, br))"

text \<open>A stream of values fits when each value fits the encoder state it meets.\<close>

fun all_fit :: "('e \<Rightarrow> 'v \<Rightarrow> bool) \<Rightarrow> ('e \<Rightarrow> 'v \<Rightarrow> 'e) \<Rightarrow> 'e \<Rightarrow> 'v list \<Rightarrow> bool" where
  "all_fit fits nxt e [] = True"
| "all_fit fits nxt e (v # vs) = (fits e v \<and> all_fit fits nxt (nxt e v) vs)"

fun all_code :: "('e \<Rightarrow> 'v \<Rightarrow> bool list) \<Rightarrow> ('e \<Rightarrow> 'v \<Rightarrow> 'e) \<Rightarrow> 'e \<Rightarrow> 'v list \<Rightarrow> bool list" where
  "all_code code nxt e [] = []"
| "all_code code nxt e (v # vs) = code e v @ all_code code nxt (nxt e v) vs"

lemma length_decode_all [simp]: "length (fst (decode_all dec n d br)) = n"
  by (induction n arbitrary: d br) (auto simp: split_def Let_def)

locale stream_codec =
  fixes enc :: "'e \<Rightarrow> bitwriter \<Rightarrow> 'v \<Rightarrow> 'e \<times> bitwriter"
    and nxt :: "'e \<Rightarrow> 'v \<Rightarrow> 'e"
    and code :: "'e \<Rightarrow> 'v \<Rightarrow> bool list"
    and fits :: "'e \<Rightarrow> 'v \<Rightarrow> bool"
    and image :: "'v \<Rightarrow> 'v"
    and dec :: "'d \<Rightarrow> bitreader \<Rightarrow> 'v \<times> 'd \<times> bitreader"
    and sync :: "'e \<Rightarrow> 'd \<Rightarrow> bool"
  assumes enc_state: "fst (enc e bw v) = nxt e v"
    and enc_valid: "writer_inv bw \<Longrightarrow> sync e d \<Longrightarrow> writer_inv (snd (enc e bw v))"
    and enc_bits: "writer_inv bw \<Longrightarrow> sync e d \<Longrightarrow>
      writer_bits (snd (enc e bw v)) = writer_bits bw @ code e v"
    and sync_next: "sync e d \<Longrightarrow> \<exists>d'. sync (nxt e v) d'"
    and dec_code: "sync e d \<Longrightarrow> fits e v \<Longrightarrow> reader_inv br \<Longrightarrow> reader_bits br = code e v @ rest \<Longrightarrow>
      \<exists>d' br'. dec d br = (image v, d', br') \<and> sync (nxt e v) d' \<and>
               reader_inv br' \<and> reader_bits br' = rest"
begin

lemma encode_all_correct:
  "writer_inv bw \<Longrightarrow> sync e d \<Longrightarrow>
     writer_inv (snd (encode_all enc e bw vs)) \<and>
     writer_bits (snd (encode_all enc e bw vs)) = writer_bits bw @ all_code code nxt e vs"
proof (induction vs arbitrary: e d bw)
  case Nil
  then show ?case by simp
next
  case (Cons v vs)
  obtain bw' where step: "enc e bw v = (nxt e v, bw')"
    by (metis enc_state prod.collapse)
  from sync_next [OF Cons.prems(2)] obtain d' where "sync (nxt e v) d'" by blast
  with Cons.IH [of bw' "nxt e v" d'] enc_valid [OF Cons.prems, of v] enc_bits [OF Cons.prems, of v] step
  show ?case by simp
qed

lemma decode_all_correct:
  assumes "sync e d" and "all_fit fits nxt e vs" and "reader_inv br"
    and "reader_bits br = all_code code nxt e vs @ rest"
  obtains d' br' where "decode_all dec (length vs) d br = (map image vs, d', br')"
    and "reader_inv br'" and "reader_bits br' = rest"
  using assms
proof (induction vs arbitrary: e d br thesis)
  case Nil
  then show ?case by simp
next
  case (Cons v vs)
  from Cons.prems have "fits e v" "reader_bits br = code e v @ all_code code nxt (nxt e v) vs @ rest"
    by simp_all
  from dec_code [OF Cons.prems(2) this(1) Cons.prems(4) this(2)] obtain d1 br1 where
    s: "dec d br = (image v, d1, br1)" "sync (nxt e v) d1" "reader_inv br1"
      "reader_bits br1 = all_code code nxt (nxt e v) vs @ rest" by blast
  from Cons.prems(3) have "all_fit fits nxt (nxt e v) vs" by simp
  from Cons.IH [OF _ s(2) this s(3,4)] obtain d2 br2 where
    "decode_all dec (length vs) d1 br1 = (map image vs, d2, br2)"
    "reader_inv br2" "reader_bits br2 = rest" by blast
  with s(1) Cons.prems(1) show ?case by simp
qed

text \<open>A whole stream encoded into a fresh writer and closed decodes to the images.\<close>

lemma stream_roundtrip:
  assumes "sync e d" and "all_fit fits nxt e vs"
  shows "fst (decode_all dec (length vs) d
           (brcreate (bw_buffer (bwclose (snd (encode_all enc e bwcreate vs)))))) = map image vs"
proof -
  note enc_all = encode_all_correct [OF writer_inv_create assms(1), of vs]
  let ?bw = "snd (encode_all enc e bwcreate vs)"
  have "reader_bits (brcreate (bw_buffer (bwclose ?bw))) =
      all_code code nxt e vs @ replicate (nat (- filledbits ?bw mod 8)) False"
    using enc_all by (simp add: codec_simps)
  moreover have "reader_inv (brcreate (bw_buffer (bwclose ?bw)))"
    using enc_all by (simp add: reader_inv_closed inv_intros)
  ultimately show ?thesis
    using decode_all_correct [OF assms] by (metis fst_conv)
qed

text \<open>A bound on the code of one value bounds the size of the closed buffer.\<close>

lemma all_code_length:
  assumes "\<And>e v. \<exists>d. sync e d \<Longrightarrow> length (code e v) \<le> B" and "sync e d"
  shows "length (all_code code nxt e vs) \<le> B * length vs"
  using assms(2)
proof (induction vs arbitrary: e d)
  case Nil
  then show ?case by simp
next
  case (Cons v vs)
  from sync_next [OF Cons.prems] obtain d' where "sync (nxt e v) d'" by blast
  from Cons.IH [OF this] assms(1) [of e v] Cons.prems show ?case by fastforce
qed

lemma encode_all_size:
  assumes "\<And>e v. \<exists>d. sync e d \<Longrightarrow> length (code e v) \<le> B" and "sync e d"
  shows "8 * bb_size (bw_buffer (bwclose (snd (encode_all enc e bwcreate vs)))) \<le> B * length vs + 7"
    (is "8 * bb_size (bw_buffer ?bw) \<le> _")
proof -
  note enc_all = encode_all_correct [OF writer_inv_create assms(2), of vs]
  from enc_all have "writer_inv ?bw" by (simp add: inv_intros)
  then have "8 * bb_size (bw_buffer ?bw) = length (bits_of_bytes (data (bw_buffer ?bw)))"
    by (simp add: writer_inv_def buffer_inv_def)
  also have "\<dots> \<le> length (all_code code nxt e vs) + 7"
    using enc_all by (simp add: codec_simps)
  finally show ?thesis using all_code_length [OF assms, where vs = vs] by simp
qed

end

text \<open>
  Two codecs that share one stream, a point at a time: the first component is written and
  read before the second, as \<^verbatim>\<open>flushtochunk\<close> and the decoding loops do.
\<close>

definition pair_enc ::
    "('e \<Rightarrow> bitwriter \<Rightarrow> 'v \<Rightarrow> 'e \<times> bitwriter) \<Rightarrow> ('f \<Rightarrow> bitwriter \<Rightarrow> 'w \<Rightarrow> 'f \<times> bitwriter) \<Rightarrow>
     'e \<times> 'f \<Rightarrow> bitwriter \<Rightarrow> 'v \<times> 'w \<Rightarrow> ('e \<times> 'f) \<times> bitwriter" where
  "pair_enc enc1 enc2 = (\<lambda>(e, f) bw (v, w).
     let (e, bw) = enc1 e bw v; (f, bw) = enc2 f bw w in ((e, f), bw))"

definition pair_dec ::
    "('d \<Rightarrow> bitreader \<Rightarrow> 'v \<times> 'd \<times> bitreader) \<Rightarrow> ('c \<Rightarrow> bitreader \<Rightarrow> 'w \<times> 'c \<times> bitreader) \<Rightarrow>
     'd \<times> 'c \<Rightarrow> bitreader \<Rightarrow> ('v \<times> 'w) \<times> ('d \<times> 'c) \<times> bitreader" where
  "pair_dec dec1 dec2 = (\<lambda>(d, c) br.
     let (v, d, br) = dec1 d br; (w, c, br) = dec2 c br in ((v, w), (d, c), br))"

locale codec_pair =
  a: stream_codec enc1 nxt1 code1 fits1 image1 dec1 sync1 +
  b: stream_codec enc2 nxt2 code2 fits2 image2 dec2 sync2
  for enc1 :: "'e \<Rightarrow> bitwriter \<Rightarrow> 'v \<Rightarrow> 'e \<times> bitwriter"
    and nxt1 code1 fits1 image1
    and dec1 :: "'d \<Rightarrow> bitreader \<Rightarrow> 'v \<times> 'd \<times> bitreader"
    and sync1
    and enc2 :: "'f \<Rightarrow> bitwriter \<Rightarrow> 'w \<Rightarrow> 'f \<times> bitwriter"
    and nxt2 code2 fits2 image2
    and dec2 :: "'c \<Rightarrow> bitreader \<Rightarrow> 'w \<times> 'c \<times> bitreader"
    and sync2

sublocale codec_pair \<subseteq> both: stream_codec
  "pair_enc enc1 enc2"
  "\<lambda>(e, f) (v, w). (nxt1 e v, nxt2 f w)"
  "\<lambda>(e, f) (v, w). code1 e v @ code2 f w"
  "\<lambda>(e, f) (v, w). fits1 e v \<and> fits2 f w"
  "map_prod image1 image2"
  "pair_dec dec1 dec2"
  "\<lambda>(e, f) (d, c). sync1 e d \<and> sync2 f c"
proof (unfold_locales, goal_cases)
  case (1 ef bw vw)
  then show ?case
    by (auto simp: pair_enc_def split_def Let_def a.enc_state b.enc_state)
next
  case (2 bw ef dc vw)
  then show ?case
    by (auto simp: pair_enc_def split_def Let_def intro: a.enc_valid b.enc_valid)
next
  case (3 bw ef dc vw)
  then show ?case
    by (auto simp: pair_enc_def split_def Let_def a.enc_bits b.enc_bits a.enc_valid)
next
  case (4 ef dc vw)
  then show ?case
    using a.sync_next b.sync_next by (fastforce simp: split_def)
next
  case (5 ef dc vw br rest)
  obtain e f d c v w where eqs: "ef = (e, f)" "dc = (d, c)" "vw = (v, w)"
    by (cases ef; cases dc; cases vw)
  with 5 have "reader_bits br = code1 e v @ code2 f w @ rest" by simp
  with 5 eqs a.dec_code [of e d v br "code2 f w @ rest"] obtain d' br1 where
    1: "dec1 d br = (image1 v, d', br1)" "sync1 (nxt1 e v) d'" "reader_inv br1"
       "reader_bits br1 = code2 f w @ rest" by auto
  with 5 eqs b.dec_code [of f c w br1 rest] obtain c' br2 where
    2: "dec2 c br1 = (image2 w, c', br2)" "sync2 (nxt2 f w) c'" "reader_inv br2"
       "reader_bits br2 = rest" by auto
  from 1 2 eqs show ?case by (simp add: pair_dec_def)
qed

end
