(* ===== verification/Timestamp.thy ===== *)
theory Timestamp
  imports Codec
begin

text \<open>
  The delta-of-delta timestamp codec of \<^verbatim>\<open>src/timestamp.c\<close>. The C fields of type
  \<open>int64_t\<close> are kept as 64-bit patterns, subtraction and addition wrap as they do on the
  target, and the range tests read the pattern as a signed number.

  The round trip lemma is an instance of \<open>stream_codec\<close>. It needs the first gap of a stream
  to fit 14 signed bits and each later change of the gap to fit 32 signed bits, because the
  encoder truncates to these widths without a test.
\<close>

section \<open>State and operations\<close>

record timestampencoder =
  te_prevtimestamp :: u64
  te_prevdelta :: u64
  te_isfirst :: bool
  te_issecond :: bool

record timestampdecoder =
  td_prevtimestamp :: u64
  td_prevdelta :: u64
  td_isfirst :: bool
  td_issecond :: bool

definition signextend :: "u64 \<Rightarrow> int \<Rightarrow> u64" where
  "signextend val bits =
     (if val AND push_bit (nat (bits - 1)) 1 \<noteq> 0
      then val OR push_bit (nat bits) (NOT 0)
      else val)"

definition tsencoderinit :: timestampencoder where
  "tsencoderinit =
     \<lparr>te_prevtimestamp = 0, te_prevdelta = 0, te_isfirst = True, te_issecond = False\<rparr>"

definition tsencoderwrite ::
    "timestampencoder \<Rightarrow> bitwriter \<Rightarrow> u64 \<Rightarrow> timestampencoder \<times> bitwriter" where
  "tsencoderwrite e bw timestamp =
     (if te_isfirst e then
        (e\<lparr>te_prevtimestamp := timestamp, te_isfirst := False, te_issecond := True\<rparr>,
         bwwrite bw timestamp 64)
      else
        let delta = timestamp - te_prevtimestamp e in
        if te_issecond e then
          (e\<lparr>te_prevtimestamp := timestamp, te_prevdelta := delta, te_issecond := False\<rparr>,
           bwwrite bw (delta AND 0x3FFF) 14)
        else
          let D = delta - te_prevdelta e;
              bw = (if D = 0 then bwwrite bw 0 1
                    else if sint D \<ge> -64 \<and> sint D \<le> 63
                    then bwwrite (bwwrite bw 0x02 2) (D AND 0x7F) 7
                    else if sint D \<ge> -256 \<and> sint D \<le> 255
                    then bwwrite (bwwrite bw 0x06 3) (D AND 0x1FF) 9
                    else if sint D \<ge> -2048 \<and> sint D \<le> 2047
                    then bwwrite (bwwrite bw 0x0E 4) (D AND 0xFFF) 12
                    else bwwrite (bwwrite bw 0x0F 4) (D AND 0xFFFFFFFF) 32)
          in (e\<lparr>te_prevtimestamp := timestamp, te_prevdelta := delta\<rparr>, bw))"

definition tsdecoderinit :: timestampdecoder where
  "tsdecoderinit =
     \<lparr>td_prevtimestamp = 0, td_prevdelta = 0, td_isfirst = True, td_issecond = False\<rparr>"

text \<open>The nested branches on the prefix bits, which set \<open>D\<close>.\<close>

definition ts_read_D :: "bitreader \<Rightarrow> u64 \<times> bitreader" where
  "ts_read_D br =
     (let (bit1, br) = brread br 1 in
      if c_int bit1 = 0 then
        let (raw, br) = brread br 7 in (signextend raw 7, br)
      else
        let (bit2, br) = brread br 1 in
        if c_int bit2 = 0 then
          let (raw, br) = brread br 9 in (signextend raw 9, br)
        else
          let (bit3, br) = brread br 1 in
          if c_int bit3 = 0 then
            let (raw, br) = brread br 12 in (signextend raw 12, br)
          else
            let (raw, br) = brread br 32 in (signextend raw 32, br))"

definition tsdecoderread ::
    "timestampdecoder \<Rightarrow> bitreader \<Rightarrow> u64 \<times> timestampdecoder \<times> bitreader" where
  "tsdecoderread d br =
     (if td_isfirst d then
        let (timestamp, br) = brread br 64
        in (timestamp,
            d\<lparr>td_prevtimestamp := timestamp, td_isfirst := False, td_issecond := True\<rparr>, br)
      else if td_issecond d then
        let (raw, br) = brread br 14;
            delta = signextend raw 14;
            timestamp = td_prevtimestamp d + delta
        in (timestamp,
            d\<lparr>td_prevtimestamp := timestamp, td_prevdelta := delta, td_issecond := False\<rparr>, br)
      else
        let (bit0, br) = brread br 1 in
        if c_int bit0 = 0 then
          let timestamp = td_prevtimestamp d + td_prevdelta d
          in (timestamp, d\<lparr>td_prevtimestamp := timestamp\<rparr>, br)
        else
          let (D, br) = ts_read_D br;
              delta = td_prevdelta d + D;
              timestamp = td_prevtimestamp d + delta
          in (timestamp, d\<lparr>td_prevtimestamp := timestamp, td_prevdelta := delta\<rparr>, br))"

section \<open>Sign extension\<close>

lemma signextend_take_bit:
  assumes "- (2 ^ n) \<le> sint D" "sint D < 2 ^ n" "n < 63"
  shows "signextend (take_bit (Suc n) D) (int (Suc n)) = D"
proof -
  have hi: "bit D i = bit D 63" if "n \<le> i" "i < 64" for i
    using bit_of_small_signed [OF assms(1,2) that(1)] that(2) by simp
  have test: "take_bit (Suc n) D AND push_bit n 1 \<noteq> 0 \<longleftrightarrow> bit D n"
  proof -
    have "take_bit (Suc n) D AND push_bit n 1 = push_bit n (of_bool (bit D n))"
      using assms(3) by (intro bit_word_eqI) (auto simp: bit_simps)
    with assms(3) show ?thesis by (auto simp: push_bit_eq_mult)
  qed
  have set: "(if bit D n then take_bit (Suc n) D OR push_bit (Suc n) (NOT 0) else take_bit (Suc n) D) = D"
  proof (rule bit_word_eqI)
    fix i assume "i < LENGTH(64)"
    then have "n \<le> i \<Longrightarrow> bit D i = bit D n"
      using hi [of i] hi [of n] assms(3) by simp
    then show "bit (if bit D n then take_bit (Suc n) D OR push_bit (Suc n) (NOT 0)
                    else take_bit (Suc n) D) i = bit D i"
      using assms(3) \<open>i < LENGTH(64)\<close> by (cases "i \<le> n") (auto simp: bit_simps less_Suc_eq_le)
  qed
  show ?thesis
    using test set by (auto simp: signextend_def nat_add_distrib split: if_splits)
qed

lemmas signextend_widths =
  signextend_take_bit [of 6, simplified] signextend_take_bit [of 8, simplified]
  signextend_take_bit [of 11, simplified] signextend_take_bit [of 13, simplified]
  signextend_take_bit [of 31, simplified]

section \<open>The code of one timestamp\<close>

definition ts_delta :: "timestampencoder \<Rightarrow> u64 \<Rightarrow> u64" where
  "ts_delta e t = t - te_prevtimestamp e"

definition ts_D :: "timestampencoder \<Rightarrow> u64 \<Rightarrow> u64" where
  "ts_D e t = ts_delta e t - te_prevdelta e"

definition ts_next :: "timestampencoder \<Rightarrow> u64 \<Rightarrow> timestampencoder" where
  "ts_next e t =
     (if te_isfirst e
      then e\<lparr>te_prevtimestamp := t, te_isfirst := False, te_issecond := True\<rparr>
      else if te_issecond e
      then e\<lparr>te_prevtimestamp := t, te_prevdelta := ts_delta e t, te_issecond := False\<rparr>
      else e\<lparr>te_prevtimestamp := t, te_prevdelta := ts_delta e t\<rparr>)"

definition ts_D_code :: "u64 \<Rightarrow> bool list" where
  "ts_D_code D =
     (if sint D \<ge> -64 \<and> sint D \<le> 63 then [True, False] @ msb_bits 7 D
      else if sint D \<ge> -256 \<and> sint D \<le> 255 then [True, True, False] @ msb_bits 9 D
      else if sint D \<ge> -2048 \<and> sint D \<le> 2047 then [True, True, True, False] @ msb_bits 12 D
      else [True, True, True, True] @ msb_bits 32 D)"

definition ts_code :: "timestampencoder \<Rightarrow> u64 \<Rightarrow> bool list" where
  "ts_code e t =
     (if te_isfirst e then msb_bits 64 t
      else if te_issecond e then msb_bits 14 (ts_delta e t)
      else if ts_D e t = 0 then [False]
      else ts_D_code (ts_D e t))"

definition ts_fits :: "timestampencoder \<Rightarrow> u64 \<Rightarrow> bool" where
  "ts_fits e t \<longleftrightarrow>
     te_isfirst e \<or>
     (if te_issecond e
      then -8192 \<le> sint (ts_delta e t) \<and> sint (ts_delta e t) < 8192
      else - (2 ^ 31) \<le> sint (ts_D e t) \<and> sint (ts_D e t) < 2 ^ 31)"

definition ts_sync :: "timestampencoder \<Rightarrow> timestampdecoder \<Rightarrow> bool" where
  "ts_sync e d \<longleftrightarrow>
     td_prevtimestamp d = te_prevtimestamp e \<and> td_prevdelta d = te_prevdelta e \<and>
     td_isfirst d = te_isfirst e \<and> td_issecond d = te_issecond e"

lemmas ts_code_defs = ts_delta_def ts_D_def ts_next_def ts_D_code_def ts_code_def ts_fits_def

lemma ts_sync_init: "ts_sync tsencoderinit tsdecoderinit"
  by (simp add: ts_sync_def tsencoderinit_def tsdecoderinit_def)

text \<open>The prefix constants of the encoder as bits, and its masks.\<close>

lemma ts_prefix_bits:
  "msb_bits (Suc 0) (0 :: u64) = [False]"
  "msb_bits 2 (0x02 :: u64) = [True, False]"
  "msb_bits 3 (0x06 :: u64) = [True, True, False]"
  "msb_bits 4 (0x0E :: u64) = [True, True, True, False]"
  "msb_bits 4 (0x0F :: u64) = [True, True, True, True]"
  by code_simp+

lemma ts_masks:
  "msb_bits 7 (w AND 0x7F) = msb_bits 7 (w :: u64)"
  "msb_bits 9 (w AND 0x1FF) = msb_bits 9 (w :: u64)"
  "msb_bits 12 (w AND 0xFFF) = msb_bits 12 (w :: u64)"
  "msb_bits 14 (w AND 0x3FFF) = msb_bits 14 (w :: u64)"
  "msb_bits 32 (w AND 0xFFFFFFFF) = msb_bits 32 (w :: u64)"
  using mask_and_msb_bits [of 7 w] mask_and_msb_bits [of 9 w] mask_and_msb_bits [of 12 w]
    mask_and_msb_bits [of 14 w] mask_and_msb_bits [of 32 w]
  by (simp_all add: mask_eq_exp_minus_1)

lemma tsencoderwrite_state: "fst (tsencoderwrite e bw t) = ts_next e t"
  by (simp add: tsencoderwrite_def ts_next_def ts_delta_def Let_def)

lemma tsencoderwrite_bits:
  assumes "writer_inv bw"
  shows "writer_inv (snd (tsencoderwrite e bw t)) \<and>
         writer_bits (snd (tsencoderwrite e bw t)) = writer_bits bw @ ts_code e t"
  using assms
  by (simp add: tsencoderwrite_def ts_code_defs Let_def writer_write_int ts_prefix_bits ts_masks)

text \<open>The decoder reads the prefix bits one at a time and finds the width the encoder chose.\<close>

lemma ts_read_D_code:
  assumes D: "- (2 ^ 31) \<le> sint D" "sint D < 2 ^ 31"
    and br: "reader_inv br" "True # reader_bits br = ts_D_code D @ rest"
  obtains br' where "ts_read_D br = (D, br')" "reader_inv br'" "reader_bits br' = rest"
proof -
  consider (w7) "-64 \<le> sint D" "sint D \<le> 63" "reader_bits br = False # msb_bits 7 D @ rest"
    | (w9) "-256 \<le> sint D" "sint D \<le> 255" "reader_bits br = True # False # msb_bits 9 D @ rest"
    | (w12) "-2048 \<le> sint D" "sint D \<le> 2047"
        "reader_bits br = True # True # False # msb_bits 12 D @ rest"
    | (w32) "reader_bits br = True # True # True # msb_bits 32 D @ rest"
    using br(2) by (auto simp: ts_D_code_def split: if_splits)
  then show thesis
  proof cases
    case w7
    obtain b1 where b1: "brread br 1 = (0, b1)" "reader_inv b1" "reader_bits b1 = msb_bits 7 D @ rest"
      using rd.get_bit [OF br(1) w7(3)] by auto
    obtain b2 where "brread b1 7 = (take_bit 7 D, b2)" "reader_inv b2" "reader_bits b2 = rest"
      using rd.get_field [OF b1(2,3)] by auto
    with w7 b1 that show thesis by (simp add: ts_read_D_def signextend_widths c_int_def)
  next
    case w9
    obtain b1 where b1: "brread br 1 = (1, b1)" "reader_inv b1"
        "reader_bits b1 = False # msb_bits 9 D @ rest"
      using rd.get_bit [OF br(1) w9(3)] by auto
    obtain b2 where b2: "brread b1 1 = (0, b2)" "reader_inv b2" "reader_bits b2 = msb_bits 9 D @ rest"
      using rd.get_bit [OF b1(2,3)] by auto
    obtain b3 where "brread b2 9 = (take_bit 9 D, b3)" "reader_inv b3" "reader_bits b3 = rest"
      using rd.get_field [OF b2(2,3)] by auto
    with w9 b1 b2 that show thesis by (simp add: ts_read_D_def signextend_widths c_int_def)
  next
    case w12
    obtain b1 where b1: "brread br 1 = (1, b1)" "reader_inv b1"
        "reader_bits b1 = True # False # msb_bits 12 D @ rest"
      using rd.get_bit [OF br(1) w12(3)] by auto
    obtain b2 where b2: "brread b1 1 = (1, b2)" "reader_inv b2"
        "reader_bits b2 = False # msb_bits 12 D @ rest"
      using rd.get_bit [OF b1(2,3)] by auto
    obtain b3 where b3: "brread b2 1 = (0, b3)" "reader_inv b3" "reader_bits b3 = msb_bits 12 D @ rest"
      using rd.get_bit [OF b2(2,3)] by auto
    obtain b4 where "brread b3 12 = (take_bit 12 D, b4)" "reader_inv b4" "reader_bits b4 = rest"
      using rd.get_field [OF b3(2,3)] by auto
    with w12 b1 b2 b3 that show thesis by (simp add: ts_read_D_def signextend_widths c_int_def)
  next
    case w32
    obtain b1 where b1: "brread br 1 = (1, b1)" "reader_inv b1"
        "reader_bits b1 = True # True # msb_bits 32 D @ rest"
      using rd.get_bit [OF br(1) w32] by auto
    obtain b2 where b2: "brread b1 1 = (1, b2)" "reader_inv b2"
        "reader_bits b2 = True # msb_bits 32 D @ rest"
      using rd.get_bit [OF b1(2,3)] by auto
    obtain b3 where b3: "brread b2 1 = (1, b3)" "reader_inv b3" "reader_bits b3 = msb_bits 32 D @ rest"
      using rd.get_bit [OF b2(2,3)] by auto
    obtain b4 where "brread b3 32 = (take_bit 32 D, b4)" "reader_inv b4" "reader_bits b4 = rest"
      using rd.get_field [OF b3(2,3)] by auto
    with D b1 b2 b3 that show thesis by (simp add: ts_read_D_def signextend_widths c_int_def)
  qed
qed

lemma ts_D_code_Cons: "\<exists>bs. ts_D_code D = True # bs"
  by (simp add: ts_D_code_def)

lemma tsdecoderread_code:
  assumes sync: "ts_sync e d" and fits: "ts_fits e t"
    and br: "reader_inv br" "reader_bits br = ts_code e t @ rest"
  shows "\<exists>d' br'. tsdecoderread d br = (t, d', br') \<and> ts_sync (ts_next e t) d' \<and>
                  reader_inv br' \<and> reader_bits br' = rest"
proof -
  consider (first) "te_isfirst e" | (second) "\<not> te_isfirst e" "te_issecond e"
    | (same) "\<not> te_isfirst e" "\<not> te_issecond e" "ts_D e t = 0"
    | (change) "\<not> te_isfirst e" "\<not> te_issecond e" "ts_D e t \<noteq> 0" by blast
  then show ?thesis
  proof cases
    case first
    with br have "reader_bits br = msb_bits 64 t @ rest" by (simp add: ts_code_def)
    from rd.get_field [OF br(1) this] obtain b1 where
      "brread br 64 = (t, b1)" "reader_inv b1" "reader_bits b1 = rest" by auto
    with first sync show ?thesis by (simp add: tsdecoderread_def ts_sync_def ts_next_def)
  next
    case second
    with br have "reader_bits br = msb_bits 14 (ts_delta e t) @ rest" by (simp add: ts_code_def)
    from rd.get_field [OF br(1) this] obtain b1 where
      "brread br 14 = (take_bit 14 (ts_delta e t), b1)" "reader_inv b1" "reader_bits b1 = rest" by auto
    with second sync fits show ?thesis
      by (simp add: tsdecoderread_def ts_sync_def ts_next_def ts_fits_def signextend_widths)
        (simp add: ts_delta_def)
  next
    case same
    with br have "reader_bits br = False # rest" by (simp add: ts_code_def)
    from rd.get_bit [OF br(1) this] obtain b1 where
      "brread br 1 = (0, b1)" "reader_inv b1" "reader_bits b1 = rest" by auto
    moreover from same have "t = te_prevtimestamp e + te_prevdelta e"
      by (simp add: ts_D_def ts_delta_def algebra_simps)
    ultimately show ?thesis using same sync
      by (simp add: tsdecoderread_def ts_sync_def ts_next_def ts_delta_def c_int_def Let_def)
  next
    case change
    with br have bits: "reader_bits br = ts_D_code (ts_D e t) @ rest" by (simp add: ts_code_def)
    then obtain bs where "reader_bits br = True # bs" using ts_D_code_Cons [of "ts_D e t"] by auto
    from rd.get_bit [OF br(1) this] obtain b1 where
      b1: "brread br 1 = (1, b1)" "reader_inv b1" "True # reader_bits b1 = ts_D_code (ts_D e t) @ rest"
      using bits \<open>reader_bits br = True # bs\<close> by auto
    from change fits have "- (2 ^ 31) \<le> sint (ts_D e t)" "sint (ts_D e t) < 2 ^ 31"
      by (auto simp: ts_fits_def)
    from ts_read_D_code [OF this b1(2,3)] obtain b2 where
      "ts_read_D b1 = (ts_D e t, b2)" "reader_inv b2" "reader_bits b2 = rest" by blast
    with change sync b1(1) show ?thesis
      by (simp add: tsdecoderread_def ts_sync_def ts_next_def c_int_def)
        (simp add: ts_D_def ts_delta_def)
  qed
qed

lemma ts_sync_next: "ts_sync e d \<Longrightarrow> \<exists>d'. ts_sync (ts_next e t) d'"
  by (rule exI [of _ "\<lparr>td_prevtimestamp = te_prevtimestamp (ts_next e t),
        td_prevdelta = te_prevdelta (ts_next e t), td_isfirst = te_isfirst (ts_next e t),
        td_issecond = te_issecond (ts_next e t)\<rparr>"]) (simp add: ts_sync_def)

interpretation ts: stream_codec tsencoderwrite ts_next ts_code ts_fits id tsdecoderread ts_sync
  by unfold_locales
    (simp_all add: tsencoderwrite_state tsencoderwrite_bits ts_sync_next tsdecoderread_code)

section \<open>Properties\<close>

text \<open>The timestamps a stream decodes to after it was encoded into a fresh writer.\<close>

definition ts_encode :: "u64 list \<Rightarrow> bytebuffer" where
  "ts_encode ts = bw_buffer (bwclose (snd (encode_all tsencoderwrite tsencoderinit bwcreate ts)))"

definition ts_decode :: "nat \<Rightarrow> bytebuffer \<Rightarrow> u64 list" where
  "ts_decode n buf = fst (decode_all tsdecoderread n tsdecoderinit (brcreate buf))"

text \<open>C12: a stream of timestamps whose first gap fits 14 signed bits, and whose later gaps
  change by at most 32 signed bits, decodes to exactly the timestamps that were encoded.\<close>

theorem timestamp_roundtrip:
  assumes "all_fit ts_fits ts_next tsencoderinit ts"
  shows "ts_decode (length ts) (ts_encode ts) = ts"
  using ts.stream_roundtrip [OF ts_sync_init assms]
  by (simp add: ts_encode_def ts_decode_def)

theorem timestamp_roundtrip_witness:
  "ts_decode 5 (ts_encode [1728000000, 1728000010, 1728000010, 1728005000, 1728000000]) =
     [1728000000, 1728000010, 1728000010, 1728005000, 1728000000]"
proof -
  have "all_fit ts_fits ts_next tsencoderinit
          [1728000000, 1728000010, 1728000010, 1728005000, 1728000000]"
    by (simp add: ts_code_defs tsencoderinit_def)
  from timestamp_roundtrip [OF this] show ?thesis by (simp add: eval_nat_numeral)
qed

text \<open>Sign extension of a truncated value lands in the signed range of the width.\<close>

lemma signextend_signed_take_bit:
  assumes "n < 63"
  shows "signextend (take_bit (Suc n) w) (int (Suc n)) = signed_take_bit n w"
proof -
  have sint: "sint (signed_take_bit n w) = signed_take_bit n (sint w)"
    using assms by (intro bit_eqI) (auto simp: bit_sint_iff bit_signed_take_bit_iff min_def)
  have "take_bit (Suc n) (signed_take_bit n w) = take_bit (Suc n) w"
    by (rule bit_word_eqI) (auto simp: bit_simps less_Suc_eq_le min_def)
  with signextend_take_bit [of n "signed_take_bit n w"] assms show ?thesis
    by (simp add: sint)
qed

lemma signextend_range:
  assumes "n < 63"
  shows "- (2 ^ n) \<le> sint (signextend (take_bit (Suc n) w) (int (Suc n)))"
    and "sint (signextend (take_bit (Suc n) w) (int (Suc n))) < 2 ^ n"
proof -
  have "sint (signed_take_bit n w) = signed_take_bit n (sint w)"
    using assms by (intro bit_eqI) (auto simp: bit_sint_iff bit_signed_take_bit_iff min_def)
  then show "- (2 ^ n) \<le> sint (signextend (take_bit (Suc n) w) (int (Suc n)))"
    and "sint (signextend (take_bit (Suc n) w) (int (Suc n))) < 2 ^ n"
    using assms by (simp_all only: signextend_signed_take_bit signed_take_bit_int_less_exp
        signed_take_bit_int_greater_eq_minus_exp)
qed

lemma ts_decode_two:
  "ts_decode 2 (ts_encode [t0, t1]) = [t0, t0 + signextend (take_bit 14 (t1 - t0)) 14]"
proof -
  let ?bw = "snd (encode_all tsencoderwrite tsencoderinit bwcreate [t0, t1])"
  note enc = ts.encode_all_correct [OF writer_inv_create ts_sync_init, of "[t0, t1]"]
  have inv: "reader_inv (brcreate (ts_encode [t0, t1]))"
    using enc by (simp add: ts_encode_def reader_inv_closed inv_intros)
  have "reader_bits (brcreate (ts_encode [t0, t1])) =
      msb_bits 64 t0 @ msb_bits 14 (t1 - t0) @ replicate (nat (- filledbits ?bw mod 8)) False"
    using enc by (simp add: ts_encode_def codec_simps ts_code_defs tsencoderinit_def)
  from rd.get_field [OF inv this] obtain b1 where b1:
    "brread (brcreate (ts_encode [t0, t1])) 64 = (t0, b1)" "reader_inv b1"
    "reader_bits b1 = msb_bits 14 (t1 - t0) @ replicate (nat (- filledbits ?bw mod 8)) False" by auto
  from rd.get_field [OF b1(2,3)] obtain b2 where
    "brread b1 14 = (take_bit 14 (t1 - t0), b2)" by auto
  with b1(1) show ?thesis
    by (simp add: ts_decode_def tsdecoderread_def tsdecoderinit_def numeral_2_eq_2 Let_def)
qed

text \<open>the second timestamp of a stream survives exactly when its gap to the first fits
  14 signed bits. A gap of 8192 seconds or more, which the encoder accepts without a test,
  comes back as a different timestamp.\<close>

theorem timestamp_first_gap_limit:
  "ts_decode 2 (ts_encode [t0, t1]) = [t0, t1] \<longleftrightarrow>
     -8192 \<le> sint (t1 - t0) \<and> sint (t1 - t0) < 8192"
proof
  assume "ts_decode 2 (ts_encode [t0, t1]) = [t0, t1]"
  then have "t0 + signextend (take_bit 14 (t1 - t0)) 14 = t1"
    by (simp add: ts_decode_two)
  then have "signextend (take_bit 14 (t1 - t0)) 14 = t1 - t0"
    by (simp add: algebra_simps)
  with signextend_range [of 13 "t1 - t0"] show "-8192 \<le> sint (t1 - t0) \<and> sint (t1 - t0) < 8192"
    by simp
next
  assume "-8192 \<le> sint (t1 - t0) \<and> sint (t1 - t0) < 8192"
  then show "ts_decode 2 (ts_encode [t0, t1]) = [t0, t1]"
    by (simp add: ts_decode_two signextend_widths)
qed

end
