(* ===== verification/C_Double.thy ===== *)
theory C_Double
  imports Prelude
begin

text \<open>
  The C type \<open>double\<close>: an IEEE 754 binary64 value, kept as its bit pattern, which is what
  \<^verbatim>\<open>memcpy\<close> between a \<open>double\<close> and a \<open>uint64_t\<close> sees, with the arithmetic the engine
  uses: addition, division, comparison and conversion from \<open>int\<close>, all rounding to nearest
  with ties to even. A finite value is \<open>(-1)^s * m * 2^e\<close> with integers \<open>m\<close>, \<open>e\<close>; each
  operation computes the exact result and rounds it once. NaN operands are passed on quieted,
  the first one first, and an invalid operation gives the default NaN of the x86-64 target.
\<close>

datatype cdouble = CDouble (dbits: u64)

section \<open>Fields and classes\<close>

definition d_neg :: "cdouble \<Rightarrow> bool" where
  "d_neg d = bit (dbits d) 63"

definition d_exp :: "cdouble \<Rightarrow> int" where
  "d_exp d = uint (dbits d) div 2 ^ 52 mod 2 ^ 11"

definition d_frac :: "cdouble \<Rightarrow> int" where
  "d_frac d = uint (dbits d) mod 2 ^ 52"

definition is_nan :: "cdouble \<Rightarrow> bool" where
  "is_nan d \<longleftrightarrow> d_exp d = 2047 \<and> d_frac d \<noteq> 0"

definition is_inf :: "cdouble \<Rightarrow> bool" where
  "is_inf d \<longleftrightarrow> d_exp d = 2047 \<and> d_frac d = 0"

definition is_finite :: "cdouble \<Rightarrow> bool" where
  "is_finite d \<longleftrightarrow> d_exp d \<noteq> 2047"

definition d_mant :: "cdouble \<Rightarrow> int" where
  "d_mant d = (if d_exp d = 0 then d_frac d else d_frac d + 2 ^ 52)"

definition d_scale :: "cdouble \<Rightarrow> int" where
  "d_scale d = (if d_exp d = 0 then -1074 else d_exp d - 1075)"

definition d_signed :: "cdouble \<Rightarrow> int" where
  "d_signed d = (if d_neg d then - d_mant d else d_mant d)"

section \<open>Rounding\<close>

function bitlen :: "int \<Rightarrow> int" where
  "bitlen n = (if n \<le> 0 then 0 else 1 + bitlen (n div 2))"
  by pat_completeness auto
termination
  by (relation "measure nat") auto

declare bitlen.simps [simp del]

text \<open>The quotient of two integers rounded to nearest, ties to even.\<close>

definition div_half_even :: "int \<Rightarrow> int \<Rightarrow> int" where
  "div_half_even n d =
     (let q = n div d; r = n mod d
      in if 2 * r < d \<or> (2 * r = d \<and> even q) then q else q + 1)"

text \<open>The pattern of \<open>(-1)^neg * n * 2^e\<close>, rounded, for \<open>n \<ge> 0\<close>.\<close>

definition d_magnitude :: "int \<Rightarrow> int \<Rightarrow> int" where
  "d_magnitude n e =
     (if n = 0 then 0
      else
        let ex = max (bitlen n - 53 + e) (-1074);
            q = (if ex \<le> e then n * 2 ^ nat (e - ex) else div_half_even n (2 ^ nat (ex - e)))
        in min ((ex + 1074) * 2 ^ 52 + q) (2047 * 2 ^ 52))"

definition d_round :: "bool \<Rightarrow> int \<Rightarrow> int \<Rightarrow> cdouble" where
  "d_round neg n e = CDouble (of_int (d_magnitude n e + (if neg then 2 ^ 63 else 0)))"

definition d_inf :: "bool \<Rightarrow> cdouble" where
  "d_inf neg = CDouble (if neg then 0xFFF0000000000000 else 0x7FF0000000000000)"

definition d_nan :: cdouble where
  "d_nan = CDouble 0xFFF8000000000000"

definition d_quiet :: "cdouble \<Rightarrow> cdouble" where
  "d_quiet d = CDouble (dbits d OR 0x0008000000000000)"

section \<open>Arithmetic\<close>

definition d_of_int :: "int \<Rightarrow> cdouble" where
  "d_of_int n = d_round (n < 0) \<bar>n\<bar> 0"

definition d_add :: "cdouble \<Rightarrow> cdouble \<Rightarrow> cdouble" where
  "d_add a b =
     (if is_nan a then d_quiet a
      else if is_nan b then d_quiet b
      else if is_inf a then (if is_inf b \<and> d_neg a \<noteq> d_neg b then d_nan else a)
      else if is_inf b then b
      else
        let e = min (d_scale a) (d_scale b);
            s = d_signed a * 2 ^ nat (d_scale a - e) + d_signed b * 2 ^ nat (d_scale b - e)
        in if s = 0 then d_round (d_neg a \<and> d_neg b) 0 0 else d_round (s < 0) \<bar>s\<bar> e)"

text \<open>The quotient keeps a sticky bit below at least 55 exact bits, so that one rounding is right.\<close>

definition d_div :: "cdouble \<Rightarrow> cdouble \<Rightarrow> cdouble" where
  "d_div a b =
     (let neg = (d_neg a \<noteq> d_neg b) in
      if is_nan a then d_quiet a
      else if is_nan b then d_quiet b
      else if is_inf a then (if is_inf b then d_nan else d_inf neg)
      else if is_inf b then d_round neg 0 0
      else if d_mant b = 0 then (if d_mant a = 0 then d_nan else d_inf neg)
      else
        let k = 56 + bitlen (d_mant b);
            num = d_mant a * 2 ^ nat k;
            q = 2 * (num div d_mant b) + (if num mod d_mant b = 0 then 0 else 1)
        in d_round neg q (d_scale a - d_scale b - k - 1))"

text \<open>Patterns of numbers order like sign and magnitude; a NaN compares as false.\<close>

definition d_key :: "cdouble \<Rightarrow> int" where
  "d_key d = (if d_neg d then - (uint (dbits d) - 2 ^ 63) else uint (dbits d))"

instantiation cdouble :: ord
begin

definition less_eq_cdouble :: "cdouble \<Rightarrow> cdouble \<Rightarrow> bool" where
  "a \<le> b \<longleftrightarrow> \<not> is_nan a \<and> \<not> is_nan b \<and> d_key a \<le> d_key b"

definition less_cdouble :: "cdouble \<Rightarrow> cdouble \<Rightarrow> bool" where
  "a < b \<longleftrightarrow> \<not> is_nan a \<and> \<not> is_nan b \<and> d_key a < d_key b"

instance ..

end

instantiation cdouble :: "{zero, plus}"
begin

definition zero_cdouble :: cdouble where
  "0 = CDouble 0"

definition plus_cdouble :: "cdouble \<Rightarrow> cdouble \<Rightarrow> cdouble" where
  "a + b = d_add a b"

instance ..

end

end
