(* ===== verification/Value.thy ===== *)
theory Value
  imports Codec C_Double
begin

text \<open>
  The XOR value codec of \<^verbatim>\<open>src/value.c\<close>. Each value is masked to a multiple of 16 in its
  bit pattern, XORed with the previous one, and the XOR is written either as one zero bit,
  as its bits inside the previous leading/trailing window, or with a new window.

  The compiler builtins \<open>__builtin_clzll\<close> and \<open>__builtin_ctzll\<close> count the zero bits above
  the highest and below the lowest set bit of a non-zero argument, the only one they get.
\<close>

section \<open>State and operations\<close>

record valueencoder =
  ve_prevvaluebits :: u64
  ve_prevleading :: int
  ve_prevtrailing :: int
  ve_isfirst :: bool

record valuedecoder =
  vd_prevvaluebits :: u64
  vd_prevleading :: int
  vd_prevtrailing :: int
  vd_isfirst :: bool

definition doubletobits :: "cdouble \<Rightarrow> u64" where
  "doubletobits d = dbits d"

definition bitstodouble :: "u64 \<Rightarrow> cdouble" where
  "bitstodouble b = CDouble b"

definition clzll :: "u64 \<Rightarrow> int" where
  "clzll w = int (length (takeWhile Not (msb_bits 64 w)))"

definition ctzll :: "u64 \<Rightarrow> int" where
  "ctzll w = int (length (takeWhile Not (rev (msb_bits 64 w))))"

definition valencoderinit :: valueencoder where
  "valencoderinit =
     \<lparr>ve_prevvaluebits = 0, ve_prevleading = 0, ve_prevtrailing = 0, ve_isfirst = True\<rparr>"

definition valencoderwrite ::
    "valueencoder \<Rightarrow> bitwriter \<Rightarrow> cdouble \<Rightarrow> valueencoder \<times> bitwriter" where
  "valencoderwrite e bw value =
     (let valbits = doubletobits value;
          valbits = valbits AND 0xFFFFFFFFFFFFFFF0
      in if ve_isfirst e then
           (e\<lparr>ve_prevvaluebits := valbits, ve_isfirst := False\<rparr>, bwwrite bw valbits 64)
         else
           let xorval = valbits XOR ve_prevvaluebits e;
               (e, bw) =
                 (if xorval = 0 then (e, bwwrite bw 0 1)
                  else
                    let leading = clzll xorval;
                        trailing = ctzll xorval;
                        leading = (if leading > 31 then 31 else leading)
                    in if leading \<ge> ve_prevleading e \<and> trailing \<ge> ve_prevtrailing e then
                         let bw = bwwrite bw 0x02 2;
                             nmeaningful = 64 - ve_prevleading e - ve_prevtrailing e;
                             meaningfulbits = drop_bit (nat (ve_prevtrailing e)) xorval
                         in (e, bwwrite bw meaningfulbits nmeaningful)
                       else
                         let bw = bwwrite bw 0x03 2;
                             nmeaningful = 64 - leading - trailing;
                             bw = bwwrite bw (of_int leading) 5;
                             bw = bwwrite bw (of_int (nmeaningful AND 0x3F)) 6;
                             meaningfulbits = drop_bit (nat trailing) xorval;
                             bw = bwwrite bw meaningfulbits nmeaningful
                         in (e\<lparr>ve_prevleading := leading, ve_prevtrailing := trailing\<rparr>, bw))
           in (e\<lparr>ve_prevvaluebits := valbits\<rparr>, bw))"

definition valdecoderinit :: valuedecoder where
  "valdecoderinit =
     \<lparr>vd_prevvaluebits = 0, vd_prevleading = 0, vd_prevtrailing = 0, vd_isfirst = True\<rparr>"

text \<open>The branches on the second control bit, which rebuild the XOR inside a window.\<close>

definition val_read_window :: "valuedecoder \<Rightarrow> bitreader \<Rightarrow> u64 \<times> valuedecoder \<times> bitreader" where
  "val_read_window d br =
     (let (bit1, br) = brread br 1 in
      if c_int bit1 = 0 then
        let nmeaningful = 64 - vd_prevleading d - vd_prevtrailing d;
            (meaningfulbits, br) = brread br nmeaningful
        in (push_bit (nat (vd_prevtrailing d)) meaningfulbits, d, br)
      else
        let (leading, br) = brread br 5; leading = c_int leading;
            (nmeaningful, br) = brread br 6; nmeaningful = c_int nmeaningful;
            nmeaningful = (if nmeaningful = 0 then 64 else nmeaningful);
            trailing = 64 - leading - nmeaningful;
            (meaningfulbits, br) = brread br nmeaningful
        in (push_bit (nat trailing) meaningfulbits,
            d\<lparr>vd_prevleading := leading, vd_prevtrailing := trailing\<rparr>, br))"

definition valdecoderread ::
    "valuedecoder \<Rightarrow> bitreader \<Rightarrow> cdouble \<times> valuedecoder \<times> bitreader" where
  "valdecoderread d br =
     (if vd_isfirst d then
        let (valbits, br) = brread br 64;
            valbits = valbits AND 0xFFFFFFFFFFFFFFF0
        in (bitstodouble valbits, d\<lparr>vd_prevvaluebits := valbits, vd_isfirst := False\<rparr>, br)
      else
        let (bit0, br) = brread br 1;
            (xorval, d, br) = (if c_int bit0 = 0 then (0, d, br) else val_read_window d br);
            valbits = vd_prevvaluebits d XOR xorval
        in (bitstodouble valbits, d\<lparr>vd_prevvaluebits := valbits\<rparr>, br))"

section \<open>Counting zeros\<close>

lemma takeWhile_Not_nth:
  assumes "i < length (takeWhile Not bs)"
  shows "\<not> bs ! i"
  using assms by (metis nth_mem set_takeWhileD takeWhile_nth)

lemma takeWhile_Not_end:
  "True \<in> set bs \<Longrightarrow>
     length (takeWhile Not bs) < length bs \<and> bs ! length (takeWhile Not bs)"
  by (induction bs) auto

lemma nonzero_bits: "(w :: u64) \<noteq> 0 \<Longrightarrow> True \<in> set (msb_bits 64 w)"
proof -
  assume "w \<noteq> 0"
  then obtain i where "bit w i" "i < 64"
    by (metis bit_eqI bit_0_eq bit_imp_le_length bot_apply bot_bool_def len_num0 len_bit0 len_num1
        mult.right_neutral numeral_Bit0_eq_double numeral_One)
  then show ?thesis by (auto simp: msb_bits_def image_iff intro!: bexI [of _ i])
qed

lemma clzll_bounds: "0 \<le> clzll w"
  by (simp add: clzll_def)

lemma ctzll_bounds: "0 \<le> ctzll w"
  by (simp add: ctzll_def)

lemma clzll_clear:
  assumes "64 - nat (clzll w) \<le> i" shows "\<not> bit w i"
proof (cases "i < 64")
  case True
  with assms have "63 - i < length (takeWhile Not (msb_bits 64 w))"
    by (simp add: clzll_def)
  from takeWhile_Not_nth [OF this] True show ?thesis by simp
next
  case False
  then show ?thesis by (auto dest: bit_imp_le_length)
qed

lemma ctzll_clear: 
  assumes "i < nat (ctzll w)" shows "\<not> bit w i"
proof (cases "i < 64")
  case True
  with assms takeWhile_Not_nth [of i "rev (msb_bits 64 w)"] show ?thesis
    by (simp add: ctzll_def rev_nth)
next
  case False
  then show ?thesis by (auto dest: bit_imp_le_length)
qed

lemma ctzll_set: "w \<noteq> 0 \<Longrightarrow> bit w (nat (ctzll w))"
proof -
  assume "w \<noteq> 0"
  then have "True \<in> set (rev (msb_bits 64 w))" by (simp add: nonzero_bits)
  from takeWhile_Not_end [OF this]
  have len: "nat (ctzll w) < 64" and at: "rev (msb_bits 64 w) ! nat (ctzll w)"
    by (simp_all add: ctzll_def)
  from len have "rev (msb_bits 64 w) ! nat (ctzll w) = bit w (nat (ctzll w))"
    by (simp add: rev_nth)
  with at show ?thesis by simp
qed

lemma clz_ctz_sum: "w \<noteq> 0 \<Longrightarrow> clzll w + ctzll w \<le> 63"
  using clzll_clear [of w "nat (ctzll w)"] ctzll_set [of w] clzll_bounds [of w] ctzll_bounds [of w]
  by linarith

text \<open>The bits of a window between leading and trailing zeros restore the word.\<close>

lemma window_restores:
  fixes x :: u64
  assumes l: "l \<le> nat (clzll x)" and t: "t \<le> nat (ctzll x)"
  shows "push_bit t (take_bit (64 - l - t) (drop_bit t x)) = x"
proof (rule bit_word_eqI)
  fix i assume i: "i < LENGTH(64)"
  consider "i < t" | "t \<le> i" "64 - l \<le> i" | "t \<le> i" "i < 64 - l" by linarith
  then show "bit (push_bit t (take_bit (64 - l - t) (drop_bit t x))) i = bit x i"
  proof cases
    case 1
    with t ctzll_clear [of i x] show ?thesis by (simp add: bit_simps)
  next
    case 2
    with l have "64 - nat (clzll x) \<le> i" by linarith
    with 2 clzll_clear show ?thesis by (simp add: bit_simps)
  next
    case 3
    then have "i - t < 64 - l - t" by linarith
    with 3 i show ?thesis by (simp add: bit_simps)
  qed
qed

section \<open>The code of one value\<close>

definition val_mask :: "u64 \<Rightarrow> u64" where
  "val_mask b = b AND 0xFFFFFFFFFFFFFFF0"

text \<open>What the decoder returns for an encoded value: its pattern with the low four bits cleared.\<close>

definition val_image :: "cdouble \<Rightarrow> cdouble" where
  "val_image d = bitstodouble (val_mask (doubletobits d))"

definition val_xor :: "valueencoder \<Rightarrow> cdouble \<Rightarrow> u64" where
  "val_xor e v = val_mask (doubletobits v) XOR ve_prevvaluebits e"

definition val_leading :: "u64 \<Rightarrow> int" where
  "val_leading x = (if clzll x > 31 then 31 else clzll x)"

definition val_reuses :: "valueencoder \<Rightarrow> u64 \<Rightarrow> bool" where
  "val_reuses e x \<longleftrightarrow> val_leading x \<ge> ve_prevleading e \<and> ctzll x \<ge> ve_prevtrailing e"

definition val_next :: "valueencoder \<Rightarrow> cdouble \<Rightarrow> valueencoder" where
  "val_next e v =
     (let e' = e\<lparr>ve_prevvaluebits := val_mask (doubletobits v), ve_isfirst := False\<rparr>; x = val_xor e v
      in if ve_isfirst e \<or> x = 0 \<or> val_reuses e x then e'
         else e'\<lparr>ve_prevleading := val_leading x, ve_prevtrailing := ctzll x\<rparr>)"

definition val_code :: "valueencoder \<Rightarrow> cdouble \<Rightarrow> bool list" where
  "val_code e v =
     (let x = val_xor e v in
      if ve_isfirst e then msb_bits 64 (val_mask (doubletobits v))
      else if x = 0 then [False]
      else if val_reuses e x
      then [True, False] @
           msb_bits (nat (64 - ve_prevleading e - ve_prevtrailing e))
             (drop_bit (nat (ve_prevtrailing e)) x)
      else [True, True] @ msb_bits 5 (of_int (val_leading x) :: u64) @
           msb_bits 6 (of_int ((64 - val_leading x - ctzll x) AND 0x3F) :: u64) @
           msb_bits (nat (64 - val_leading x - ctzll x)) (drop_bit (nat (ctzll x)) x))"

text \<open>The window the codec keeps is inside the word, on both sides.\<close>

definition window_inv :: "int \<Rightarrow> int \<Rightarrow> bool" where
  "window_inv l t \<longleftrightarrow> 0 \<le> l \<and> l \<le> 31 \<and> 0 \<le> t \<and> l + t \<le> 63"

definition val_sync :: "valueencoder \<Rightarrow> valuedecoder \<Rightarrow> bool" where
  "val_sync e d \<longleftrightarrow>
     vd_prevvaluebits d = ve_prevvaluebits e \<and> vd_prevleading d = ve_prevleading e \<and>
     vd_prevtrailing d = ve_prevtrailing e \<and> vd_isfirst d = ve_isfirst e \<and>
     window_inv (ve_prevleading e) (ve_prevtrailing e)"

lemma val_sync_init: "val_sync valencoderinit valdecoderinit"
  by (simp add: val_sync_def valencoderinit_def valdecoderinit_def window_inv_def)

lemma val_leading_window: "x \<noteq> 0 \<Longrightarrow> window_inv (val_leading x) (ctzll x)"
  using clz_ctz_sum [of x] clzll_bounds [of x] ctzll_bounds [of x]
  by (auto simp: window_inv_def val_leading_def)

lemma val_prefix_bits:
  "msb_bits (Suc 0) (0 :: u64) = [False]"
  "msb_bits 2 (0x02 :: u64) = [True, False]"
  "msb_bits 2 (0x03 :: u64) = [True, True]"
  by code_simp+

lemma valencoderwrite_state: "fst (valencoderwrite e bw v) = val_next e v"
  by (auto simp: valencoderwrite_def val_next_def val_xor_def val_mask_def val_leading_def
      val_reuses_def Let_def)

lemma valencoderwrite_bits:
  assumes "writer_inv bw" and "window_inv (ve_prevleading e) (ve_prevtrailing e)"
  shows "writer_inv (snd (valencoderwrite e bw v)) \<and>
         writer_bits (snd (valencoderwrite e bw v)) = writer_bits bw @ val_code e v"
proof -
  have xor: "(doubletobits v AND 0xFFFFFFFFFFFFFFF0) XOR ve_prevvaluebits e = val_xor e v"
    by (simp add: val_xor_def val_mask_def)
  have lead: "(if clzll (val_xor e v) > 31 then 31 else clzll (val_xor e v)) = val_leading (val_xor e v)"
    by (simp add: val_leading_def)
  consider (first) "ve_isfirst e" | (zero) "\<not> ve_isfirst e" "val_xor e v = 0"
    | (reuse) "\<not> ve_isfirst e" "val_xor e v \<noteq> 0" "val_reuses e (val_xor e v)"
    | (new) "\<not> ve_isfirst e" "val_xor e v \<noteq> 0" "\<not> val_reuses e (val_xor e v)" by blast
  then show ?thesis
  proof cases
    case first
    with assms(1) show ?thesis
      by (simp add: valencoderwrite_def val_code_def Let_def writer_write_int val_mask_def)
  next
    case zero
    with assms(1) show ?thesis
      by (simp add: valencoderwrite_def val_code_def Let_def writer_write_int val_prefix_bits xor)
  next
    case reuse
    moreover from assms(2) have "0 \<le> 64 - ve_prevleading e - ve_prevtrailing e"
      by (simp add: window_inv_def)
    ultimately show ?thesis using assms(1)
      by (simp add: valencoderwrite_def val_code_def Let_def writer_write_int val_prefix_bits xor lead
          val_reuses_def)
  next
    case new
    moreover from val_leading_window [OF new(2)]
    have "0 \<le> 64 - val_leading (val_xor e v) - ctzll (val_xor e v)"
      by (simp add: window_inv_def)
    ultimately show ?thesis using assms(1)
      by (simp add: valencoderwrite_def val_code_def Let_def writer_write_int val_prefix_bits xor lead
          val_reuses_def)
  qed
qed

lemma window_inv_next:
  "window_inv (ve_prevleading e) (ve_prevtrailing e) \<Longrightarrow>
     window_inv (ve_prevleading (val_next e v)) (ve_prevtrailing (val_next e v))"
  by (auto simp: val_next_def Let_def val_leading_window)

section \<open>Decoding one value\<close>

lemma c_int_field:
  assumes "0 \<le> k" "k < 2 ^ n" "n \<le> 31"
  shows "c_int (take_bit n (of_int k)) = k"
proof -
  have "k < 2 ^ 31" using assms(2) power_increasing [OF assms(3), of "2::int"] by simp
  then have "uint (of_int k :: u64) = k"
    using assms(1) by (simp add: uint_word_of_int)
  then have "uint (take_bit n (of_int k) :: u64) = k"
    using assms by (simp add: unsigned_take_bit_eq take_bit_int_eq_self)
  with \<open>k < 2 ^ 31\<close> show ?thesis by (simp add: c_int_small)
qed

lemma count_field:
  assumes "1 \<le> n" "n \<le> 64"
  shows "(if c_int (take_bit 6 (of_int (n AND 0x3F))) = 0 then 64
          else c_int (take_bit 6 (of_int (n AND 0x3F)))) = n"
proof -
  have "n AND 0x3F = n mod 64"
    using take_bit_eq_mask [of 6 n] by (simp add: mask_eq_exp_minus_1 take_bit_eq_mod)
  moreover have "c_int (take_bit 6 (of_int (n mod 64))) = n mod 64"
    by (rule c_int_field) simp_all
  ultimately show ?thesis using assms by (cases "n = 64") auto
qed

lemma xor_restores: "prev XOR (m XOR prev) = (m :: u64)"
  by (rule bit_word_eqI) (auto simp: bit_simps)

lemma val_mask_idem: "val_mask (val_mask b) = val_mask b"
  by (simp add: val_mask_def and.assoc)

text \<open>Reading a XOR inside the window the decoder already has.\<close>

lemma val_read_window_reuse:
  assumes win: "window_inv (vd_prevleading d) (vd_prevtrailing d)"
    and fits: "vd_prevleading d \<le> clzll x" "vd_prevtrailing d \<le> ctzll x"
    and br: "reader_inv br" "reader_bits br = False #
      msb_bits (nat (64 - vd_prevleading d - vd_prevtrailing d))
        (drop_bit (nat (vd_prevtrailing d)) x) @ rest"
  obtains br' where "val_read_window d br = (x, d, br')" "reader_inv br'" "reader_bits br' = rest"
proof -
  let ?l = "vd_prevleading d" and ?t = "vd_prevtrailing d"
  let ?m = "drop_bit (nat ?t) x" and ?n = "nat (64 - ?l - ?t)"
  from rd.get_bit [OF br] obtain b1 where b1: "brread br 1 = (0, b1)" "reader_inv b1"
    "reader_bits b1 = msb_bits ?n ?m @ rest" by auto
  have range: "0 \<le> ?l" "0 \<le> ?t" "?l + ?t \<le> 63" using win by (auto simp: window_inv_def)
  with rd.get_field [OF b1(2,3)] obtain b2 where b2:
    "brread b1 (64 - ?l - ?t) = (take_bit ?n ?m, b2)" "reader_inv b2" "reader_bits b2 = rest" by auto
  have "nat ?l \<le> nat (clzll x)" "nat ?t \<le> nat (ctzll x)" using fits by auto
  from window_restores [OF this] range have "push_bit (nat ?t) (take_bit ?n ?m) = x"
    by (simp add: nat_diff_distrib)
  with b1 b2 that show thesis by (simp add: val_read_window_def c_int_def)
qed

text \<open>Reading a XOR with a new window, which the decoder takes over.\<close>

lemma val_read_window_new:
  fixes d x
  defines "l \<equiv> val_leading x" and "t \<equiv> ctzll x"
  defines "n \<equiv> 64 - l - t"
  assumes x: "x \<noteq> 0"
    and br: "reader_inv br" "reader_bits br = True # msb_bits 5 (of_int l :: u64) @
      msb_bits 6 (of_int (n AND 0x3F) :: u64) @ msb_bits (nat n) (drop_bit (nat t) x) @ rest"
  obtains br' where "val_read_window d br = (x, d\<lparr>vd_prevleading := l, vd_prevtrailing := t\<rparr>, br')"
    "reader_inv br'" "reader_bits br' = rest"
proof -
  have range: "0 \<le> l" "l \<le> 31" "0 \<le> t" "l + t \<le> 63"
    using val_leading_window [OF x] by (auto simp: window_inv_def l_def t_def)
  from rd.get_bit [OF br] obtain b1 where b1: "brread br 1 = (1, b1)" "reader_inv b1"
    "reader_bits b1 = msb_bits 5 (of_int l :: u64) @ msb_bits 6 (of_int (n AND 0x3F) :: u64) @
       msb_bits (nat n) (drop_bit (nat t) x) @ rest" by auto
  from rd.get_field [OF b1(2,3)] obtain b2 where b2: "brread b1 5 = (take_bit 5 (of_int l), b2)"
    "reader_inv b2" "reader_bits b2 = msb_bits 6 (of_int (n AND 0x3F) :: u64) @
       msb_bits (nat n) (drop_bit (nat t) x) @ rest" by auto
  from rd.get_field [OF b2(2,3)] obtain b3 where b3:
    "brread b2 6 = (take_bit 6 (of_int (n AND 0x3F)), b3)" "reader_inv b3"
    "reader_bits b3 = msb_bits (nat n) (drop_bit (nat t) x) @ rest" by auto
  from rd.get_field [OF b3(2,3)] range obtain b4 where b4:
    "brread b3 n = (take_bit (nat n) (drop_bit (nat t) x), b4)" "reader_inv b4" "reader_bits b4 = rest"
    by (auto simp: n_def)
  have fields: "c_int (take_bit 5 (of_int l)) = l" "64 - l - n = t"
    "(if c_int (take_bit 6 (of_int (n AND 0x3F))) = 0 then 64
      else c_int (take_bit 6 (of_int (n AND 0x3F)))) = n"
    using range c_int_field [of l 5] count_field [of n] by (simp_all add: n_def)
  have "nat l \<le> nat (clzll x)" by (auto simp: l_def val_leading_def)
  from window_restores [OF this, of "nat t"] range
  have "push_bit (nat t) (take_bit (nat n) (drop_bit (nat t) x)) = x"
    by (simp add: n_def nat_diff_distrib t_def)
  with b4 that show thesis
    by (simp add: val_read_window_def b1 b2 b3 b4 fields Let_def c_int_def [of 1])
qed

lemma valdecoderread_first:
  assumes "val_sync e d" "ve_isfirst e" and br: "reader_inv br" "reader_bits br = val_code e v @ rest"
  shows "\<exists>d' br'. valdecoderread d br = (val_image v, d', br') \<and> val_sync (val_next e v) d' \<and>
                  reader_inv br' \<and> reader_bits br' = rest"
proof -
  from assms have "reader_bits br = msb_bits 64 (val_mask (doubletobits v)) @ rest"
    by (simp add: val_code_def Let_def)
  from rd.get_field [OF br(1) this] obtain b1 where
    "brread br 64 = (val_mask (doubletobits v), b1)" "reader_inv b1" "reader_bits b1 = rest" by auto
  with assms val_mask_idem [of "doubletobits v"] show ?thesis
    by (auto simp: valdecoderread_def val_sync_def val_next_def val_image_def Let_def
        simp flip: val_mask_def)
qed

lemma valdecoderread_code:
  assumes sync: "val_sync e d" and br: "reader_inv br" "reader_bits br = val_code e v @ rest"
  shows "\<exists>d' br'. valdecoderread d br = (val_image v, d', br') \<and> val_sync (val_next e v) d' \<and>
                  reader_inv br' \<and> reader_bits br' = rest"
proof -
  define x where "x = val_xor e v"
  have out: "bitstodouble (ve_prevvaluebits e XOR x) = val_image v"
    "ve_prevvaluebits e XOR x = val_mask (doubletobits v)"
    by (simp_all add: x_def val_xor_def val_image_def xor_restores)
  have win: "window_inv (ve_prevleading (val_next e v)) (ve_prevtrailing (val_next e v))"
    using sync by (auto simp: val_sync_def intro: window_inv_next)
  note sims = valdecoderread_def val_sync_def val_next_def c_int_def Let_def
  consider (first) "ve_isfirst e" | (zero) "\<not> ve_isfirst e" "x = 0"
    | (reuse) "\<not> ve_isfirst e" "x \<noteq> 0" "val_reuses e x"
    | (new) "\<not> ve_isfirst e" "x \<noteq> 0" "\<not> val_reuses e x" by blast
  then show ?thesis
  proof cases
    case first
    with sync br show ?thesis by (intro valdecoderread_first)
  next
    case zero
    with br have "reader_bits br = False # rest" by (simp add: val_code_def x_def)
    from rd.get_bit [OF br(1) this] obtain b1 where
      "brread br 1 = (0, b1)" "reader_inv b1" "reader_bits b1 = rest" by auto
    with zero sync win out show ?thesis by (auto simp: sims simp flip: x_def)
  next
    case reuse
    then have fits: "vd_prevleading d \<le> clzll x" "vd_prevtrailing d \<le> ctzll x"
      using sync by (auto simp: val_sync_def val_reuses_def val_leading_def split: if_splits)
    from reuse br sync obtain b1 where b1: "brread br 1 = (1, b1)" "reader_inv b1"
      "reader_bits b1 = False # msb_bits (nat (64 - vd_prevleading d - vd_prevtrailing d))
         (drop_bit (nat (vd_prevtrailing d)) x) @ rest"
      using rd.get_bit [OF br(1)] by (auto simp: val_code_def val_sync_def Let_def simp flip: x_def)
    from sync have "window_inv (vd_prevleading d) (vd_prevtrailing d)" by (simp add: val_sync_def)
    from val_read_window_reuse [OF this fits b1(2,3)] obtain b2 where
      "val_read_window d b1 = (x, d, b2)" "reader_inv b2" "reader_bits b2 = rest" by blast
    with reuse sync win out b1(1) show ?thesis by (auto simp: sims simp flip: x_def)
  next
    case new
    from new br obtain b1 where b1: "brread br 1 = (1, b1)" "reader_inv b1"
      "reader_bits b1 = True # msb_bits 5 (of_int (val_leading x) :: u64) @
        msb_bits 6 (of_int ((64 - val_leading x - ctzll x) AND 0x3F) :: u64) @
        msb_bits (nat (64 - val_leading x - ctzll x)) (drop_bit (nat (ctzll x)) x) @ rest"
      using rd.get_bit [OF br(1)] by (auto simp: val_code_def Let_def simp flip: x_def)
    from val_read_window_new [OF new(2) b1(2,3)] obtain b2 where
      "val_read_window d b1 = (x, d\<lparr>vd_prevleading := val_leading x, vd_prevtrailing := ctzll x\<rparr>, b2)"
      "reader_inv b2" "reader_bits b2 = rest" by blast
    with new sync win out b1(1) show ?thesis by (auto simp: sims simp flip: x_def)
  qed
qed

lemma val_sync_next: "val_sync e d \<Longrightarrow> \<exists>d'. val_sync (val_next e v) d'"
  by (rule exI [of _ "\<lparr>vd_prevvaluebits = ve_prevvaluebits (val_next e v),
        vd_prevleading = ve_prevleading (val_next e v),
        vd_prevtrailing = ve_prevtrailing (val_next e v),
        vd_isfirst = ve_isfirst (val_next e v)\<rparr>"])
    (auto simp: val_sync_def intro: window_inv_next)

lemma val_sync_window: "val_sync e d \<Longrightarrow> window_inv (ve_prevleading e) (ve_prevtrailing e)"
  by (simp add: val_sync_def)

interpretation vc: stream_codec valencoderwrite val_next val_code "\<lambda>_ _. True" val_image
    valdecoderread val_sync
  by unfold_locales
    (simp_all add: valencoderwrite_state valencoderwrite_bits val_sync_window val_sync_next
      valdecoderread_code)

section \<open>Properties\<close>

definition val_encode :: "cdouble list \<Rightarrow> bytebuffer" where
  "val_encode vs = bw_buffer (bwclose (snd (encode_all valencoderwrite valencoderinit bwcreate vs)))"

definition val_decode :: "nat \<Rightarrow> bytebuffer \<Rightarrow> cdouble list" where
  "val_decode n buf = fst (decode_all valdecoderread n valdecoderinit (brcreate buf))"

lemma all_fit_True [simp]: "all_fit (\<lambda>_ _. True) nxt e vs"
  by (induction vs arbitrary: e) auto

lemma val_mask_mod: "uint (val_mask b) = uint b - uint b mod 16"
proof -
  have eq: "(0xFFFFFFFFFFFFFFF0 :: u64) = NOT (mask 4)"
    by (simp add: mask_eq_exp_minus_1)
  have "b AND NOT (mask 4) = push_bit 4 (drop_bit 4 b)"
    by (rule bit_word_eqI) (auto simp: bit_simps)
  then have "val_mask b = push_bit 4 (drop_bit 4 b)"
    by (simp only: val_mask_def eq)
  moreover have "uint (push_bit 4 (drop_bit 4 b)) = push_bit 4 (drop_bit 4 (uint b))"
    by (rule bit_eqI) (auto simp: bit_simps dest: bit_imp_le_length)
  ultimately have "uint (val_mask b) = uint b div 16 * 16"
    by (simp only: push_bit_eq_mult drop_bit_eq_div) simp
  then show ?thesis by (simp add: minus_mod_eq_div_mult)
qed


end
