(* ===== verification/Disk.thy ===== *)
theory Disk
  imports Prelude
begin

text \<open>
  The file system and the allocator as the C library shows them to the engine: files as byte
  lists under their path, directories, paths the operating system refuses to open, and the
  number of bytes the device still accepts. The stdio calls the sources use are functions on
  this state; writes reach the file at once (a \<open>FILE\<close> buffer that is flushed late by
  \<open>fclose\<close> is not modelled).

  \<open>malloc\<close> is a predicate on the requested size wherever the sources test its result.
\<close>

type_synonym allocator = "nat \<Rightarrow> bool"

record disk =
  files :: "string \<Rightarrow> byte list option"
  dirs :: "string \<Rightarrow> bool"
  denied :: "string \<Rightarrow> bool"
  room :: nat

section \<open>Paths and bounded strings\<close>

text \<open>\<open>snprintf\<close> and \<open>strncpy\<close> into a buffer of \<open>n\<close> bytes keep at most \<open>n - 1\<close> characters.\<close>

definition bounded :: "nat \<Rightarrow> string \<Rightarrow> string" where
  "bounded n s = take (n - 1) s"

definition dirname :: "string \<Rightarrow> string" where
  "dirname p = rev (drop 1 (dropWhile (\<lambda>c. c \<noteq> CHR ''/'') (rev p)))"

definition parent_exists :: "disk \<Rightarrow> string \<Rightarrow> bool" where
  "parent_exists d p \<longleftrightarrow> dirname p = [] \<or> dirs d (dirname p)"

lemma bounded_id [simp]: "length s < n \<Longrightarrow> bounded n s = s"
  by (simp add: bounded_def)

lemma length_bounded: "0 < n \<Longrightarrow> length (bounded n s) < n"
  by (auto simp: bounded_def)

lemma dirname_append:
  "CHR ''/'' \<notin> set s \<Longrightarrow> dirname (p @ ''/'' @ s) = p"
proof -
  assume "CHR ''/'' \<notin> set s"
  then have "dropWhile (\<lambda>c. c \<noteq> CHR ''/'') (rev s) = []" by auto
  then show ?thesis by (simp add: dirname_def dropWhile_append)
qed

section \<open>Files\<close>

definition fopen_wb :: "string \<Rightarrow> disk \<Rightarrow> disk option" where
  "fopen_wb p d =
     (if denied d p \<or> dirs d p \<or> \<not> parent_exists d p then None
      else Some (d\<lparr>files := (files d)(p \<mapsto> []),
                   room := room d + (case files d p of None \<Rightarrow> 0 | Some old \<Rightarrow> length old)\<rparr>))"

definition fopen_ab :: "string \<Rightarrow> disk \<Rightarrow> disk option" where
  "fopen_ab p d =
     (if denied d p \<or> dirs d p \<or> \<not> parent_exists d p then None
      else Some (case files d p of None \<Rightarrow> d\<lparr>files := (files d)(p \<mapsto> [])\<rparr> | Some _ \<Rightarrow> d))"

definition fopen_rb :: "string \<Rightarrow> disk \<Rightarrow> byte list option" where
  "fopen_rb p d = (if denied d p then None else files d p)"

text \<open>\<open>fwrite\<close> of an array of items of \<open>sz\<close> bytes at the end of an open file: the number of
  complete items that went out, and the disk with every byte that did.\<close>

definition fwrite :: "string \<Rightarrow> byte list \<Rightarrow> nat \<Rightarrow> disk \<Rightarrow> nat \<times> disk" where
  "fwrite p bs sz d =
     (let k = min (length bs) (room d);
          old = (case files d p of None \<Rightarrow> [] | Some old \<Rightarrow> old)
      in (k div sz, d\<lparr>files := (files d)(p \<mapsto> old @ take k bs), room := room d - k\<rparr>))"

definition remove_file :: "string \<Rightarrow> disk \<Rightarrow> int \<times> disk" where
  "remove_file p d =
     (case files d p of
        Some old \<Rightarrow> if denied d p then (-1, d)
                    else (0, d\<lparr>files := (files d)(p := None), room := room d + length old\<rparr>)
      | None \<Rightarrow> (-1, d))"

definition mkdir :: "string \<Rightarrow> disk \<Rightarrow> disk" where
  "mkdir p d =
     (if denied d p \<or> dirs d p \<or> files d p \<noteq> None \<or> \<not> parent_exists d p then d
      else d\<lparr>dirs := (dirs d)(p := True)\<rparr>)"

lemma fopen_wb_Some:
  "fopen_wb p d = Some d' \<Longrightarrow>
     files d' = (files d)(p \<mapsto> []) \<and> dirs d' = dirs d \<and> denied d' = denied d"
  by (auto simp: fopen_wb_def split: if_splits)

lemma fwrite_frame [simp]:
  "q \<noteq> p \<Longrightarrow> files (snd (fwrite p bs sz d)) q = files d q"
  "dirs (snd (fwrite p bs sz d)) = dirs d"
  "denied (snd (fwrite p bs sz d)) = denied d"
  by (simp_all add: fwrite_def Let_def)

lemma remove_file_frame [simp]:
  "q \<noteq> p \<Longrightarrow> files (snd (remove_file p d)) q = files d q"
  "dirs (snd (remove_file p d)) = dirs d"
  "denied (snd (remove_file p d)) = denied d"
  by (simp_all add: remove_file_def split: option.split)

lemma remove_file_gone: "\<not> denied d p \<Longrightarrow> files (snd (remove_file p d)) p = None"
  by (simp add: remove_file_def split: option.split)

lemma mkdir_frame [simp]:
  "files (mkdir p d) = files d" "denied (mkdir p d) = denied d" "room (mkdir p d) = room d"
  by (simp_all add: mkdir_def)

lemma mkdir_dirs: "dirs d q \<Longrightarrow> dirs (mkdir p d) q"
  by (simp add: mkdir_def)

section \<open>Little-endian integers\<close>

definition le_bytes :: "nat \<Rightarrow> 'a::len word \<Rightarrow> byte list" where
  "le_bytes n w = map (\<lambda>i. ucast (drop_bit (8 * i) w)) [0..<n]"

definition word_of_le :: "byte list \<Rightarrow> 'a::len word" where
  "word_of_le bs = foldr (\<lambda>b w. push_bit 8 w OR ucast b) bs 0"

lemma length_le_bytes [simp]: "length (le_bytes n w) = n"
  by (simp add: le_bytes_def)

lemma le_bytes_Suc: "le_bytes (Suc n) w = ucast w # le_bytes n (drop_bit 8 w)"
  by (simp add: le_bytes_def upt_conv_Cons map_Suc_upt [symmetric] add.commute del: upt_Suc)

lemma word_of_le_bytes [simp]:
  "word_of_le (le_bytes n w) = take_bit (8 * n) (w :: 'a::len word)"
proof (induction n arbitrary: w)
  case 0
  then show ?case by (simp add: le_bytes_def word_of_le_def)
next
  case (Suc n)
  have "word_of_le (le_bytes (Suc n) w) =
      push_bit 8 (take_bit (8 * n) (drop_bit 8 w)) OR ucast (ucast w :: byte)"
    using Suc [of "drop_bit 8 w"] by (simp add: le_bytes_Suc word_of_le_def)
  also have "\<dots> = take_bit (8 * Suc n) w"
    by (rule bit_word_eqI) (auto simp: bit_simps)
  finally show ?case .
qed

lemma take_bit_32 [simp]: "take_bit 32 (w :: u32) = w"
  by (simp add: take_bit_word_eq_self)

end
