(* ===== verification/Chunk.thy ===== *)
theory Chunk
  imports Disk
begin

text \<open>
  The chunk file format of \<^verbatim>\<open>src/chunk.c\<close>: the in-memory image of \<open>struct chunkheader\<close>
  (32 bytes on the LP64 target, little endian, with four padding bytes after the id) followed
  by \<open>sizebytes\<close> payload bytes. \<open>chunkwrite\<close> and \<open>chunkread\<close> keep every error return of
  the C functions: -1 is the first component of the result, respectively \<open>None\<close>.

  The locale \<open>chunk_store\<close> is what the storage engine relies on: a chunk that was stored is
  read back, a store does not touch other chunks, and a failed store leaves nothing that
  reads as a chunk.
\<close>

section \<open>The header\<close>

record chunkheader =
  chunkid :: u32
  hdr_pad :: u32
  startts :: u64
  endts :: u64
  sizebytes :: u32
  point_count :: u32

definition header_size :: nat where
  "header_size = 32"

definition header_image :: "chunkheader \<Rightarrow> byte list" where
  "header_image h =
     le_bytes 4 (chunkid h) @ le_bytes 4 (hdr_pad h) @ le_bytes 8 (startts h) @
     le_bytes 8 (endts h) @ le_bytes 4 (sizebytes h) @ le_bytes 4 (point_count h)"

definition header_of_image :: "byte list \<Rightarrow> chunkheader" where
  "header_of_image bs =
     \<lparr>chunkid = word_of_le (take 4 bs),
      hdr_pad = word_of_le (take 4 (drop 4 bs)),
      startts = word_of_le (take 8 (drop 8 bs)),
      endts = word_of_le (take 8 (drop 16 bs)),
      sizebytes = word_of_le (take 4 (drop 24 bs)),
      point_count = word_of_le (take 4 (drop 28 bs))\<rparr>"

lemma length_header_image [simp]: "length (header_image h) = 32"
  by (simp add: header_image_def)

lemma header_of_header_image [simp]: "header_of_image (header_image h) = h"
  by (simp add: header_of_image_def header_image_def)

section \<open>Writing and reading\<close>

definition chunkwrite :: "string \<Rightarrow> chunkheader \<Rightarrow> byte list \<Rightarrow> disk \<Rightarrow> int \<times> disk" where
  "chunkwrite filepath header payload d =
     (case fopen_wb filepath d of
        None \<Rightarrow> (-1, d)
      | Some d \<Rightarrow>
          let (n, d) = fwrite filepath (header_image header) header_size d in
          if n \<noteq> 1 then (-1, d)
          else
            let (n, d) = fwrite filepath (take (unat (sizebytes header)) payload) 1 d in
            if n \<noteq> unat (sizebytes header) then (-1, d) else (0, d))"

definition chunkread :: "allocator \<Rightarrow> string \<Rightarrow> disk \<Rightarrow> (chunkheader \<times> byte list) option" where
  "chunkread mem filepath d =
     (case fopen_rb filepath d of
        None \<Rightarrow> None
      | Some content \<Rightarrow>
          if length content < header_size then None
          else
            let header = header_of_image (take header_size content);
                rest = drop header_size content
            in if \<not> mem (unat (sizebytes header)) then None
               else if length rest < unat (sizebytes header) then None
               else Some (header, take (unat (sizebytes header)) rest))"

text \<open>The image of a whole chunk, and the condition under which the device takes it.\<close>

definition chunk_image :: "chunkheader \<Rightarrow> byte list \<Rightarrow> byte list" where
  "chunk_image h payload = header_image h @ take (unat (sizebytes h)) payload"

definition room_after_open :: "string \<Rightarrow> disk \<Rightarrow> nat" where
  "room_after_open p d = room d + (case files d p of None \<Rightarrow> 0 | Some old \<Rightarrow> length old)"

lemma chunkwrite_open_fails: "fopen_wb p d = None \<Longrightarrow> chunkwrite p h payload d = (-1, d)"
  by (simp add: chunkwrite_def)

text \<open>What \<open>chunkwrite\<close> leaves in the file: the image of the chunk, cut where the device is full.\<close>

lemma chunkwrite_file:
  assumes "fopen_wb p d = Some d1" and "length payload = unat (sizebytes h)"
  shows "files (snd (chunkwrite p h payload d)) =
           (files d)(p \<mapsto> take (room_after_open p d) (chunk_image h payload))"
    and "fst (chunkwrite p h payload d) =
           (if 32 + unat (sizebytes h) \<le> room_after_open p d then 0 else -1)"
  using assms
  by (auto simp: chunkwrite_def fopen_wb_def fwrite_def Let_def room_after_open_def chunk_image_def
      header_size_def min_def split: if_splits option.splits)

lemma chunkwrite_frame [simp]:
  "q \<noteq> p \<Longrightarrow> files (snd (chunkwrite p h payload d)) q = files d q"
  "dirs (snd (chunkwrite p h payload d)) = dirs d"
  "denied (snd (chunkwrite p h payload d)) = denied d"
  by (auto simp: chunkwrite_def fopen_wb_def split_def Let_def split: option.split)

lemma chunkread_image:
  assumes "files d p = Some (chunk_image h payload)" and "length payload = unat (sizebytes h)"
    and "\<not> denied d p" and "mem (unat (sizebytes h))"
  shows "chunkread mem p d = Some (h, payload)"
  using assms by (simp add: chunkread_def fopen_rb_def chunk_image_def header_size_def Let_def)

lemma chunkread_truncated:
  assumes "files d p = Some (take k (chunk_image h payload))" and "length payload = unat (sizebytes h)"
    and "k < 32 + unat (sizebytes h)"
  shows "chunkread mem p d = None"
  using assms
  by (auto simp: chunkread_def fopen_rb_def chunk_image_def header_size_def Let_def min_def)

lemma chunkread_frame: 
  "files d' p = files d p \<Longrightarrow> denied d' = denied d \<Longrightarrow> chunkread mem p d' = chunkread mem p d"
  by (simp add: chunkread_def fopen_rb_def)

lemma chunkwrite_0_opened: "fst (chunkwrite p h payload d) = 0 \<Longrightarrow> \<exists>d1. fopen_wb p d = Some d1"
  by (auto simp: chunkwrite_def split: option.splits)

lemma chunkwrite_code: "fst (chunkwrite p h payload d) \<in> {0, -1}"
  by (simp add: chunkwrite_def split_def Let_def split: option.split)

section \<open>The store the engine relies on\<close>

locale chunk_store =
  fixes put :: "string \<Rightarrow> chunkheader \<Rightarrow> byte list \<Rightarrow> 'd \<Rightarrow> int \<times> 'd"
    and get :: "string \<Rightarrow> 'd \<Rightarrow> (chunkheader \<times> byte list) option"
    and usable :: "'d \<Rightarrow> string \<Rightarrow> bool"
    and fits :: "chunkheader \<Rightarrow> byte list \<Rightarrow> bool"
  assumes get_put: "fits h pl \<Longrightarrow> usable d p \<Longrightarrow> fst (put p h pl d) = 0 \<Longrightarrow>
      get p (snd (put p h pl d)) = Some (h, pl)"
    and get_put_failed: "fits h pl \<Longrightarrow> fst (put p h pl d) \<noteq> 0 \<Longrightarrow>
      snd (put p h pl d) = d \<or> get p (snd (put p h pl d)) = None"
    and get_put_other: "q \<noteq> p \<Longrightarrow> get q (snd (put p h pl d)) = get q d"
    and usable_put: "usable (snd (put p h pl d)) q = usable d q"
begin

text \<open>Chunks stored under distinct paths are all readable, whatever was stored after them.\<close>

lemma get_after_puts:
  assumes "get p d = Some c" and "p \<notin> set (map fst cs)"
  shows "get p (fold (\<lambda>(q, h, pl) d. snd (put q h pl d)) cs d) = Some c"
  using assms
  by (induction cs arbitrary: d) (auto simp: get_put_other)

lemma usable_puts: "usable (fold (\<lambda>(q, h, pl) d. snd (put q h pl d)) cs d) p = usable d p"
  by (induction cs arbitrary: d) (simp_all add: usable_put split_def)

lemma put_then_puts:
  assumes "fits h pl" "usable d p" "fst (put p h pl d) = 0" and "p \<notin> set (map fst cs)"
  shows "get p (fold (\<lambda>(q, h, pl) d. snd (put q h pl d)) cs (snd (put p h pl d))) = Some (h, pl)"
  using get_after_puts [OF get_put [OF assms(1-3)] assms(4)] .

end

definition payload_fits :: "allocator \<Rightarrow> chunkheader \<Rightarrow> byte list \<Rightarrow> bool" where
  "payload_fits mem h payload \<longleftrightarrow> length payload = unat (sizebytes h) \<and> mem (unat (sizebytes h))"

lemma chunkwrite_then_read:
  assumes "payload_fits mem h payload" "\<not> denied d p" and ok: "fst (chunkwrite p h payload d) = 0"
  shows "chunkread mem p (snd (chunkwrite p h payload d)) = Some (h, payload)"
proof -
  from chunkwrite_0_opened [OF ok] obtain d1 where d1: "fopen_wb p d = Some d1" by blast
  have len: "length payload = unat (sizebytes h)" "mem (unat (sizebytes h))"
    using assms(1) by (simp_all add: payload_fits_def)
  from chunkwrite_file [OF d1 len(1)] ok
  have "files (snd (chunkwrite p h payload d)) p = Some (chunk_image h payload)"
    using len(1) by (auto simp: chunk_image_def split: if_splits)
  with chunkread_image [where mem = mem, OF _ len(1) _ len(2)] assms(2) show ?thesis by simp
qed

lemma chunkwrite_failed:
  assumes "payload_fits mem h payload" and fail: "fst (chunkwrite p h payload d) \<noteq> 0"
  shows "snd (chunkwrite p h payload d) = d \<or> chunkread mem p (snd (chunkwrite p h payload d)) = None"
proof (cases "fopen_wb p d")
  case None
  then show ?thesis by (simp add: chunkwrite_open_fails)
next
  case (Some d1)
  have len: "length payload = unat (sizebytes h)" using assms(1) by (simp add: payload_fits_def)
  note written = chunkwrite_file [OF Some len]
  from written(2) fail have "room_after_open p d < 32 + unat (sizebytes h)" by (auto split: if_splits)
  with chunkread_truncated [OF _ len, of "snd (chunkwrite p h payload d)" p] written(1) show ?thesis
    by simp
qed

interpretation cs: chunk_store chunkwrite "chunkread mem" "\<lambda>d p. \<not> denied d p" "payload_fits mem"
  for mem
proof (unfold_locales, goal_cases)
  case 1 then show ?case by (rule chunkwrite_then_read)
next
  case 2 then show ?case by (rule chunkwrite_failed)
next
  case 3 then show ?case by (intro chunkread_frame) simp_all
next
  case 4 then show ?case by simp
qed

section \<open>Properties\<close>

text \<open>C23: a chunk that chunkwrite reported as written is what chunkread returns for its path,
  header and payload byte for byte, also after any number of later chunks were written,
  or failed to be written, under other paths.\<close>

theorem chunk_roundtrip:
  assumes "length payload = unat (sizebytes h)" and "mem (unat (sizebytes h))"
    and "\<not> denied d p" and "fst (chunkwrite p h payload d) = 0" and "p \<notin> set (map fst later)"
  shows "chunkread mem p (fold (\<lambda>(q, h, pl) d. snd (chunkwrite q h pl d)) later
           (snd (chunkwrite p h payload d))) = Some (h, payload)"
  using assms by (intro cs.put_then_puts) (simp_all add: payload_fits_def)

definition sample_disk :: disk where
  "sample_disk = \<lparr>files = (\<lambda>_. None), dirs = (\<lambda>p. p \<in> {''data'', ''data/cpu''}),
     denied = (\<lambda>_. False), room = 1000\<rparr>"

definition sample_header :: chunkheader where
  "sample_header = \<lparr>chunkid = 7, hdr_pad = 0, startts = 7, endts = 9, sizebytes = 3, point_count = 2\<rparr>"

theorem chunk_roundtrip_witness:
  "chunkread (\<lambda>_. True) ''data/a''
     (snd (chunkwrite ''data/b'' sample_header [9, 9, 9]
       (snd (chunkwrite ''data/a'' sample_header [1, 2, 3] sample_disk)))) =
   Some (sample_header, [1, 2, 3])"
proof -
  have "fst (chunkwrite ''data/a'' sample_header [1, 2, 3] sample_disk) = 0"
    by (simp add: chunkwrite_def fopen_wb_def fwrite_def parent_exists_def dirname_def
        sample_disk_def sample_header_def header_size_def Let_def)
  from chunk_roundtrip [OF _ _ _ this, of "\<lambda>_. True" "[(''data/b'', sample_header, [9, 9, 9])]"]
  show ?thesis by (simp add: sample_disk_def sample_header_def)
qed

text \<open>C39: a chunkwrite that reports an error either left the disk as it was or left a file that
  chunkread refuses; it never leaves a chunk with wrong contents, and it never touches
  another file.\<close>

theorem chunkwrite_failure_safe:
  assumes "length payload = unat (sizebytes h)" and "mem (unat (sizebytes h))"
    and "fst (chunkwrite p h payload d) \<noteq> 0"
  shows "fst (chunkwrite p h payload d) = -1 \<and>
    (snd (chunkwrite p h payload d) = d \<or> chunkread mem p (snd (chunkwrite p h payload d)) = None) \<and>
    (\<forall>q. q \<noteq> p \<longrightarrow> files (snd (chunkwrite p h payload d)) q = files d q)"
  using assms cs.get_put_failed [of mem h payload p d] chunkwrite_code [of p h payload d]
  by (simp add: payload_fits_def)

theorem chunkwrite_failure_safe_witness:
  "fst (chunkwrite ''data/a'' sample_header [1, 2, 3] (sample_disk\<lparr>room := 34\<rparr>)) = -1 \<and>
   chunkread (\<lambda>_. True) ''data/a''
     (snd (chunkwrite ''data/a'' sample_header [1, 2, 3] (sample_disk\<lparr>room := 34\<rparr>))) = None"
proof -
  let ?d = "sample_disk\<lparr>room := 34\<rparr>"
  have fail: "fst (chunkwrite ''data/a'' sample_header [1, 2, 3] ?d) \<noteq> 0"
    and changed: "files (snd (chunkwrite ''data/a'' sample_header [1, 2, 3] ?d)) ''data/a'' \<noteq> files ?d ''data/a''"
    by (simp_all add: chunkwrite_def fopen_wb_def fwrite_def parent_exists_def dirname_def
        sample_disk_def sample_header_def header_size_def Let_def)
  from chunkwrite_failure_safe [OF _ _ fail, of "\<lambda>_. True"] changed show ?thesis
    by (auto simp: sample_header_def)
qed

end
