(* ===== verification/Flush.thy ===== *)
theory Flush
  imports Timestamp Value Chunk
begin

text \<open>
  Compressing points into a chunk file, \<^verbatim>\<open>src/flush.c\<close>, and the decoding loop that the
  readers of chunk files share (\<open>decompressChunk\<close> and \<open>collect_points_from_chunk\<close> in
  \<^verbatim>\<open>src/registry.c\<close>, \<open>decompress_all\<close> in \<^verbatim>\<open>src/downsample.c\<close>): a timestamp is written and
  read before the value of the same point, over one bit stream.

  The padding bytes of the header, which the C code leaves unset, are written as zero here;
  no reader looks at them.
\<close>

type_synonym point = "u64 \<times> cdouble"

interpretation gor: codec_pair
  tsencoderwrite ts_next ts_code ts_fits id tsdecoderread ts_sync
  valencoderwrite val_next val_code "\<lambda>_ _. True" val_image valdecoderread val_sync
  by unfold_locales

definition flushtochunk ::
    "u32 \<Rightarrow> string \<Rightarrow> u64 list \<Rightarrow> cdouble list \<Rightarrow> nat \<Rightarrow> disk \<Rightarrow> int \<times> disk" where
  "flushtochunk cid filepath timestamps vals numpoints d =
     (if numpoints = 0 then (0, d)
      else
        let bw = bwcreate;
            tsenc = tsencoderinit;
            valenc = valencoderinit;
            (_, bw) = encode_all (pair_enc tsencoderwrite valencoderwrite) (tsenc, valenc) bw
                        (zip (take numpoints timestamps) (take numpoints vals));
            bw = bwclose bw;
            header = \<lparr>chunkid = cid, hdr_pad = 0,
                      startts = timestamps ! 0, endts = timestamps ! (numpoints - 1),
                      sizebytes = of_nat (bb_size (bw_buffer bw)),
                      point_count = of_nat numpoints\<rparr>
        in chunkwrite filepath header (data (bw_buffer bw)) d)"

definition decode_points :: "chunkheader \<Rightarrow> byte list \<Rightarrow> point list" where
  "decode_points header payload =
     (let buf = \<lparr>data = payload, bb_size = unat (sizebytes header), bb_capacity = 0\<rparr>;
          br = brcreate buf;
          tsdec = tsdecoderinit;
          valdec = valdecoderinit;
          (pts, _, _) = decode_all (pair_dec tsdecoderread valdecoderread)
                          (unat (point_count header)) (tsdec, valdec) br
      in pts)"

section \<open>Size of a compressed point\<close>

lemma ts_code_length: "length (ts_code e t) \<le> 64"
  by (simp add: ts_code_def ts_D_code_def)

lemma val_code_length: "val_sync e d \<Longrightarrow> length (val_code e v) \<le> 77"
  using val_leading_window [of "val_xor e v"]
  by (auto simp: val_code_def val_sync_def window_inv_def Let_def)

lemma gor_code_length:
  "\<exists>dc. (case e of (e, f) \<Rightarrow> \<lambda>(d, c). ts_sync e d \<and> val_sync f c) dc \<Longrightarrow>
     length ((case e of (e, f) \<Rightarrow> \<lambda>(v, w). ts_code e v @ val_code f w) vw) \<le> 141"
  using ts_code_length val_code_length
  by (cases e; cases vw) (fastforce intro: order.trans [OF add_mono])

text \<open>The state, bytes and header of a flush.\<close>

definition flush_buffer :: "point list \<Rightarrow> bytebuffer" where
  "flush_buffer pts = bw_buffer (bwclose (snd
     (encode_all (pair_enc tsencoderwrite valencoderwrite) (tsencoderinit, valencoderinit) bwcreate pts)))"

definition flush_header :: "u32 \<Rightarrow> point list \<Rightarrow> chunkheader" where
  "flush_header cid pts =
     \<lparr>chunkid = cid, hdr_pad = 0, startts = fst (hd pts), endts = fst (last pts),
      sizebytes = of_nat (bb_size (flush_buffer pts)), point_count = of_nat (length pts)\<rparr>"

definition points_fit :: "point list \<Rightarrow> bool" where
  "points_fit pts \<longleftrightarrow> all_fit ts_fits ts_next tsencoderinit (map fst pts)"

lemma all_fit_pair:
  "all_fit (\<lambda>(e, f) (v, w). fits1 e v \<and> True) (\<lambda>(e, f) (v, w). (nxt1 e v, nxt2 f w)) (e, f) pts =
     all_fit fits1 nxt1 e (map fst pts)"
  by (induction pts arbitrary: e f) auto

lemma gor_sync_init:
  "(\<lambda>(e, f) (d, c). ts_sync e d \<and> val_sync f c) (tsencoderinit, valencoderinit)
     (tsdecoderinit, valdecoderinit)"
  by (simp add: ts_sync_init val_sync_init)

lemma flush_buffer_size: "8 * bb_size (flush_buffer pts) \<le> 141 * length pts + 7"
  unfolding flush_buffer_def
  by (rule gor.both.encode_all_size [OF gor_code_length gor_sync_init])

lemma flush_buffer_data: "length (data (flush_buffer pts)) = bb_size (flush_buffer pts)"
proof -
  have "writer_inv (bwclose (snd (encode_all (pair_enc tsencoderwrite valencoderwrite)
          (tsencoderinit, valencoderinit) bwcreate pts)))"
    using gor.both.encode_all_correct [OF writer_inv_create gor_sync_init] by (simp add: inv_intros)
  then show ?thesis by (simp add: flush_buffer_def writer_inv_def buffer_inv_def)
qed

text \<open>Up to \<open>2 ^ 27\<close> points the 32-bit fields of the header hold the true sizes.\<close>

lemma flush_header_sizes:
  assumes "length pts \<le> 2 ^ 27"
  shows "unat (sizebytes (flush_header cid pts)) = bb_size (flush_buffer pts)"
    and "unat (point_count (flush_header cid pts)) = length pts"
  using assms flush_buffer_size [of pts]
  by (simp_all add: flush_header_def unat_of_nat take_bit_nat_eq_self)

lemma flushtochunk_chunkwrite:
  assumes "0 < n" "n \<le> length ts" "n \<le> length vs"
  defines "pts \<equiv> zip (take n ts) (take n vs)"
  shows "flushtochunk cid p ts vs n d = chunkwrite p (flush_header cid pts) (data (flush_buffer pts)) d"
proof -
  have len: "length pts = n" using assms by (simp add: pts_def)
  with assms(1) have "pts \<noteq> []" by auto
  with len assms have "fst (hd pts) = ts ! 0" "fst (last pts) = ts ! (n - 1)"
    by (simp_all add: hd_conv_nth last_conv_nth pts_def)
  with assms(1) len show ?thesis
    by (simp add: flushtochunk_def flush_header_def flush_buffer_def split_def Let_def
        flip: pts_def)
qed

text \<open>A device with room for the header and eighteen bytes per point takes the flush.\<close>

lemma flushtochunk_succeeds:
  assumes "0 < n" "n \<le> 2 ^ 27" "n \<le> length ts" "n \<le> length vs"
    and "fopen_wb p d = Some d1" and "32 + 18 * n \<le> room d"
  shows "fst (flushtochunk cid p ts vs n d) = 0"
proof -
  define pts where "pts = zip (take n ts) (take n vs)"
  have len: "length pts = n" using assms by (simp add: pts_def)
  then have small: "length pts \<le> 2 ^ 27" using assms(2) by simp
  have "bb_size (flush_buffer pts) \<le> 18 * n"
    using flush_buffer_size [of pts] len assms(1) by simp
  then have "32 + unat (sizebytes (flush_header cid pts)) \<le> room_after_open p d"
    using assms(6) flush_header_sizes [OF small] by (simp add: room_after_open_def)
  with chunkwrite_file(2) [OF assms(5), of "data (flush_buffer pts)" "flush_header cid pts"]
  have "fst (chunkwrite p (flush_header cid pts) (data (flush_buffer pts)) d) = 0"
    using flush_header_sizes [OF small] by (simp add: flush_buffer_data)
  then show ?thesis
    using flushtochunk_chunkwrite [OF assms(1,3,4)] by (simp add: pts_def)
qed

section \<open>Properties\<close>

text \<open>Decoding the buffer of a flush gives back the points, values up to their low four bits.\<close>

lemma decode_flushed:
  assumes "points_fit pts" "length pts \<le> 2 ^ 27"
  shows "decode_points (flush_header cid pts) (data (flush_buffer pts)) =
           map (\<lambda>(t, v). (t, val_image v)) pts"
proof -
  let ?bw = "snd (encode_all (pair_enc tsencoderwrite valencoderwrite)
               (tsencoderinit, valencoderinit) bwcreate pts)"
  let ?br = "brcreate \<lparr>data = data (flush_buffer pts), bb_size = bb_size (flush_buffer pts), bb_capacity = 0\<rparr>"
  note enc_all = gor.both.encode_all_correct [OF writer_inv_create gor_sync_init, of pts]
  have bits: "reader_bits ?br = all_code (\<lambda>(e, f) (v, w). ts_code e v @ val_code f w)
      (\<lambda>(e, f) (v, w). (ts_next e v, val_next f w)) (tsencoderinit, valencoderinit) pts @
      replicate (nat (- filledbits ?bw mod 8)) False"
    using enc_all by (simp add: codec_simps flush_buffer_def)
  have inv: "reader_inv ?br" by (intro inv_intros) (simp add: flush_buffer_data)
  have fit: "all_fit (\<lambda>(e, f) (v, w). ts_fits e v \<and> True)
      (\<lambda>(e, f) (v, w). (ts_next e v, val_next f w)) (tsencoderinit, valencoderinit) pts"
    using assms(1) by (simp only: all_fit_pair points_fit_def)
  from gor.both.decode_all_correct [OF gor_sync_init fit inv bits] obtain d' br' where
    "decode_all (pair_dec tsdecoderread valdecoderread) (length pts) (tsdecoderinit, valdecoderinit) ?br =
       (map (map_prod id val_image) pts, d', br')" by blast
  then show ?thesis
    using flush_header_sizes [OF assms(2)]
    by (simp add: decode_points_def map_prod_def)
qed

lemma flushtochunk_stored:
  assumes "0 < n" "n \<le> 50000" "n \<le> length ts" "n \<le> length vs"
    and "points_fit (zip (take n ts) (take n vs))"
    and "\<And>k. mem k" and "\<not> denied d p"
    and "fst (flushtochunk cid p ts vs n d) = 0"
  shows "\<exists>h payload. chunkread mem p (snd (flushtochunk cid p ts vs n d)) = Some (h, payload) \<and>
           decode_points h payload = zip (take n ts) (map val_image (take n vs)) \<and>
           startts h = ts ! 0 \<and> endts h = ts ! (n - 1) \<and> unat (point_count h) = n"
proof -
  define pts where "pts = zip (take n ts) (take n vs)"
  have flush: "flushtochunk cid p ts vs n d = chunkwrite p (flush_header cid pts) (data (flush_buffer pts)) d"
    using flushtochunk_chunkwrite [OF assms(1,3,4)] by (simp add: pts_def)
  have len: "length pts = n" using assms by (simp add: pts_def)
  then have small: "length pts \<le> 2 ^ 27" using assms(2) by simp
  note sizes = flush_header_sizes [OF small, of cid]
  have "chunkread mem p (snd (flushtochunk cid p ts vs n d)) = Some (flush_header cid pts, data (flush_buffer pts))"
    using assms(6-8) sizes(1) unfolding flush
    by (intro cs.get_put) (simp_all add: payload_fits_def flush_buffer_data)
  moreover have "decode_points (flush_header cid pts) (data (flush_buffer pts)) =
      zip (take n ts) (map val_image (take n vs))"
    using decode_flushed [OF _ small] assms(5) by (simp add: pts_def zip_map2)
  moreover have "startts (flush_header cid pts) = ts ! 0" "endts (flush_header cid pts) = ts ! (n - 1)"
  proof -
    have "pts \<noteq> []" using len assms(1) by auto
    with len assms show "startts (flush_header cid pts) = ts ! 0" "endts (flush_header cid pts) = ts ! (n - 1)"
      by (simp_all add: flush_header_def hd_conv_nth last_conv_nth pts_def)
  qed
  ultimately show ?thesis using sizes(2) len by blast
qed

text \<open>A flush touches no chunk under another path.\<close>

lemma flushtochunk_frame:
  assumes "n \<le> length ts" "n \<le> length vs" "q \<noteq> p"
  shows "chunkread mem q (snd (flushtochunk cid p ts vs n d)) = chunkread mem q d"
    and "files (snd (flushtochunk cid p ts vs n d)) q = files d q"
    and "dirs (snd (flushtochunk cid p ts vs n d)) = dirs d"
    and "denied (snd (flushtochunk cid p ts vs n d)) = denied d"
proof -
  have *: "snd (flushtochunk cid p ts vs n d) = d \<or>
      (\<exists>h pl. snd (flushtochunk cid p ts vs n d) = snd (chunkwrite p h pl d))"
    using flushtochunk_chunkwrite [OF _ assms(1,2)] by (cases "n = 0") (auto simp: flushtochunk_def)
  then show "chunkread mem q (snd (flushtochunk cid p ts vs n d)) = chunkread mem q d"
    using cs.get_put_other [OF assms(3)] by auto
  from * show "files (snd (flushtochunk cid p ts vs n d)) q = files d q"
    "dirs (snd (flushtochunk cid p ts vs n d)) = dirs d"
    "denied (snd (flushtochunk cid p ts vs n d)) = denied d"
    using assms(3) by auto
qed

lemma flushtochunk_code: "n \<le> length ts \<Longrightarrow> n \<le> length vs \<Longrightarrow> fst (flushtochunk cid p ts vs n d) \<in> {0, -1}"
  using flushtochunk_chunkwrite [of n ts vs cid p d] chunkwrite_code
  by (cases "n = 0") (simp_all add: flushtochunk_def [of _ _ _ _ 0])



end
