(* ===== verification/C_Text.thy ===== *)
theory C_Text
  imports C_Double
begin

text \<open>
  The text conversions of the C library the engine uses: \<open>%ld\<close>, \<open>%d\<close> and \<open>%u\<close> of
  integers, \<open>%.2f\<close> and \<open>%.6f\<close> of doubles (exact decimal expansion, rounded half to even, as
  glibc prints), and \<open>strtol\<close> with base 10, \<open>atol\<close> and \<open>atoi\<close>. Strings are character lists
  without the terminating NUL.
\<close>

section \<open>Printing integers\<close>

definition digit_char :: "int \<Rightarrow> char" where
  "digit_char n = char_of (48 + nat n)"

text \<open>The decimal digits of a non-negative integer.\<close>

function show_dec :: "int \<Rightarrow> string" where
  "show_dec n = (if n < 10 then [digit_char n] else show_dec (n div 10) @ [digit_char (n mod 10)])"
  by pat_completeness auto
termination
  by (relation "measure nat") auto

declare show_dec.simps [simp del]

definition show_int :: "int \<Rightarrow> string" where
  "show_int n = (if n < 0 then ''-'' @ show_dec (- n) else show_dec n)"

lemma show_dec_nonempty [simp]: "show_dec n \<noteq> []"
  by (subst show_dec.simps) simp

section \<open>Printing doubles\<close>

definition pad_zeros :: "nat \<Rightarrow> string \<Rightarrow> string" where
  "pad_zeros k s = replicate (k - length s) (CHR ''0'') @ s"

definition d_scaled :: "cdouble \<Rightarrow> nat \<Rightarrow> int" where
  "d_scaled d p =
     (let num = d_mant d * 10 ^ p
      in if d_scale d \<ge> 0 then num * 2 ^ nat (d_scale d)
         else div_half_even num (2 ^ nat (- d_scale d)))"

definition fmt_f :: "nat \<Rightarrow> cdouble \<Rightarrow> string" where
  "fmt_f p d =
     (let sign = (if d_neg d then ''-'' else []) in
      if is_nan d then sign @ ''nan''
      else if is_inf d then sign @ ''inf''
      else let n = d_scaled d p
           in sign @ show_dec (n div 10 ^ p) @
              (if p = 0 then [] else ''.'' @ pad_zeros p (show_dec (n mod 10 ^ p))))"

section \<open>Reading integers\<close>

definition is_space :: "char \<Rightarrow> bool" where
  "is_space c \<longleftrightarrow> c \<in> {CHR '' '', CHR 0x09, CHR 0x0A, CHR 0x0B, CHR 0x0C, CHR 0x0D}"

definition is_digit :: "char \<Rightarrow> bool" where
  "is_digit c \<longleftrightarrow> 48 \<le> (of_char c :: nat) \<and> (of_char c :: nat) \<le> 57"

definition digit_val :: "char \<Rightarrow> int" where
  "digit_val c = int (of_char c) - 48"

definition digits_val :: "string \<Rightarrow> int" where
  "digits_val s = foldl (\<lambda>a c. 10 * a + digit_val c) 0 s"

definition long_min :: int where "long_min = - (2 ^ 63)"
definition long_max :: int where "long_max = 2 ^ 63 - 1"

text \<open>Leading white space, an optional sign, the longest run of digits; clamped to \<open>long\<close>.\<close>

definition strtol :: "string \<Rightarrow> int" where
  "strtol s =
     (let s = dropWhile is_space s;
          (neg, s) = (case s of
              [] \<Rightarrow> (False, [])
            | c # cs \<Rightarrow> if c = CHR ''-'' then (True, cs) else if c = CHR ''+'' then (False, cs) else (False, s));
          n = digits_val (takeWhile is_digit s);
          n = (if neg then - n else n)
      in max long_min (min long_max n))"

definition atol :: "string \<Rightarrow> int" where
  "atol s = strtol s"

definition atoi :: "string \<Rightarrow> int" where
  "atoi s = sint (of_int (strtol s) :: u32)"

section \<open>Round trip of integers\<close>

lemma of_char_digit: "0 \<le> n \<Longrightarrow> n < 10 \<Longrightarrow> int (of_char (digit_char n)) = 48 + n"
  by (simp add: digit_char_def of_char_of)

lemma is_digit_digit_char [simp]: "0 \<le> n \<Longrightarrow> n < 10 \<Longrightarrow> is_digit (digit_char n)"
  using of_char_digit [of n] by (simp add: is_digit_def)

lemma digit_val_digit_char [simp]: "0 \<le> n \<Longrightarrow> n < 10 \<Longrightarrow> digit_val (digit_char n) = n"
  by (simp add: digit_val_def of_char_digit)

lemma show_dec_digits: "0 \<le> n \<Longrightarrow> \<forall>c \<in> set (show_dec n). is_digit c"
proof (induction n rule: show_dec.induct)
  case (1 n)
  then show ?case by (subst show_dec.simps) auto
qed

lemma digits_val_snoc [simp]: "digits_val (s @ [c]) = 10 * digits_val s + digit_val c"
  by (simp add: digits_val_def)

lemma digits_val_show_dec [simp]: "0 \<le> n \<Longrightarrow> digits_val (show_dec n) = n"
proof (induction n rule: show_dec.induct)
  case (1 n)
  then show ?case
    by (cases "n < 10") (auto simp: show_dec.simps [of n] digits_val_def [of "[_]"])
qed

lemma takeWhile_show_dec [simp]: "0 \<le> n \<Longrightarrow> takeWhile is_digit (show_dec n) = show_dec n"
  using show_dec_digits by (simp add: takeWhile_eq_all_conv)

lemma digit_not_special:
  "is_digit c \<Longrightarrow> \<not> is_space c \<and> c \<noteq> CHR ''-'' \<and> c \<noteq> CHR ''+'' \<and> c \<noteq> CHR 0x09 \<and> c \<noteq> CHR ''.''"
  by (auto simp: is_digit_def is_space_def)

lemma show_dec_Cons: "0 \<le> n \<Longrightarrow> \<exists>c cs. show_dec n = c # cs \<and> is_digit c"
  using show_dec_digits [of n] by (cases "show_dec n") auto

lemma strtol_show_dec:
  assumes "0 \<le> n" shows "strtol (show_dec n) = min long_max n"
proof -
  obtain c cs where c: "show_dec n = c # cs" "is_digit c" using show_dec_Cons [OF assms] by blast
  have "digits_val (takeWhile is_digit (c # cs)) = n"
    using c(1) takeWhile_show_dec [OF assms] digits_val_show_dec [OF assms] by simp
  then show ?thesis
    using c digit_not_special [OF c(2)] assms
    by (simp add: strtol_def long_min_def long_max_def)
qed

text \<open>Every \<open>long\<close> that was printed is read back.\<close>

lemma strtol_show_int:
  assumes "long_min \<le> n" "n \<le> long_max" shows "strtol (show_int n) = n"
proof (cases "n < 0")
  case False
  with assms show ?thesis by (simp add: show_int_def strtol_show_dec)
next
  case True
  have "\<not> is_space CHR ''-''" by (simp add: is_space_def)
  with True assms show ?thesis
    by (simp add: show_int_def strtol_def long_max_def long_min_def)
qed

text \<open>Longer numbers print longer.\<close>

lemma show_dec_length_mono: "0 \<le> m \<Longrightarrow> m \<le> n \<Longrightarrow> length (show_dec m) \<le> length (show_dec n)"
proof (induction n arbitrary: m rule: show_dec.induct)
  case (1 n)
  consider "n < 10" | "\<not> n < 10" "m < 10" | "\<not> n < 10" "\<not> m < 10" by blast
  then show ?case
  proof cases
    case 1
    with \<open>m \<le> n\<close> show ?thesis by (simp add: show_dec.simps [of m] show_dec.simps [of n])
  next
    case 2
    then show ?thesis by (simp add: show_dec.simps [of m] show_dec.simps [of n])
  next
    case 3
    with 1(1) [OF 3(1), of "m div 10"] 1(2,3) show ?thesis
      by (simp add: show_dec.simps [of m] show_dec.simps [of n] zdiv_mono1)
  qed
qed

section \<open>Sizes of printed numbers\<close>

lemma show_dec_length: "0 \<le> n \<Longrightarrow> n < 10 ^ k \<Longrightarrow> 0 < k \<Longrightarrow> length (show_dec n) \<le> k"
proof (induction n arbitrary: k rule: show_dec.induct)
  case (1 n)
  show ?case
  proof (cases "n < 10")
    case True
    with 1(4) show ?thesis by (simp add: show_dec.simps [of n])
  next
    case False
    obtain j where k: "k = Suc j" using 1(4) by (cases k) auto
    have "n div 10 < 10 ^ j" using 1(3) by (simp add: k)
    moreover from this False have "0 < j" by (cases j) auto
    ultimately have "length (show_dec (n div 10)) \<le> j" using 1(1) [OF False] 1(2) by simp
    with False show ?thesis by (simp add: show_dec.simps [of n] k)
  qed
qed

lemma d_mant_bounds: "0 \<le> d_mant d" "d_mant d < 2 ^ 53"
proof -
  have "0 \<le> d_frac d" "d_frac d < 2 ^ 52" by (simp_all add: d_frac_def)
  then show "0 \<le> d_mant d" "d_mant d < 2 ^ 53" by (simp_all add: d_mant_def)
qed

lemma d_scale_bound: "is_finite d \<Longrightarrow> d_scale d \<le> 971"
  using pos_mod_bound [of "2 ^ 11 :: int" "uint (dbits d) div 2 ^ 52"]
  by (auto simp: is_finite_def d_scale_def d_exp_def)

lemma div_half_even_bounds:
  assumes "0 \<le> n" "0 < d" shows "0 \<le> div_half_even n d" "div_half_even n d \<le> n + 1"
proof -
  have "n div d \<le> n" using zdiv_mono2 [of n 1 d] assms by simp
  moreover have "0 \<le> n div d" using assms by (simp add: pos_imp_zdiv_nonneg_iff)
  ultimately show "0 \<le> div_half_even n d" "div_half_even n d \<le> n + 1"
    by (simp_all add: div_half_even_def Let_def)
qed

text \<open>A bound above every finite double.\<close>

definition above_doubles :: int where
  "above_doubles = 10 ^ 309"

lemma above_doubles: "2 ^ 53 * 2 ^ 971 < above_doubles" "2 ^ 53 < above_doubles"
  by (simp_all add: above_doubles_def)

lemma show_dec_above_doubles: "0 \<le> n \<Longrightarrow> n < above_doubles \<Longrightarrow> length (show_dec n) \<le> 309"
  unfolding above_doubles_def by (rule show_dec_length) (assumption, assumption, rule zero_less_numeral)

lemma d_scaled_bounds:
  assumes "is_finite d"
  shows "0 \<le> d_scaled d p" "d_scaled d p div 10 ^ p < above_doubles"
proof -
  note m = d_mant_bounds [of d]
  have num: "0 \<le> d_mant d * 10 ^ p" using m(1) by simp
  have "0 \<le> d_scaled d p \<and> d_scaled d p div 10 ^ p < above_doubles"
  proof (cases "d_scale d \<ge> 0")
    case True
    have "d_mant d * 2 ^ nat (d_scale d) \<le> 2 ^ 53 * 2 ^ 971"
      using m d_scale_bound [OF assms] by (intro mult_mono power_increasing) auto
    also note above_doubles(1)
    finally have "d_mant d * 2 ^ nat (d_scale d) < above_doubles" .
    moreover have "d_scaled d p = d_mant d * 2 ^ nat (d_scale d) * 10 ^ p"
      using True by (simp add: d_scaled_def)
    ultimately show ?thesis using m(1) by simp
  next
    case False
    then have scaled: "d_scaled d p = div_half_even (d_mant d * 10 ^ p) (2 ^ nat (- d_scale d))"
      by (simp add: d_scaled_def)
    note b = div_half_even_bounds [OF num, of "2 ^ nat (- d_scale d)"]
    have "d_scaled d p div 10 ^ p \<le> (d_mant d * 10 ^ p + 1) div 10 ^ p"
      unfolding scaled using b(2) by (intro zdiv_mono1) auto
    also have "\<dots> \<le> d_mant d + 1"
      using zdiv_mono1 [of "d_mant d * 10 ^ p + 1" "(d_mant d + 1) * 10 ^ p" "10 ^ p"]
      by (simp add: distrib_right)
    also have "\<dots> < above_doubles" using m(2) above_doubles(2) by simp
    finally show ?thesis using b(1) scaled by simp
  qed
  then show "0 \<le> d_scaled d p" "d_scaled d p div 10 ^ p < above_doubles" by simp_all
qed

lemma fmt_f_length: "length (fmt_f p d) \<le> 311 + p"
proof (cases "is_finite d")
  case False
  then show ?thesis by (auto simp: fmt_f_def is_finite_def is_nan_def is_inf_def)
next
  case True
  note n = d_scaled_bounds [OF True, of p]
  have "length (show_dec (d_scaled d p div 10 ^ p)) \<le> 309"
    using n by (intro show_dec_above_doubles) (simp_all add: pos_imp_zdiv_nonneg_iff)
  moreover have "length (pad_zeros p (show_dec (d_scaled d p mod 10 ^ p))) \<le> p" if "p \<noteq> 0"
    using show_dec_length [of "d_scaled d p mod 10 ^ p" p] that by (simp add: pad_zeros_def)
  moreover have "\<not> is_nan d" "\<not> is_inf d" using True by (auto simp: is_finite_def is_nan_def is_inf_def)
  ultimately show ?thesis by (auto simp: fmt_f_def Let_def)
qed

end
