(* ===== verification/Head.thy ===== *)
theory Head
  imports Flush C_Text
begin

text \<open>
  The in-memory head block of \<^verbatim>\<open>src/head.c\<close>: two arrays of capacity 50000, the number of
  points and the last accepted timestamp. The arrays are the lists of cells written so far;
  cells from \<open>hsize\<close> on are dead. \<open>PUT_value\<close> refines appending to a sorted bounded list.

  \<open>GET_value\<close> keeps track of the sizes of the heap buffers it writes to; a write past the end
  of one is the result \<open>UB HeapOverflow\<close>. The lock of the block is not part of the record.
\<close>

section \<open>State\<close>

definition HEAD_CAPACITY :: nat where
  "HEAD_CAPACITY = 50000"

record HeadBlock =
  timestamps :: "long list"
  hvalues :: "cdouble list"
  hsize :: nat
  lastTimestamp :: long

text \<open>\<open>lastTimestamp\<close> of a new block is whatever the allocator left there.\<close>

definition getNewHeadBlock :: "allocator \<Rightarrow> long \<Rightarrow> HeadBlock option" where
  "getNewHeadBlock mem junk =
     (if \<not> mem 72 then None
      else Some \<lparr>timestamps = [], hvalues = [], hsize = 0, lastTimestamp = junk\<rparr>)"

definition PUT_value :: "HeadBlock \<Rightarrow> long \<Rightarrow> cdouble \<Rightarrow> bool \<times> HeadBlock" where
  "PUT_value head timestamp val =
     (if hsize head > 0 \<and> sint timestamp < sint (lastTimestamp head) then (False, head)
      else if hsize head \<ge> HEAD_CAPACITY then (False, head)
      else
        let head = head\<lparr>timestamps := store_at (timestamps head) (hsize head) timestamp\<rparr>;
            head = head\<lparr>lastTimestamp := timestamp\<rparr>;
            head = head\<lparr>hvalues := store_at (hvalues head) (hsize head) val\<rparr>
        in (True, head\<lparr>hsize := hsize head + 1\<rparr>))"

section \<open>The points of a head block\<close>

definition head_points :: "HeadBlock \<Rightarrow> point list" where
  "head_points h = zip (take (hsize h) (timestamps h)) (take (hsize h) (hvalues h))"

definition head_inv :: "HeadBlock \<Rightarrow> bool" where
  "head_inv h \<longleftrightarrow>
     hsize h \<le> HEAD_CAPACITY \<and> hsize h \<le> length (timestamps h) \<and>
     length (timestamps h) \<le> HEAD_CAPACITY \<and> length (hvalues h) = length (timestamps h) \<and>
     sorted (map sint (take (hsize h) (timestamps h))) \<and>
     (hsize h > 0 \<longrightarrow> lastTimestamp h = timestamps h ! (hsize h - 1))"

lemma length_head_points [simp]: "head_inv h \<Longrightarrow> length (head_points h) = hsize h"
  by (simp add: head_points_def head_inv_def)

lemma head_points_Nil: "hsize h = 0 \<Longrightarrow> head_points h = []"
  by (simp add: head_points_def)

lemma head_inv_empty [inv_intros]:
  "head_inv \<lparr>timestamps = [], hvalues = [], hsize = 0, lastTimestamp = t\<rparr>"
  by (simp add: head_inv_def HEAD_CAPACITY_def)

lemma head_inv_reset [inv_intros]: "head_inv h \<Longrightarrow> head_inv (h\<lparr>hsize := 0, lastTimestamp := t\<rparr>)"
  by (auto simp: head_inv_def)

lemma map_fst_head_points: "head_inv h \<Longrightarrow> map fst (head_points h) = take (hsize h) (timestamps h)"
  by (simp add: head_points_def head_inv_def)

lemma head_points_last:
  "head_inv h \<Longrightarrow> 0 < hsize h \<Longrightarrow> fst (last (head_points h)) = lastTimestamp h"
  by (subst last_conv_nth) (auto simp: head_points_def head_inv_def)

text \<open>When a point is accepted, it is the new last point; otherwise nothing changes.\<close>

definition accepts :: "HeadBlock \<Rightarrow> long \<Rightarrow> bool" where
  "accepts h t \<longleftrightarrow> hsize h < HEAD_CAPACITY \<and> (hsize h > 0 \<longrightarrow> sint (lastTimestamp h) \<le> sint t)"

lemma PUT_value_accepts: "fst (PUT_value h t v) = accepts h t"
  by (auto simp: PUT_value_def accepts_def Let_def)

lemma PUT_value_rejected: "\<not> accepts h t \<Longrightarrow> PUT_value h t v = (False, h)"
  by (auto simp: PUT_value_def accepts_def)

lemma sorted_snoc: "sorted (xs @ [x]) \<longleftrightarrow> sorted xs \<and> (xs \<noteq> [] \<longrightarrow> last xs \<le> (x :: int))"
  by (cases xs rule: rev_cases) (auto simp: sorted_append order.trans)

lemma PUT_value_accepted:
  assumes inv: "head_inv h" and acc: "accepts h t"
  shows "head_inv (snd (PUT_value h t v))"
    and "head_points (snd (PUT_value h t v)) = head_points h @ [(t, v)]"
    and "lastTimestamp (snd (PUT_value h t v)) = t"
proof -
  let ?n = "hsize h"
  define h' where "h' = snd (PUT_value h t v)"
  have h': "h' = h\<lparr>timestamps := store_at (timestamps h) ?n t, hvalues := store_at (hvalues h) ?n v,
      hsize := ?n + 1, lastTimestamp := t\<rparr>"
    using acc by (auto simp: h'_def PUT_value_def accepts_def Let_def)
  have len: "?n \<le> length (timestamps h)" "length (hvalues h) = length (timestamps h)"
    using inv by (auto simp: head_inv_def)
  have "sorted (map sint (take ?n (timestamps h)) @ [sint t])"
    using inv acc by (auto simp: sorted_snoc head_inv_def accepts_def last_conv_nth)
  then show "head_inv (snd (PUT_value h t v))"
    using inv acc len unfolding h'_def [symmetric] h'
    by (auto simp: head_inv_def accepts_def length_store_at)
  show "head_points (snd (PUT_value h t v)) = head_points h @ [(t, v)]"
    using len unfolding h'_def [symmetric] h' by (simp add: head_points_def)
  show "lastTimestamp (snd (PUT_value h t v)) = t"
    unfolding h'_def [symmetric] h' by simp
qed

lemma head_inv_PUT [inv_intros]: "head_inv h \<Longrightarrow> head_inv (snd (PUT_value h t v))"
  using PUT_value_accepted(1) PUT_value_rejected by (cases "accepts h t") auto

text \<open>C30: PUT_value accepts a point exactly when the block is not full and the timestamp is not
  below the last one; an accepted point becomes the last point of the block and the block stays
  sorted, and a rejected point leaves the block as it was.\<close>

theorem PUT_value_spec:
  assumes "head_inv h"
  shows "fst (PUT_value h t v) =
           (hsize h < HEAD_CAPACITY \<and> (hsize h > 0 \<longrightarrow> sint (lastTimestamp h) \<le> sint t)) \<and>
         head_inv (snd (PUT_value h t v)) \<and>
         (if fst (PUT_value h t v)
          then head_points (snd (PUT_value h t v)) = head_points h @ [(t, v)] \<and>
               lastTimestamp (snd (PUT_value h t v)) = t
          else snd (PUT_value h t v) = h)"
proof (cases "accepts h t")
  case True
  with PUT_value_accepted [OF assms True] PUT_value_accepts [of h t v] show ?thesis
    unfolding accepts_def by presburger
next
  case False
  with PUT_value_rejected [OF False, of v] PUT_value_accepts [of h t v] assms show ?thesis
    by (simp add: accepts_def)
qed

definition two_points :: HeadBlock where
  "two_points = \<lparr>timestamps = [10, 20], hvalues = [CDouble 0, CDouble 1], hsize = 2, lastTimestamp = 20\<rparr>"

theorem PUT_value_spec_witness:
  "head_points (snd (PUT_value two_points 20 (CDouble 2))) =
     [(10, CDouble 0), (20, CDouble 1), (20, CDouble 2)] \<and>
   PUT_value two_points 19 (CDouble 2) = (False, two_points)"
proof -
  have inv: "head_inv two_points" by (simp add: head_inv_def two_points_def HEAD_CAPACITY_def)
  from PUT_value_spec [OF inv, of 20 "CDouble 2"] PUT_value_spec [OF inv, of 19 "CDouble 2"] show ?thesis
    by (auto simp: two_points_def head_points_def HEAD_CAPACITY_def prod_eq_iff numeral_2_eq_2 split: if_splits)
qed

section \<open>Printing\<close>

definition longToString :: "allocator \<Rightarrow> long \<Rightarrow> string option" where
  "longToString mem x = (if mem 32 then Some (bounded 32 (show_int (sint x))) else None)"

definition doubleToString :: "allocator \<Rightarrow> cdouble \<Rightarrow> string option" where
  "doubleToString mem x = (if mem 32 then Some (bounded 32 (fmt_f 2 x)) else None)"

definition intToString :: "allocator \<Rightarrow> int \<Rightarrow> string option" where
  "intToString mem x = (if mem 32 then Some (bounded 32 (show_int x)) else None)"

definition tab :: string where "tab = [CHR 0x09]"
definition newline :: string where "newline = [CHR 0x0A]"

text \<open>
  One iteration of the loop of \<open>GET_value\<close> for a point in the interval, with the text written
  so far (its length is \<open>offset\<close>), the capacity of the buffer and the count. \<open>None\<close> is the
  return of \<open>NULL\<close>.
\<close>

definition GET_point ::
    "allocator \<Rightarrow> point \<Rightarrow> string \<times> nat \<times> int \<Rightarrow> (string \<times> nat \<times> int) option c_result" where
  "GET_point mem p st =
     (let (buf, capacity, sz) = st in
      case longToString mem (fst p) of
        None \<Rightarrow> Ret None
      | Some tmp \<Rightarrow>
        case doubleToString mem (snd p) of
          None \<Rightarrow> Ret None
        | Some tmp1 \<Rightarrow>
          let tmp = tmp @ tab @ tmp1 in
          if length tmp + 1 > 32 then UB HeapOverflow
          else
            let needed = length tmp + 2;
                grow = (length buf + needed \<ge> capacity);
                capacity = (if grow then capacity * 2 else capacity)
            in if grow \<and> \<not> mem capacity then Ret None
               else if length buf + length tmp + 2 > capacity then UB HeapOverflow
               else Ret (Some (buf @ tmp @ newline, capacity, sz + 1)))"

definition in_interval :: "long \<Rightarrow> long \<Rightarrow> point \<Rightarrow> bool" where
  "in_interval startTs endTs p \<longleftrightarrow> sint (fst p) \<ge> sint startTs \<and> sint (fst p) < sint endTs"

primrec GET_loop ::
    "allocator \<Rightarrow> long \<Rightarrow> long \<Rightarrow> point list \<Rightarrow> string \<times> nat \<times> int \<Rightarrow>
     (string \<times> nat \<times> int) option c_result" where
  "GET_loop mem startTs endTs [] st = Ret (Some st)"
| "GET_loop mem startTs endTs (p # pts) st =
     (if in_interval startTs endTs p then
        (case GET_point mem p st of
           UB u \<Rightarrow> UB u
         | Ret None \<Rightarrow> Ret None
         | Ret (Some st) \<Rightarrow> GET_loop mem startTs endTs pts st)
      else GET_loop mem startTs endTs pts st)"

definition GET_value ::
    "allocator \<Rightarrow> HeadBlock option \<Rightarrow> long \<Rightarrow> long \<Rightarrow> (string \<times> int) option c_result" where
  "GET_value mem headptr startTs endTs =
     (case headptr of None \<Rightarrow> Ret None | Some head \<Rightarrow>
      if \<not> mem 128 then Ret None
      else
        case GET_loop mem startTs endTs (head_points head) ([], 128, 0) of
          UB u \<Rightarrow> UB u
        | Ret None \<Rightarrow> Ret None
        | Ret (Some (buf, capacity, sz)) \<Rightarrow>
            if length buf + 2 > capacity then UB HeapOverflow
            else
              case intToString mem sz of
                None \<Rightarrow> Ret None
              | Some tmp \<Rightarrow>
                  let buf = buf @ ''('' @ tmp @ '' points)'' @ newline in
                  if length buf + 1 > capacity then UB HeapOverflow
                  else Ret (Some (buf, sz)))"

section \<open>Correctness of GET_value\<close>

definition point_line :: "point \<Rightarrow> string" where
  "point_line p = show_int (sint (fst p)) @ tab @ bounded 32 (fmt_f 2 (snd p)) @ newline"

definition count_line :: "string \<Rightarrow> nat \<Rightarrow> string" where
  "count_line unit n = ''('' @ show_int (int n) @ '' '' @ unit @ '')'' @ newline"

lemma show_long_length: "length (show_int (sint (t :: long))) < 32"
proof -
  have "length (show_dec (2 ^ 63)) = 19" by (simp add: show_dec.simps)
  moreover have "- (2 ^ 63) \<le> sint t" "sint t < 2 ^ 63"
    using sint_greater_eq [of t] sint_lt [of t] by simp_all
  ultimately show ?thesis
    using show_dec_length_mono [of "sint t" "2 ^ 63"] show_dec_length_mono [of "- sint t" "2 ^ 63"]
    by (auto simp: show_int_def)
qed

lemma longToString_Some: "mem 32 \<Longrightarrow> longToString mem t = Some (show_int (sint t))"
  by (simp add: longToString_def show_long_length)

definition interval_points :: "HeadBlock \<Rightarrow> long \<Rightarrow> long \<Rightarrow> point list" where
  "interval_points h startTs endTs = filter (in_interval startTs endTs) (head_points h)"

lemma bounded_count:
  assumes "n \<le> HEAD_CAPACITY"
  shows "bounded 32 (show_int (int n)) = show_int (int n)"
proof -
  have "length (show_dec 50000) = 5" by (simp add: show_dec.simps)
  with show_dec_length_mono [of "int n" 50000] assms show ?thesis
    by (simp add: show_int_def HEAD_CAPACITY_def)
qed

lemma GET_point_Some:
  assumes "GET_point mem p (buf, cap, sz) = Ret (Some st)"
  shows "\<exists>cap'. st = (buf @ point_line p, cap', sz + 1)"
  using assms
  by (auto simp: GET_point_def Let_def longToString_def doubleToString_def point_line_def
      show_long_length split: if_splits)

lemma GET_loop_Some:
  "GET_loop mem s e pts (buf, cap, sz) = Ret (Some (buf', cap', sz')) \<Longrightarrow>
     buf' = buf @ concat (map point_line (filter (in_interval s e) pts)) \<and>
     sz' = sz + int (length (filter (in_interval s e) pts))"
proof (induction pts arbitrary: buf cap sz)
  case Nil
  then show ?case by simp
next
  case (Cons p pts)
  show ?case
  proof (cases "in_interval s e p")
    case False
    with Cons show ?thesis by simp
  next
    case True
    with Cons.prems obtain st where st: "GET_point mem p (buf, cap, sz) = Ret (Some st)"
      "GET_loop mem s e pts st = Ret (Some (buf', cap', sz'))"
      by (auto split: c_result.splits option.splits)
    with GET_point_Some obtain cap1 where "st = (buf @ point_line p, cap1, sz + 1)" by blast
    with Cons.IH st(2) True show ?thesis by fastforce
  qed
qed

lemma GET_value_Some:
  assumes "head_inv h" and "GET_value mem (Some h) s e = Ret (Some (msg, n))"
  shows "msg = concat (map point_line (interval_points h s e)) @
               count_line ''points'' (length (interval_points h s e)) \<and>
         n = int (length (interval_points h s e))"
proof -
  have "length (interval_points h s e) \<le> HEAD_CAPACITY"
    using assms(1) length_filter_le [of "in_interval s e" "head_points h"]
    by (simp add: interval_points_def head_inv_def del: length_filter_le)
  then have "bounded 32 (show_int (int (length (interval_points h s e)))) =
      show_int (int (length (interval_points h s e)))" by (rule bounded_count)
  with assms(2) GET_loop_Some [of mem s e "head_points h" "[]" 128 0] show ?thesis
    by (auto simp: GET_value_def intToString_def interval_points_def count_line_def Let_def
        split: if_splits c_result.splits option.splits)
qed

lemma GET_value_count:
  assumes "head_inv h" and "GET_value mem (Some h) s e = Ret (Some (msg, n))"
  shows "n = int (length (interval_points h s e))"
  using GET_value_Some [OF assms] by simp

text \<open>Whatever GET_value returns is the text of exactly the points of the block inside the
  half-open interval, one line each in insertion order, followed by their number.\<close>

theorem GET_value_text:
  assumes "head_inv h" and "GET_value mem (Some h) s e = Ret (Some (msg, n))"
  shows "msg = concat (map point_line (interval_points h s e)) @
               count_line ''points'' (length (interval_points h s e)) \<and>
         n = int (length (interval_points h s e))"
  using assms by (rule GET_value_Some)

definition sample_head :: HeadBlock where
  "sample_head =
     \<lparr>timestamps = [1728000000, 1728000010, 1728000020],
      hvalues = [CDouble 0x4049000000000000, CDouble 0x3FF8000000000000, CDouble 0],
      hsize = 3, lastTimestamp = 1728000020\<rparr>"

lemma sample_head_inv: "head_inv sample_head"
  by (simp add: head_inv_def sample_head_def HEAD_CAPACITY_def)

theorem GET_value_text_witness:
  "\<exists>msg n. GET_value (\<lambda>_. True) (Some sample_head) 1728000000 1728000020 = Ret (Some (msg, n)) \<and>
     msg = ''1728000000'' @ tab @ ''50.00'' @ newline @ ''1728000010'' @ tab @ ''1.50'' @ newline @
           ''(2 points)'' @ newline \<and> n = 2"
proof -
  have "case GET_value (\<lambda>_. True) (Some sample_head) 1728000000 1728000020 of
      Ret (Some _) \<Rightarrow> True | _ \<Rightarrow> False"
    by code_simp
  then obtain msg n where
    ret: "GET_value (\<lambda>_. True) (Some sample_head) 1728000000 1728000020 = Ret (Some (msg, n))"
    by (auto split: c_result.splits option.splits)
  have "concat (map point_line (interval_points sample_head 1728000000 1728000020)) @
      count_line ''points'' (length (interval_points sample_head 1728000000 1728000020)) =
      ''1728000000'' @ tab @ ''50.00'' @ newline @ ''1728000010'' @ tab @ ''1.50'' @ newline @
      ''(2 points)'' @ newline"
    and "length (interval_points sample_head 1728000000 1728000020) = 2"
    by code_simp+
  with GET_value_text [OF sample_head_inv ret] ret show ?thesis by simp
qed

text \<open>While everything fits the first buffer of 128 bytes, no reallocation happens.\<close>

lemma GET_point_short:
  assumes "\<And>n. mem n" "length (point_line p) \<le> 32" "length buf + length (point_line p) + 1 < cap"
  shows "GET_point mem p (buf, cap, sz) = Ret (Some (buf @ point_line p, cap, sz + 1))"
  using assms
  by (simp add: GET_point_def longToString_Some doubleToString_def point_line_def Let_def newline_def tab_def)

lemma GET_loop_short:
  assumes mem: "\<And>n. mem n"
  shows "\<forall>p \<in> set (filter (in_interval s e) pts). length (point_line p) \<le> 32 \<Longrightarrow>
     length buf + length (concat (map point_line (filter (in_interval s e) pts))) + 1 < cap \<Longrightarrow>
     GET_loop mem s e pts (buf, cap, sz) =
       Ret (Some (buf @ concat (map point_line (filter (in_interval s e) pts)), cap,
                  sz + int (length (filter (in_interval s e) pts))))"
proof (induction pts arbitrary: buf sz)
  case Nil
  then show ?case by simp
next
  case (Cons p pts)
  show ?case
  proof (cases "in_interval s e p")
    case False
    with Cons show ?thesis by simp
  next
    case True
    with Cons.prems have "GET_point mem p (buf, cap, sz) = Ret (Some (buf @ point_line p, cap, sz + 1))"
      by (intro GET_point_short mem) auto
    with Cons.IH [of "buf @ point_line p" "sz + 1"] Cons.prems True show ?thesis by simp
  qed
qed

text \<open>For up to 126 bytes of point lines of ordinary width, GET_value returns its text exactly
  when the count line fits into the 128 bytes as well, and writes past the end of the buffer
  otherwise: the three appends of the count line are not checked against the capacity.\<close>

theorem GET_value_short:
  fixes h s e
  defines "ls \<equiv> concat (map point_line (interval_points h s e))"
    and "n \<equiv> length (interval_points h s e)"
  assumes "head_inv h" and "\<And>k. mem k"
    and "\<forall>p \<in> set (interval_points h s e). length (point_line p) \<le> 32" and "length ls \<le> 126"
  shows "GET_value mem (Some h) s e =
           (if length (ls @ count_line ''points'' n) < 128
            then Ret (Some (ls @ count_line ''points'' n, int n)) else UB HeapOverflow)"
proof -
  have loop: "GET_loop mem s e (head_points h) ([], 128, 0) = Ret (Some (ls, 128, int n))"
    using GET_loop_short [OF assms(4), where s = s and e = e and pts = "head_points h" and buf = "[]"
        and cap = 128 and sz = 0] assms(5,6)
    by (simp add: ls_def n_def interval_points_def)
  have "n \<le> HEAD_CAPACITY"
    using assms(3) length_filter_le [of "in_interval s e" "head_points h"]
    by (simp add: n_def interval_points_def head_inv_def del: length_filter_le)
  then have "intToString mem (int n) = Some (show_int (int n))"
    using assms(4) by (simp add: intToString_def bounded_count)
  with loop assms(4,6) show ?thesis
    by (auto simp: GET_value_def count_line_def Let_def)
qed

definition seven_points_head :: HeadBlock where
  "seven_points_head =
     \<lparr>timestamps = map (\<lambda>i. 1728000000 + of_nat i) [0..<7],
      hvalues = replicate 7 (CDouble 0x4049000000000000), hsize = 7, lastTimestamp = 1728000006\<rparr>"

theorem GET_value_short_witness:
  "GET_value (\<lambda>_. True) (Some seven_points_head) 1728000000 1728000007 = UB HeapOverflow"
proof -
  have inv: "head_inv seven_points_head"
    by (simp add: head_inv_def seven_points_head_def HEAD_CAPACITY_def) code_simp
  let ?pts = "interval_points seven_points_head 1728000000 1728000007"
  have shown: "map point_line ?pts = map (\<lambda>c. ''172800000'' @ c # tab @ ''50.00'' @ newline) ''0123456''"
    by code_simp
  then have all: "\<forall>l \<in> set (map point_line ?pts). length l \<le> 32"
    by (simp add: tab_def newline_def)
  then have lines: "\<forall>p \<in> set ?pts. length (point_line p) \<le> 32" by simp
  have seven: "length ?pts = 7" using arg_cong [OF shown, of length] by simp
  have "show_int 7 = ''7''" by code_simp
  then have size: "length (concat (map point_line ?pts)) \<le> 126"
    and over: "\<not> length (concat (map point_line ?pts) @ count_line ''points'' (length ?pts)) < 128"
    unfolding shown seven by (simp_all add: tab_def newline_def count_line_def)
  from GET_value_short [OF inv _ lines size, of "\<lambda>_. True"] over show ?thesis by simp
qed

end
