(* ===== verification/Wal.thy ===== *)
theory Wal
  imports Head
begin

text \<open>
  The write-ahead log of a metric, \<^verbatim>\<open>src/wal.c\<close>: a file of records of 16 bytes, a timestamp
  and the pattern of a double. \<open>wal_append\<close> adds one record, \<open>wal_replay\<close> puts the records that
  are newer than the head block into it, \<open>wal_truncate\<close> removes the file.

  The locale \<open>append_log\<close> is what the engine relies on: a record that was appended is the last
  record of the log.
\<close>

section \<open>Records\<close>

definition wal_record :: "point \<Rightarrow> byte list" where
  "wal_record p = le_bytes 8 (fst p) @ le_bytes 8 (dbits (snd p))"

definition build_wal_path :: "nat \<Rightarrow> string \<Rightarrow> string \<Rightarrow> string" where
  "build_wal_path outsz dataDir metric = bounded outsz (dataDir @ ''/'' @ metric @ ''/wal.log'')"

definition ensure_metric_dir :: "string \<Rightarrow> string \<Rightarrow> disk \<Rightarrow> disk" where
  "ensure_metric_dir dataDir metric d = mkdir (bounded 512 (dataDir @ ''/'' @ metric)) d"

definition wal_append :: "string \<Rightarrow> string \<Rightarrow> long \<Rightarrow> cdouble \<Rightarrow> disk \<Rightarrow> disk" where
  "wal_append dataDir metric ts val d =
     (let d = ensure_metric_dir dataDir metric d;
          path = build_wal_path 512 dataDir metric
      in case fopen_ab path d of
           None \<Rightarrow> d
         | Some d \<Rightarrow>
             let (n, d) = fwrite path (le_bytes 8 ts) 8 d in
             if n \<noteq> 1 then d else snd (fwrite path (le_bytes 8 (dbits val)) 8 d))"

text \<open>The body of the loop of \<open>wal_replay\<close>, and the loop over the bytes of the file.\<close>

definition replay_record :: "point \<Rightarrow> HeadBlock \<times> int \<Rightarrow> HeadBlock \<times> int" where
  "replay_record p st =
     (let (head, replayed) = st; (ts, val) = p in
      if sint ts \<le> sint (lastTimestamp head) then (head, replayed)
      else let (ok, head) = PUT_value head ts val
           in (head, if ok then replayed + 1 else replayed))"

function replay_loop :: "byte list \<Rightarrow> HeadBlock \<times> int \<Rightarrow> HeadBlock \<times> int" where
  "replay_loop bs st =
     (if length bs < 8 then st
      else
        let ts64 = word_of_le (take 8 bs); bs = drop 8 bs in
        if length bs < 8 then st
        else
          let val = CDouble (word_of_le (take 8 bs)); bs = drop 8 bs
          in replay_loop bs (replay_record (ts64, val) st))"
  by pat_completeness auto
termination
  by (relation "measure (\<lambda>(bs, _). length bs)") (auto simp: Let_def)

declare replay_loop.simps [simp del]

definition wal_replay :: "string \<Rightarrow> string \<Rightarrow> disk \<Rightarrow> HeadBlock \<Rightarrow> HeadBlock" where
  "wal_replay dataDir metric d head =
     (case fopen_rb (build_wal_path 512 dataDir metric) d of
        None \<Rightarrow> head
      | Some bs \<Rightarrow> fst (replay_loop bs (head, 0)))"

definition wal_truncate :: "string \<Rightarrow> string \<Rightarrow> disk \<Rightarrow> disk" where
  "wal_truncate dataDir metric d = snd (remove_file (build_wal_path 512 dataDir metric) d)"

section \<open>The records of a log\<close>

function records_of :: "byte list \<Rightarrow> point list" where
  "records_of bs =
     (if length bs < 16 then []
      else (word_of_le (take 8 bs), CDouble (word_of_le (take 8 (drop 8 bs)))) # records_of (drop 16 bs))"
  by pat_completeness auto
termination
  by (relation "measure length") auto

declare records_of.simps [simp del]

definition wal_contents :: "string \<Rightarrow> string \<Rightarrow> disk \<Rightarrow> point list" where
  "wal_contents dataDir metric d =
     (case files d (build_wal_path 512 dataDir metric) of None \<Rightarrow> [] | Some bs \<Rightarrow> records_of bs)"

lemma length_wal_record [simp]: "length (wal_record p) = 16"
  by (simp add: wal_record_def)

lemma records_of_short [simp]: "length bs < 16 \<Longrightarrow> records_of bs = []"
  by (simp add: records_of.simps)

lemma records_of_Cons [simp]: "records_of (wal_record p @ bs) = p # records_of bs"
  by (subst records_of.simps) (simp add: wal_record_def)

lemma records_of_append:
  "length xs mod 16 = 0 \<Longrightarrow> records_of (xs @ ys) = records_of xs @ records_of ys"
proof (induction xs rule: records_of.induct)
  case (1 xs)
  show ?case
  proof (cases "length xs < 16")
    case True
    with 1(2) have "xs = []" by simp
    then show ?thesis by simp
  next
    case False
    with 1(2) have "length (drop 16 xs) mod 16 = 0" by (simp add: le_mod_geq)
    with 1(1) [OF False] False show ?thesis
      by (simp add: records_of.simps [of "xs @ ys"] records_of.simps [of xs])
  qed
qed

lemma records_of_image [simp]: "records_of (concat (map wal_record ps)) = ps"
  by (induction ps) simp_all

lemma length_concat_records [simp]: "length (concat (map wal_record ps)) = 16 * length ps"
  by (induction ps) simp_all

lemma records_of_torn:
  "records_of (take k (concat (map wal_record ps))) = take (k div 16) ps"
proof (induction ps arbitrary: k)
  case Nil
  then show ?case by simp
next
  case (Cons p ps)
  show ?case
  proof (cases "k < 16")
    case True
    then show ?thesis by simp
  next
    case False
    then have "k div 16 = Suc ((k - 16) div 16)" by (simp add: le_div_geq)
    with False Cons [of "k - 16"] show ?thesis by simp
  qed
qed

lemma replay_loop_records: "replay_loop bs st = fold replay_record (records_of bs) st"
proof (induction bs st rule: replay_loop.induct)
  case (1 bs st)
  show ?case
  proof (cases "length bs < 16")
    case True
    then show ?thesis by (auto simp: replay_loop.simps [of bs] Let_def)
  next
    case False
    then have "\<not> length bs < 8" "\<not> length (drop 8 bs) < 8" by auto
    with 1 False show ?thesis
      by (simp add: replay_loop.simps [of bs] records_of.simps [of bs] Let_def)
  qed
qed

section \<open>Appending\<close>

definition wal_old :: "string \<Rightarrow> disk \<Rightarrow> byte list" where
  "wal_old path d = (case files d path of None \<Rightarrow> [] | Some bs \<Rightarrow> bs)"

text \<open>
  What the log of a metric needs to take \<open>n\<close> more records: a path that is not cut off, that
  the system lets the engine open, in a directory that exists or can be made, space on the
  device, and no torn record at the end of the file.
\<close>

definition wal_ready :: "string \<Rightarrow> string \<Rightarrow> nat \<Rightarrow> disk \<Rightarrow> bool" where
  "wal_ready dataDir metric n d \<longleftrightarrow>
     (let dir = dataDir @ ''/'' @ metric; path = dir @ ''/wal.log''
      in length path < 512 \<and> \<not> denied d path \<and> \<not> dirs d path \<and> dirs (mkdir dir d) dir \<and>
         16 * n \<le> room d \<and>
         length (wal_old path d) mod 16 = 0)"

lemma wal_path [simp]:
  "length (dataDir @ ''/'' @ metric @ ''/wal.log'') < 512 \<Longrightarrow>
     build_wal_path 512 dataDir metric = dataDir @ ''/'' @ metric @ ''/wal.log''"
  by (simp add: build_wal_path_def)

lemma dirname_wal: "dirname (dataDir @ ''/'' @ metric @ ''/wal.log'') = dataDir @ ''/'' @ metric"
  using dirname_append [of "''wal.log''" "dataDir @ ''/'' @ metric"] by simp

lemma mkdir_other: "q \<noteq> p \<Longrightarrow> dirs (mkdir p d) q = dirs d q"
  by (simp add: mkdir_def)

lemma mkdir_again: "dirs (mkdir p d) p \<Longrightarrow> dirs d' = dirs (mkdir p d) \<Longrightarrow> dirs (mkdir p d') p"
  by (simp add: mkdir_dirs)

lemma wal_append_ready:
  fixes dataDir metric d
  defines "path \<equiv> dataDir @ ''/'' @ metric @ ''/wal.log''"
  assumes "length path < 512" "\<not> denied d path" "\<not> dirs d path"
    and "dirs (mkdir (dataDir @ ''/'' @ metric) d) (dataDir @ ''/'' @ metric)" and "16 \<le> room d"
  shows "wal_append dataDir metric t v d =
     (mkdir (dataDir @ ''/'' @ metric) d)
       \<lparr>files := (files d)(path \<mapsto> wal_old path d @ wal_record (t, v)), room := room d - 16\<rparr>"
proof -
  let ?dir = "dataDir @ ''/'' @ metric" and ?m = "mkdir (dataDir @ ''/'' @ metric) d"
  have dir: "ensure_metric_dir dataDir metric d = ?m"
    using assms(2) by (simp add: ensure_metric_dir_def path_def)
  have "path \<noteq> ?dir" by (simp add: path_def)
  then have "\<not> dirs ?m path" using assms(4) by (simp add: mkdir_other)
  then have "fopen_ab path ?m = Some (?m\<lparr>files := (files d)(path \<mapsto> wal_old path d)\<rparr>)"
    using assms(3,5) dirname_wal [of dataDir metric]
    by (auto simp: fopen_ab_def parent_exists_def path_def wal_old_def split: option.split
        intro!: disk.equality)
  moreover have "build_wal_path 512 dataDir metric = path"
    using assms(2) by (simp add: path_def)
  ultimately show ?thesis
    using assms(2,6) dir by (simp add: wal_append_def fwrite_def Let_def wal_record_def min_def)
qed

lemma wal_append_readyD:
  assumes "wal_ready dataDir metric (Suc n) d"
  shows "wal_ready dataDir metric n (wal_append dataDir metric t v d)"
    and "wal_contents dataDir metric (wal_append dataDir metric t v d) =
           wal_contents dataDir metric d @ [(t, v)]"
proof -
  let ?p = "dataDir @ ''/'' @ metric @ ''/wal.log''"
  have ready: "length ?p < 512" "\<not> denied d ?p" "\<not> dirs d ?p" "16 \<le> room d"
    "dirs (mkdir (dataDir @ ''/'' @ metric) d) (dataDir @ ''/'' @ metric)"
    and aligned: "length (wal_old ?p d) mod 16 = 0" and space: "16 * Suc n \<le> room d"
    using assms by (simp_all add: wal_ready_def Let_def)
  note app = wal_append_ready [OF ready(1-3,5,4), of t v]
  have "?p \<noteq> dataDir @ ''/'' @ metric" by simp
  with ready aligned space show "wal_ready dataDir metric n (wal_append dataDir metric t v d)"
    unfolding app by (simp add: wal_ready_def wal_old_def Let_def mkdir_other mkdir_dirs)
  show "wal_contents dataDir metric (wal_append dataDir metric t v d) =
      wal_contents dataDir metric d @ [(t, v)]"
    using ready(1) aligned records_of_Cons [of "(t, v)" "[]"] unfolding app
    by (auto simp: wal_contents_def wal_old_def records_of_append split: option.splits)
qed

locale append_log =
  fixes append :: "'p \<Rightarrow> 'd \<Rightarrow> 'd"
    and contents :: "'d \<Rightarrow> 'p list"
    and ready :: "nat \<Rightarrow> 'd \<Rightarrow> bool"
  assumes contents_append: "ready (Suc n) d \<Longrightarrow> contents (append p d) = contents d @ [p]"
    and ready_append: "ready (Suc n) d \<Longrightarrow> ready n (append p d)"
begin

lemma appends:
  "ready (length ps + n) d \<Longrightarrow> contents (fold append ps d) = contents d @ ps \<and> ready n (fold append ps d)"
proof (induction ps arbitrary: d)
  case Nil
  then show ?case by simp
next
  case (Cons p ps)
  then have "ready (Suc (length ps + n)) d" by simp
  from Cons.IH [OF ready_append [OF this]] contents_append [OF this] show ?case by simp
qed

lemma contents_appends: "ready (length ps) d \<Longrightarrow> contents (fold append ps d) = contents d @ ps"
  using appends [of ps 0 d] by simp

end

interpretation wal: append_log
  "\<lambda>(t, v). wal_append dataDir metric t v" "wal_contents dataDir metric" "wal_ready dataDir metric"
  for dataDir metric
  by unfold_locales (auto simp: wal_append_readyD)

text \<open>The bytes of the file after appending to it.\<close>

lemma wal_appends_bytes:
  "wal_ready dataDir metric (length ps) d \<Longrightarrow>
     wal_old (build_wal_path 512 dataDir metric) (fold (\<lambda>(t, v). wal_append dataDir metric t v) ps d) =
       wal_old (build_wal_path 512 dataDir metric) d @ concat (map wal_record ps)"
proof (induction ps arbitrary: d)
  case Nil
  then show ?case by simp
next
  case (Cons p ps)
  obtain t v where p: "p = (t, v)" by force
  let ?p = "dataDir @ ''/'' @ metric @ ''/wal.log''" and ?d = "wal_append dataDir metric t v d"
  from Cons.prems have ready: "length ?p < 512" "\<not> denied d ?p" "\<not> dirs d ?p"
    "dirs (mkdir (dataDir @ ''/'' @ metric) d) (dataDir @ ''/'' @ metric)" "16 \<le> room d"
    by (simp_all add: wal_ready_def Let_def)
  then have "wal_old ?p ?d = wal_old ?p d @ wal_record (t, v)"
    using wal_append_ready [OF ready, of t v] by (simp add: wal_old_def)
  with Cons.IH [of ?d] wal_append_readyD(1) [of dataDir metric "length ps" d t v] Cons.prems ready(1)
  show ?case by (simp add: p)
qed

lemma wal_appends_image:
  "wal_ready dataDir metric (length ps) d \<Longrightarrow> wal_old (build_wal_path 512 dataDir metric) d = [] \<Longrightarrow>
     wal_old (build_wal_path 512 dataDir metric) (fold (\<lambda>(t, v). wal_append dataDir metric t v) ps d) =
       concat (map wal_record ps)"
  by (simp add: wal_appends_bytes)

section \<open>Replaying\<close>

text \<open>The points a replay keeps: those newer than everything before them.\<close>

primrec newer :: "long \<Rightarrow> point list \<Rightarrow> point list" where
  "newer t [] = []"
| "newer t (p # ps) =
     (if sint (fst p) \<le> sint t then newer t ps else p # newer (fst p) ps)"

lemma length_newer: "length (newer t ps) \<le> length ps"
  by (induction ps arbitrary: t) (auto intro: le_SucI)

lemma newer_increasing:
  "sorted_wrt (<) (map (sint \<circ> fst) ps) \<Longrightarrow> \<forall>p \<in> set ps. sint t < sint (fst p) \<Longrightarrow> newer t ps = ps"
  by (induction ps arbitrary: t) auto

lemma newer_properties:
  "sorted_wrt (<) (map (sint \<circ> fst) (newer t ps)) \<and> (\<forall>p \<in> set (newer t ps). sint t < sint (fst p))"
proof (induction ps arbitrary: t)
  case Nil
  then show ?case by simp
next
  case (Cons p ps)
  from Cons [of "fst p"] Cons [of t] show ?case
    by (cases "sint (fst p) \<le> sint t") (simp_all add: ball_conj_distrib, fastforce)
qed

lemma newer_all_iff:
  "newer t ps = ps \<longleftrightarrow>
     sorted_wrt (<) (map (sint \<circ> fst) ps) \<and> (\<forall>p \<in> set ps. sint t < sint (fst p))"
  using newer_increasing newer_properties by metis

lemma replay_record_old: "sint (fst p) \<le> sint (lastTimestamp h) \<Longrightarrow> replay_record p (h, n) = (h, n)"
  by (simp add: replay_record_def split_def)

lemma replay_record_newer:
  assumes "\<not> sint (fst p) \<le> sint (lastTimestamp h)"
  shows "\<exists>n'. replay_record p (h, n) = (snd (PUT_value h (fst p) (snd p)), n')"
  using assms by (simp add: replay_record_def split_def Let_def)

lemma replay_fold:
  "head_inv h \<Longrightarrow>
     head_inv (fst (fold replay_record ps (h, n))) \<and>
     head_points (fst (fold replay_record ps (h, n))) =
       head_points h @ take (HEAD_CAPACITY - hsize h) (newer (lastTimestamp h) ps)"
proof (induction ps arbitrary: h n)
  case Nil
  then show ?case by simp
next
  case (Cons p ps)
  consider "sint (fst p) \<le> sint (lastTimestamp h)"
    | "\<not> sint (fst p) \<le> sint (lastTimestamp h)" "accepts h (fst p)"
    | "\<not> sint (fst p) \<le> sint (lastTimestamp h)" "hsize h = HEAD_CAPACITY"
    using Cons.prems unfolding accepts_def head_inv_def by linarith
  then show ?case
  proof cases
    case 1
    with Cons show ?thesis by (simp add: replay_record_old)
  next
    case 2
    note acc = PUT_value_accepted [OF Cons.prems 2(2), of "snd p"]
    have "hsize (snd (PUT_value h (fst p) (snd p))) = hsize h + 1"
      using arg_cong [OF acc(2), of length] Cons.prems acc(1) by simp
    moreover have "HEAD_CAPACITY - hsize h = Suc (HEAD_CAPACITY - (hsize h + 1))"
      using 2(2) unfolding accepts_def by linarith
    moreover obtain n' where "replay_record p (h, n) = (snd (PUT_value h (fst p) (snd p)), n')"
      using replay_record_newer [OF 2(1)] by blast
    ultimately show ?thesis using 2(1) Cons.IH [OF acc(1), of n'] acc(2,3) by simp
  next
    case 3
    then have "\<not> accepts h (fst p)" by (simp add: accepts_def)
    then have "PUT_value h (fst p) (snd p) = (False, h)" by (rule PUT_value_rejected)
    with replay_record_newer [OF 3(1), of n] obtain n' where "replay_record p (h, n) = (h, n')" by auto
    with 3 Cons show ?thesis by simp
  qed
qed

lemma wal_replay_points:
  assumes "head_inv h" and "\<not> denied d (build_wal_path 512 dataDir metric)"
  shows "head_inv (wal_replay dataDir metric d h)"
    and "head_points (wal_replay dataDir metric d h) =
      head_points h @ take (HEAD_CAPACITY - hsize h) (newer (lastTimestamp h) (wal_contents dataDir metric d))"
  using replay_fold [OF assms(1)] assms
  by (auto simp: wal_replay_def fopen_rb_def wal_contents_def replay_loop_records split: option.split)

section \<open>Properties\<close>

text \<open>C25: after points were appended to an empty log and a crash kept only the first k bytes of
  the file, replaying into a head block with room recovers, in order, of the first k div 16
  points those that are newer than everything before them; a torn record is ignored.\<close>

theorem wal_crash_recovery:
  fixes dataDir metric ps k
  defines "logged \<equiv> \<lambda>d. fold (\<lambda>(t, v). wal_append dataDir metric t v) ps d"
  assumes "wal_ready dataDir metric (length ps) d" and "wal_old (build_wal_path 512 dataDir metric) d = []"
    and "head_inv h" and "hsize h + length ps \<le> HEAD_CAPACITY"
    and crash: "files d' (build_wal_path 512 dataDir metric) =
        Some (take k (wal_old (build_wal_path 512 dataDir metric) (logged d)))"
    and "\<not> denied d' (build_wal_path 512 dataDir metric)"
  shows "head_inv (wal_replay dataDir metric d' h) \<and>
    head_points (wal_replay dataDir metric d' h) =
      head_points h @ newer (lastTimestamp h) (take (k div 16) ps)"
proof -
  have "wal_old (build_wal_path 512 dataDir metric) (logged d) = concat (map wal_record ps)"
    unfolding logged_def by (rule wal_appends_image [OF assms(2,3)])
  then have "wal_contents dataDir metric d' = take (k div 16) ps"
    using crash by (simp add: wal_contents_def records_of_torn)
  moreover have "length (newer (lastTimestamp h) (take (k div 16) ps)) \<le> HEAD_CAPACITY - hsize h"
    using length_newer [of "lastTimestamp h" "take (k div 16) ps"] assms(5) by simp linarith
  ultimately show ?thesis using wal_replay_points [OF assms(4,7)] by simp
qed

lemma sample_wal_ready: "n \<le> 4 \<Longrightarrow> wal_ready ''data'' ''cpu'' n sample_disk"
  by (simp add: wal_ready_def wal_old_def sample_disk_def Let_def mkdir_dirs)

definition three_points :: "point list" where
  "three_points = [(100, CDouble 1), (110, CDouble 2), (110, CDouble 3)]"

definition empty_head :: "long \<Rightarrow> HeadBlock" where
  "empty_head t = \<lparr>timestamps = [], hvalues = [], hsize = 0, lastTimestamp = t\<rparr>"

lemma head_inv_empty_head [inv_intros]: "head_inv (empty_head t)"
  by (simp add: empty_head_def inv_intros)

lemma empty_head_simps [simp]:
  "head_points (empty_head t) = []" "hsize (empty_head t) = 0" "lastTimestamp (empty_head t) = t"
  by (simp_all add: empty_head_def head_points_def)

theorem wal_crash_recovery_witness:
  "head_points (wal_replay ''data'' ''cpu''
     (sample_disk\<lparr>files := [''data/cpu/wal.log'' \<mapsto> take 41 (concat (map wal_record three_points))]\<rparr>)
     (empty_head 0)) = [(100, CDouble 1), (110, CDouble 2)]"
proof -
  let ?path = "build_wal_path 512 ''data'' ''cpu''"
  have path: "?path = ''data/cpu/wal.log''" by (simp add: build_wal_path_def)
  have empty: "wal_old ?path sample_disk = []" by (simp add: wal_old_def sample_disk_def)
  have ready: "wal_ready ''data'' ''cpu'' (length three_points) sample_disk"
    by (rule sample_wal_ready) (simp add: three_points_def)
  let ?d = "sample_disk\<lparr>files := [?path \<mapsto> take 41 (concat (map wal_record three_points))]\<rparr>"
  have crash: "files ?d ?path = Some (take 41 (wal_old ?path
      (fold (\<lambda>(t, v). wal_append ''data'' ''cpu'' t v) three_points sample_disk)))"
    by (simp add: path wal_appends_image [OF ready empty, unfolded path])
  have usable: "\<not> denied ?d ?path" by (simp add: sample_disk_def)
  have "newer 0 (take (41 div 16) three_points) = [(100, CDouble 1), (110, CDouble 2)]"
    by (simp add: three_points_def numeral_2_eq_2)
  with wal_crash_recovery [OF ready empty head_inv_empty_head _ crash usable, of 0]
  show ?thesis by (simp add: path three_points_def HEAD_CAPACITY_def)
qed

text \<open>Replaying an undamaged log restores all the points that were appended to it exactly when
  their timestamps are strictly increasing and above the last timestamp of the head block. Points
  with a timestamp equal to the one before, which PUT_value accepts, are not recovered.\<close>

theorem wal_recovery_complete_iff:
  assumes "wal_ready dataDir metric (length ps) d" and "wal_contents dataDir metric d = []"
    and "length ps \<le> HEAD_CAPACITY" and "d' = fold (\<lambda>(t, v). wal_append dataDir metric t v) ps d"
    and "\<not> denied d' (build_wal_path 512 dataDir metric)"
  shows "head_points (wal_replay dataDir metric d' (empty_head t0)) = ps \<longleftrightarrow>
    sorted_wrt (<) (map (sint \<circ> fst) ps) \<and> (\<forall>p \<in> set ps. sint t0 < sint (fst p))"
proof -
  have "wal_contents dataDir metric d' = ps"
    using wal.contents_appends [OF assms(1)] assms(2,4) by simp
  moreover have "length (newer t0 ps) \<le> HEAD_CAPACITY" using length_newer [of t0 ps] assms(3) by linarith
  ultimately show ?thesis
    using wal_replay_points(2) [OF head_inv_empty_head assms(5)] by (simp add: newer_all_iff)
qed

lemma wal_appends_denied:
  "wal_ready dataDir metric (length ps) d \<Longrightarrow>
     denied (fold (\<lambda>(t, v). wal_append dataDir metric t v) ps d) = denied d"
proof (induction ps arbitrary: d)
  case Nil
  then show ?case by simp
next
  case (Cons p ps)
  obtain t v where p: "p = (t, v)" by force
  from Cons.prems have "denied (wal_append dataDir metric t v d) = denied d"
    using wal_append_ready [of dataDir metric d t v] by (simp add: wal_ready_def Let_def)
  with Cons.IH [of "wal_append dataDir metric t v d"] Cons.prems
    wal_append_readyD(1) [of dataDir metric "length ps" d t v]
  show ?case by (simp add: p)
qed

theorem wal_recovery_complete_iff_witness:
  "head_points (wal_replay ''data'' ''cpu''
      (fold (\<lambda>(t, v). wal_append ''data'' ''cpu'' t v) (take 2 three_points) sample_disk) (empty_head 0)) =
     take 2 three_points \<and>
   head_points (wal_replay ''data'' ''cpu''
      (fold (\<lambda>(t, v). wal_append ''data'' ''cpu'' t v) three_points sample_disk) (empty_head 0)) \<noteq>
     three_points"
proof -
  have ready: "wal_ready ''data'' ''cpu'' (length ps) sample_disk" if "length ps \<le> 4" for ps :: "point list"
    using that by (rule sample_wal_ready)
  have empty: "wal_contents ''data'' ''cpu'' sample_disk = []" by (simp add: wal_contents_def sample_disk_def)
  have usable: "\<not> denied (fold (\<lambda>(t, v). wal_append ''data'' ''cpu'' t v) ps sample_disk) p"
    if "length ps \<le> 4" for ps p
    using wal_appends_denied [OF ready [OF that]] by (simp add: sample_disk_def)
  note complete = wal_recovery_complete_iff [OF ready empty _ refl usable, where ?t0.0 = 0]
  from complete [of "take 2 three_points"] complete [of three_points] show ?thesis
    by (simp add: three_points_def HEAD_CAPACITY_def numeral_2_eq_2)
qed

text \<open>wal_replay leaves a torn record in the file, and wal_append goes on behind it: the next
  record that is appended is read as a mixture of the torn bytes and its own first bytes.\<close>

theorem wal_torn_tail_kept:
  fixes dataDir metric
  defines "path \<equiv> dataDir @ ''/'' @ metric @ ''/wal.log''"
  assumes "length path < 512" "\<not> denied d path" "\<not> dirs d path"
    and "dirs (mkdir (dataDir @ ''/'' @ metric) d) (dataDir @ ''/'' @ metric)" and "16 \<le> room d"
    and "files d path = Some (concat (map wal_record ps) @ torn)" and "0 < length torn" "length torn < 16"
  shows "wal_contents dataDir metric d = ps \<and>
    wal_contents dataDir metric (wal_append dataDir metric t v d) =
      ps @ records_of (take 16 (torn @ wal_record (t, v)))"
proof -
  note app = wal_append_ready [of dataDir metric d t v, folded path_def, OF assms(2-6)]
  have path: "build_wal_path 512 dataDir metric = path" using assms(2) by (simp add: path_def)
  let ?tail = "torn @ wal_record (t, v)"
  have "records_of ?tail = records_of (take 16 ?tail @ drop 16 ?tail)" by (simp only: append_take_drop_id)
  also have "\<dots> = records_of (take 16 ?tail)"
    using assms(9) by (subst records_of_append) simp_all
  finally show ?thesis
    using assms(7-9) unfolding app
    by (simp add: wal_contents_def path wal_old_def records_of_append)
qed

theorem wal_torn_tail_kept_witness:
  "wal_contents ''data'' ''cpu'' (wal_append ''data'' ''cpu'' 0x0102 (CDouble 0)
      (sample_disk\<lparr>files := [''data/cpu/wal.log'' \<mapsto> [7]]\<rparr>)) = [(0x010207, CDouble 0)]"
proof -
  let ?d = "sample_disk\<lparr>files := [''data/cpu/wal.log'' \<mapsto> [7]]\<rparr>"
  have "records_of (take 16 ([7] @ wal_record (0x0102, CDouble 0))) = [(0x010207, CDouble 0)]"
    by code_simp
  with wal_torn_tail_kept [of "''data''" "''cpu''" ?d "[]" "[7]" "0x0102" "CDouble 0"] show ?thesis
    by (simp add: sample_disk_def mkdir_dirs)
qed

end
