(* ===== verification/Registry.thy ===== *)
theory Registry
  imports Wal
begin

text \<open>
  The registry of metrics, \<^verbatim>\<open>src/registry.c\<close>: every metric has a head block and the list of
  its chunk files. \<open>Head_PUT\<close> and \<open>headflush\<close> are functions on the engine, the registry together
  with the disk. This is the sequential behaviour of one request; \<^verbatim>\<open>Locks\<close> has the locks.

  The hash table is the list of its entries in the order of insertion, which is the order
  \<open>HASH_ITER\<close> walks it, and a pointer to an entry or to its head block is the index of the entry;
  \<^verbatim>\<open>Registry_Hash\<close> shows this of the table itself.
  The results of \<open>malloc\<close> and \<open>realloc\<close> that the code does not test are taken to succeed, except
  for a size that is negative as an \<open>int16_t\<close>, which no allocator can serve. \<open>junk\<close> is the value
  of the \<open>lastTimestamp\<close> field that \<open>getNewHeadBlock\<close> leaves unset.
\<close>

section \<open>State\<close>

record ChunkMetadata =
  start_ts :: long
  end_ts :: long
  filename :: string

record metric_registry =
  mkey :: string
  mhead :: "HeadBlock option"
  chunks :: "ChunkMetadata list"
  chunkCount :: nat
  chunkCapacity :: int

record engine =
  registry :: "metric_registry list"
  store :: disk

section \<open>Operations\<close>

primrec registry_find :: "string \<Rightarrow> metric_registry list \<Rightarrow> nat option" where
  "registry_find key [] = None"
| "registry_find key (en # reg) =
     (if mkey en = key then Some 0 else map_option Suc (registry_find key reg))"

definition new_entry :: "allocator \<Rightarrow> long \<Rightarrow> string \<Rightarrow> metric_registry" where
  "new_entry mem junk key =
     \<lparr>mkey = bounded 64 key, mhead = getNewHeadBlock mem junk, chunks = [],
      chunkCount = 0, chunkCapacity = 4\<rparr>"

definition entry_head :: "metric_registry list \<Rightarrow> nat \<Rightarrow> nat option" where
  "entry_head reg i = (if mhead (reg ! i) = None then None else Some i)"

text \<open>The head block of a metric and the registry, which may have a new entry.\<close>

definition getMetricFromHashTable ::
    "allocator \<Rightarrow> long \<Rightarrow> string \<Rightarrow> bool \<Rightarrow> metric_registry list \<Rightarrow>
     (nat option \<times> metric_registry list) c_result" where
  "getMetricFromHashTable mem junk key create reg =
     (case registry_find key reg of
        Some i \<Rightarrow> Ret (entry_head reg i, reg)
      | None \<Rightarrow>
          if create then
            let reg' = reg @ [new_entry mem junk key] in Ret (entry_head reg' (length reg), reg')
          else UB NullDeref)"

definition head_at :: "engine \<Rightarrow> nat \<Rightarrow> HeadBlock" where
  "head_at e i = the (mhead (registry e ! i))"

definition set_head :: "engine \<Rightarrow> nat \<Rightarrow> HeadBlock \<Rightarrow> engine" where
  "set_head e i h = e\<lparr>registry := (registry e)[i := (registry e ! i)\<lparr>mhead := Some h\<rparr>]\<rparr>"

text \<open>\<open>chunkCapacity *= 2\<close> is stored back into 16 bits.\<close>

definition record_chunk :: "metric_registry \<Rightarrow> ChunkMetadata \<Rightarrow> metric_registry c_result" where
  "record_chunk en cm =
     (let full = (int (chunkCount en) \<ge> chunkCapacity en);
          cap = (if full then sint (of_int (chunkCapacity en * 2) :: 16 word) else chunkCapacity en)
      in if full \<and> cap < 0 then UB NullDeref
         else if int (chunkCount en) \<ge> cap then UB HeapOverflow
         else Ret (en\<lparr>chunkCapacity := cap, chunks := store_at (chunks en) (chunkCount en) cm,
                      chunkCount := chunkCount en + 1\<rparr>))"

definition chunk_id :: "HeadBlock \<Rightarrow> u32" where
  "chunk_id h = ucast (timestamps h ! 0)"

definition chunk_path :: "string \<Rightarrow> string \<Rightarrow> u32 \<Rightarrow> string" where
  "chunk_path dataDir metric cid =
     (let metricDir = bounded 256 (dataDir @ ''/'' @ metric)
      in bounded 256 (metricDir @ ''/'' @ metric @ ''_'' @ show_int (uint cid) @ ''.chunk''))"

definition headflush ::
    "allocator \<Rightarrow> long \<Rightarrow> string \<Rightarrow> string \<Rightarrow> engine \<Rightarrow> (bool \<times> engine) c_result" where
  "headflush mem junk metricname dataDir e =
     (case getMetricFromHashTable mem junk metricname False (registry e) of
        UB u \<Rightarrow> UB u
      | Ret (None, _) \<Rightarrow> Ret (False, e)
      | Ret (Some i, _) \<Rightarrow>
          let head = head_at e i in
          if hsize head = 0 then Ret (True, e)
          else
            let d = mkdir (bounded 256 (dataDir @ ''/'' @ metricname)) (store e);
                chunkid = chunk_id head;
                filepath = chunk_path dataDir metricname chunkid;
                (res, d) = flushtochunk chunkid filepath (timestamps head) (hvalues head) (hsize head) d
            in if res \<noteq> 0 then Ret (False, e\<lparr>store := d\<rparr>)
               else
                 case record_chunk (registry e ! i)
                        \<lparr>start_ts = timestamps head ! 0, end_ts = lastTimestamp head,
                         filename = filepath\<rparr> of
                   UB u \<Rightarrow> UB u
                 | Ret en \<Rightarrow>
                     let en = en\<lparr>mhead := Some (head\<lparr>hsize := 0, lastTimestamp := 0\<rparr>)\<rparr>;
                         d = wal_truncate dataDir metricname d
                     in Ret (True, e\<lparr>registry := (registry e)[i := en], store := d\<rparr>))"

text \<open>The lock of the head block is taken before its pointer is tested.\<close>

definition Head_PUT ::
    "allocator \<Rightarrow> long \<Rightarrow> string \<Rightarrow> long \<Rightarrow> cdouble \<Rightarrow> string \<Rightarrow> engine \<Rightarrow> (bool \<times> engine) c_result" where
  "Head_PUT mem junk metricName timestamp val dataDir e =
     (case getMetricFromHashTable mem junk metricName True (registry e) of
        UB u \<Rightarrow> UB u
      | Ret (None, _) \<Rightarrow> UB NullDeref
      | Ret (Some i, reg) \<Rightarrow>
          let e = e\<lparr>registry := reg\<rparr>;
              (res, head) = PUT_value (head_at e i) timestamp val;
              e = set_head e i head
          in case (if \<not> res \<and> hsize head \<ge> HEAD_CAPACITY
                   then (case headflush mem junk metricName dataDir e of
                           UB u \<Rightarrow> UB u
                         | Ret (_, e) \<Rightarrow>
                             let (res, head) = PUT_value (head_at e i) timestamp val
                             in Ret (res, set_head e i head))
                   else Ret (res, e)) of
               UB u \<Rightarrow> UB u
             | Ret (res, e) \<Rightarrow>
                 Ret (res, if res
                           then e\<lparr>store := wal_append dataDir metricName timestamp val (store e)\<rparr>
                           else e))"

section \<open>The points of a metric\<close>

text \<open>
  What the engine stores of a metric: the points of its chunks in the order of the list, then
  those of the head block, every value with the low four bits of its pattern cleared, as a
  flush does to it.
\<close>

definition stored_point :: "point \<Rightarrow> point" where
  "stored_point p = (fst p, val_image (snd p))"

definition chunk_points :: "allocator \<Rightarrow> disk \<Rightarrow> string \<Rightarrow> point list" where
  "chunk_points mem d path =
     (case chunkread mem path d of None \<Rightarrow> [] | Some (header, payload) \<Rightarrow> decode_points header payload)"

definition live_chunks :: "metric_registry \<Rightarrow> ChunkMetadata list" where
  "live_chunks en = take (chunkCount en) (chunks en)"

definition ram_points :: "metric_registry \<Rightarrow> point list" where
  "ram_points en = (case mhead en of None \<Rightarrow> [] | Some h \<Rightarrow> head_points h)"

definition entry_points :: "allocator \<Rightarrow> disk \<Rightarrow> metric_registry \<Rightarrow> point list" where
  "entry_points mem d en =
     concat (map (\<lambda>cm. chunk_points mem d (filename cm)) (live_chunks en)) @
     map stored_point (ram_points en)"

definition metric_points :: "allocator \<Rightarrow> engine \<Rightarrow> string \<Rightarrow> point list" where
  "metric_points mem e m =
     (case registry_find m (registry e) of
        None \<Rightarrow> [] | Some i \<Rightarrow> entry_points mem (store e) (registry e ! i))"

section \<open>Invariant\<close>

definition entry_inv :: "metric_registry \<Rightarrow> bool" where
  "entry_inv en \<longleftrightarrow>
     (\<forall>h. mhead en = Some h \<longrightarrow> head_inv h) \<and> chunkCount en \<le> length (chunks en) \<and>
     int (chunkCount en) \<le> chunkCapacity en \<and>
     chunkCapacity en \<in> {4, 8, 16, 32, 64, 128, 256, 512, 1024, 2048, 4096, 8192, 16384}"

definition engine_inv :: "engine \<Rightarrow> bool" where
  "engine_inv e \<longleftrightarrow> distinct (map mkey (registry e)) \<and> (\<forall>en \<in> set (registry e). entry_inv en)"

lemma registry_find_Some:
  "registry_find k reg = Some i \<Longrightarrow> i < length reg \<and> mkey (reg ! i) = k"
  by (induction reg arbitrary: i) (auto split: if_splits)

lemma registry_find_None: "registry_find k reg = None \<longleftrightarrow> k \<notin> mkey ` set reg"
  by (induction reg) auto

lemma registry_find_update [simp]:
  "mkey en = mkey (reg ! i) \<Longrightarrow> registry_find k (reg[i := en]) = registry_find k reg"
proof (induction reg arbitrary: i)
  case Nil
  then show ?case by simp
next
  case (Cons a reg)
  then show ?case by (cases i) auto
qed

lemma registry_find_append:
  "registry_find k (reg @ [en]) =
     (case registry_find k reg of Some i \<Rightarrow> Some i | None \<Rightarrow> if mkey en = k then Some (length reg) else None)"
  by (induction reg) (auto split: option.splits)

lemma registry_find_distinct:
  "distinct (map mkey reg) \<Longrightarrow> i < length reg \<Longrightarrow> registry_find (mkey (reg ! i)) reg = Some i"
proof (induction reg arbitrary: i)
  case Nil
  then show ?case by simp
next
  case (Cons a reg)
  then show ?case by (cases i) auto
qed

lemma engine_inv_update [inv_intros]:
  assumes "engine_inv e" "i < length (registry e)" "mkey en = mkey (registry e ! i)" "entry_inv en"
  shows "engine_inv (e\<lparr>registry := (registry e)[i := en], store := d\<rparr>)"
proof -
  have "map mkey ((registry e)[i := en]) = map mkey (registry e)"
    using assms(2,3) by (simp add: map_update list_update_same_conv)
  with assms show ?thesis
    using set_update_subset_insert [of "registry e" i en] by (auto simp: engine_inv_def)
qed

lemma entry_inv_nth: "engine_inv e \<Longrightarrow> i < length (registry e) \<Longrightarrow> entry_inv (registry e ! i)"
  by (simp add: engine_inv_def)

section \<open>Recording a chunk\<close>

text \<open>The capacity doubles as long as it fits 16 bits; the 16385th chunk of a metric does not.\<close>

lemma record_chunk_Ret:
  assumes inv: "entry_inv en" and few: "chunkCount en < 16384"
  obtains cap where
    "record_chunk en cm = Ret (en\<lparr>chunkCapacity := cap, chunks := store_at (chunks en) (chunkCount en) cm,
       chunkCount := chunkCount en + 1\<rparr>)"
    and "int (chunkCount en) + 1 \<le> cap"
    and "cap \<in> {4, 8, 16, 32, 64, 128, 256, 512, 1024, 2048, 4096, 8192, 16384}"
proof (cases "int (chunkCount en) \<ge> chunkCapacity en")
  case False
  with inv that [of "chunkCapacity en"] show ?thesis by (simp add: record_chunk_def entry_inv_def)
next
  case True
  with inv few have full: "int (chunkCount en) = chunkCapacity en"
    and caps: "chunkCapacity en \<in> {4, 8, 16, 32, 64, 128, 256, 512, 1024, 2048, 4096, 8192}"
    by (auto simp: entry_inv_def)
  from caps have doubled: "sint (of_int (chunkCapacity en * 2) :: 16 word) = chunkCapacity en * 2" by auto
  show ?thesis
    using that [of "chunkCapacity en * 2"] full caps
    by (auto simp: record_chunk_def doubled Let_def)
qed

lemma record_chunk_full:
  assumes "entry_inv en" "chunkCount en \<ge> 16384"
  shows "record_chunk en cm = UB NullDeref"
proof -
  from assms have "chunkCapacity en = 16384" "chunkCount en = 16384" by (auto simp: entry_inv_def)
  then show ?thesis by (simp add: record_chunk_def)
qed

lemma entry_inv_recorded [inv_intros]:
  assumes "entry_inv en" "head_inv h" "int (chunkCount en) + 1 \<le> cap"
    and "cap \<in> {4, 8, 16, 32, 64, 128, 256, 512, 1024, 2048, 4096, 8192, 16384}"
  shows "entry_inv (en\<lparr>chunkCapacity := cap, chunks := store_at (chunks en) (chunkCount en) cm,
           chunkCount := chunkCount en + 1, mhead := Some h\<rparr>)"
  using assms by (auto simp: entry_inv_def length_store_at)

lemma live_chunks_recorded:
  "entry_inv en \<Longrightarrow>
     live_chunks (en\<lparr>chunkCapacity := cap, chunks := store_at (chunks en) (chunkCount en) cm,
                    chunkCount := chunkCount en + 1, mhead := h\<rparr>) = live_chunks en @ [cm]"
  by (simp add: live_chunks_def entry_inv_def)

section \<open>What a flush needs\<close>

definition chunk_files :: "engine \<Rightarrow> string list" where
  "chunk_files e = concat (map (\<lambda>en. map filename (live_chunks en)) (registry e))"

definition flush_ready :: "string \<Rightarrow> string \<Rightarrow> engine \<Rightarrow> bool" where
  "flush_ready dataDir m e \<longleftrightarrow>
     build_wal_path 512 dataDir m \<notin> set (chunk_files e) \<and>
     (case registry_find m (registry e) of
        None \<Rightarrow> True
      | Some i \<Rightarrow>
          (case mhead (registry e ! i) of
             None \<Rightarrow> True
           | Some h \<Rightarrow>
               hsize h > 0 \<longrightarrow>
               (let path = chunk_path dataDir m (chunk_id h) in
                points_fit (head_points h) \<and> \<not> denied (store e) path \<and>
                path \<notin> set (chunk_files e) \<and> path \<noteq> build_wal_path 512 dataDir m)))"

lemma chunk_file_in: "i < length (registry e) \<Longrightarrow> cm \<in> set (live_chunks (registry e ! i)) \<Longrightarrow>
    filename cm \<in> set (chunk_files e)"
  by (fastforce simp: chunk_files_def)

lemma chunk_files_update:
  assumes "i < length (registry e)" "map filename (live_chunks en) = map filename (live_chunks (registry e ! i)) @ new"
  shows "set (chunk_files (e\<lparr>registry := (registry e)[i := en], store := d\<rparr>)) \<subseteq> set (chunk_files e) \<union> set new"
proof -
  have "filename cm \<in> set (chunk_files e) \<union> set new" if "cm \<in> set (live_chunks en)" for cm
  proof -
    have "filename cm \<in> set (map filename (live_chunks en))" using that by simp
    then show ?thesis using assms chunk_file_in [OF assms(1)] unfolding assms(2) by auto
  qed
  then show ?thesis
    using set_update_subset_insert [of "registry e" i en] by (fastforce simp: chunk_files_def)
qed

lemma chunk_points_frame:
  "chunkread mem p d' = chunkread mem p d \<Longrightarrow> chunk_points mem d' p = chunk_points mem d p"
  by (simp add: chunk_points_def)

lemma entry_points_frame:
  assumes "\<And>p. p \<in> set (map filename (live_chunks en)) \<Longrightarrow> chunkread mem p d' = chunkread mem p d"
  shows "entry_points mem d' en = entry_points mem d en"
proof -
  have "concat (map (\<lambda>cm. chunk_points mem d' (filename cm)) (live_chunks en)) =
      concat (map (\<lambda>cm. chunk_points mem d (filename cm)) (live_chunks en))"
    using assms by (intro arg_cong [of _ _ concat] map_cong) (auto intro: chunk_points_frame)
  then show ?thesis by (simp only: entry_points_def)
qed

text \<open>The new contents of a metric whose entry changed, when no other chunk file did.\<close>

lemma metric_points_update:
  assumes "i < length (registry e)" and key: "mkey en = mkey (registry e ! i)"
    and dist: "distinct (map mkey (registry e))"
    and frame: "\<And>p. p \<in> set (chunk_files e) \<Longrightarrow> chunkread mem p d = chunkread mem p (store e)"
    and same: "entry_points mem d en = entry_points mem (store e) (registry e ! i) @ new"
  shows "metric_points mem (e\<lparr>registry := (registry e)[i := en], store := d\<rparr>) k =
           metric_points mem e k @ (if k = mkey en then new else [])"
proof (cases "registry_find k (registry e)")
  case None
  with assms(1) have "k \<noteq> mkey (registry e ! i)" by (auto simp: registry_find_None)
  with None key show ?thesis by (simp add: metric_points_def)
next
  case (Some j)
  note j = registry_find_Some [OF Some]
  have find: "registry_find k ((registry e)[i := en]) = Some j" using Some key by simp
  show ?thesis
  proof (cases "j = i")
    case True
    with j key have "k = mkey en" by simp
    with True Some find same assms(1) show ?thesis by (simp add: metric_points_def)
  next
    case False
    have "k \<noteq> mkey en" using False Some key registry_find_distinct [OF dist assms(1)] by auto
    moreover have "entry_points mem d (registry e ! j) = entry_points mem (store e) (registry e ! j)"
      using j frame by (intro entry_points_frame) (auto dest: chunk_file_in)
    ultimately show ?thesis using False Some find by (simp add: metric_points_def)
  qed
qed

section \<open>Flushing a head block\<close>

definition flush_result :: "string \<Rightarrow> string \<Rightarrow> HeadBlock \<Rightarrow> disk \<Rightarrow> int \<times> disk" where
  "flush_result dataDir m h d =
     flushtochunk (chunk_id h) (chunk_path dataDir m (chunk_id h)) (timestamps h) (hvalues h) (hsize h)
       (mkdir (bounded 256 (dataDir @ ''/'' @ m)) d)"

definition flush_metadata :: "string \<Rightarrow> string \<Rightarrow> HeadBlock \<Rightarrow> ChunkMetadata" where
  "flush_metadata dataDir m h =
     \<lparr>start_ts = timestamps h ! 0, end_ts = lastTimestamp h, filename = chunk_path dataDir m (chunk_id h)\<rparr>"

lemma headflush_nonempty:
  assumes "registry_find m (registry e) = Some i" "mhead (registry e ! i) = Some h" "0 < hsize h"
  shows "headflush mem junk m dataDir e =
    (if fst (flush_result dataDir m h (store e)) \<noteq> 0
     then Ret (False, e\<lparr>store := snd (flush_result dataDir m h (store e))\<rparr>)
     else case record_chunk (registry e ! i) (flush_metadata dataDir m h) of
            UB u \<Rightarrow> UB u
          | Ret en \<Rightarrow>
              Ret (True, e\<lparr>registry := (registry e)[i := en\<lparr>mhead := Some (h\<lparr>hsize := 0, lastTimestamp := 0\<rparr>)\<rparr>],
                           store := wal_truncate dataDir m (snd (flush_result dataDir m h (store e)))\<rparr>))"
  using assms
  by (simp add: headflush_def getMetricFromHashTable_def entry_head_def head_at_def flush_result_def
      flush_metadata_def split_def Let_def split: c_result.split)

lemma headflush_unknown:
  "registry_find m (registry e) = None \<Longrightarrow> headflush mem junk m dataDir e = UB NullDeref"
  by (simp add: headflush_def getMetricFromHashTable_def)

lemma headflush_empty:
  "registry_find m (registry e) = Some i \<Longrightarrow> mhead (registry e ! i) = Some h \<Longrightarrow> hsize h = 0 \<Longrightarrow>
     headflush mem junk m dataDir e = Ret (True, e)"
  by (simp add: headflush_def getMetricFromHashTable_def entry_head_def head_at_def)

lemma headflush_headless:
  "registry_find m (registry e) = Some i \<Longrightarrow> mhead (registry e ! i) = None \<Longrightarrow>
     headflush mem junk m dataDir e = Ret (False, e)"
  by (simp add: headflush_def getMetricFromHashTable_def entry_head_def)

text \<open>The files a flush leaves as they are.\<close>

lemma flush_result_frame:
  assumes "head_inv h" "q \<noteq> chunk_path dataDir m (chunk_id h)"
  shows "files (snd (flush_result dataDir m h d)) q = files d q"
    and "denied (snd (flush_result dataDir m h d)) = denied d"
    and "chunkread mem q (snd (flush_result dataDir m h d)) = chunkread mem q d"
proof -
  have "hsize h \<le> length (timestamps h)" "hsize h \<le> length (hvalues h)"
    using assms(1) by (simp_all add: head_inv_def)
  note frame = flushtochunk_frame(2-4) [OF this assms(2), of "chunk_id h" "mkdir (bounded 256 (dataDir @ ''/'' @ m)) d"]
  then show files: "files (snd (flush_result dataDir m h d)) q = files d q"
    and den: "denied (snd (flush_result dataDir m h d)) = denied d"
    by (simp_all only: flush_result_def mkdir_frame)
  show "chunkread mem q (snd (flush_result dataDir m h d)) = chunkread mem q d"
    using chunkread_frame [OF files den] .
qed

lemma wal_truncate_frame:
  assumes "q \<noteq> build_wal_path 512 dataDir m"
  shows "chunkread mem q (wal_truncate dataDir m d) = chunkread mem q d"
  using assms by (intro chunkread_frame) (simp_all add: wal_truncate_def)

lemma stored_head_points:
  "head_inv h \<Longrightarrow> zip (take (hsize h) (timestamps h)) (map val_image (take (hsize h) (hvalues h))) =
     map stored_point (head_points h)"
  by (simp add: head_points_def stored_point_def zip_map2 split_def)

lemma flush_result_stored:
  assumes inv: "head_inv h" "0 < hsize h" and fit: "points_fit (head_points h)"
    and "\<And>k. mem k" "\<not> denied d (chunk_path dataDir m (chunk_id h))"
    and "fst (flush_result dataDir m h d) = 0"
  shows "chunk_points mem (snd (flush_result dataDir m h d)) (chunk_path dataDir m (chunk_id h)) =
           map stored_point (head_points h)"
proof -
  have bounds: "hsize h \<le> 50000" "hsize h \<le> length (timestamps h)" "hsize h \<le> length (hvalues h)"
    using inv(1) by (simp_all add: head_inv_def HEAD_CAPACITY_def)
  from flushtochunk_stored [where mem = mem and p = "chunk_path dataDir m (chunk_id h)"
      and d = "mkdir (bounded 256 (dataDir @ ''/'' @ m)) d" and cid = "chunk_id h",
      OF inv(2) bounds _ assms(4)] assms(3,5,6) stored_head_points [OF inv(1)]
  show ?thesis
    by (auto simp: flush_result_def chunk_points_def head_points_def)
qed

text \<open>A successful flush moves the points of the head block behind those of the chunks.\<close>

lemma headflush_flushed:
  assumes inv: "engine_inv e" and ready: "flush_ready dataDir m e" and mem: "\<And>k. mem k"
    and find: "registry_find m (registry e) = Some i" and h: "mhead (registry e ! i) = Some h" "0 < hsize h"
    and ok: "fst (flush_result dataDir m h (store e)) = 0" and few: "chunkCount (registry e ! i) < 16384"
  obtains en d where "headflush mem junk m dataDir e =
        Ret (True, e\<lparr>registry := (registry e)[i := en], store := d\<rparr>)"
    and "mkey en = m" "entry_inv en" "ram_points en = []" "mhead en \<noteq> None"
    and "live_chunks en = live_chunks (registry e ! i) @ [flush_metadata dataDir m h]"
    and "entry_points mem d en = entry_points mem (store e) (registry e ! i)"
    and "\<And>p. p \<in> set (chunk_files e) \<Longrightarrow> chunkread mem p d = chunkread mem p (store e)"
proof -
  let ?en = "registry e ! i" and ?d1 = "snd (flush_result dataDir m h (store e))"
  let ?path = "chunk_path dataDir m (chunk_id h)" and ?wal = "build_wal_path 512 dataDir m"
  let ?d = "wal_truncate dataDir m ?d1"
  note i = registry_find_Some [OF find]
  have en: "entry_inv ?en" "head_inv h" using inv i h(1) entry_inv_nth by (auto simp: entry_inv_def)
  have paths: "points_fit (head_points h)" "\<not> denied (store e) ?path" "?path \<notin> set (chunk_files e)"
    "?path \<noteq> ?wal" "?wal \<notin> set (chunk_files e)"
    using ready find h by (simp_all add: flush_ready_def Let_def)
  from record_chunk_Ret [OF en(1) few, of "flush_metadata dataDir m h"] obtain cap where
    rec: "record_chunk ?en (flush_metadata dataDir m h) =
        Ret (?en\<lparr>chunkCapacity := cap, chunks := store_at (chunks ?en) (chunkCount ?en) (flush_metadata dataDir m h),
          chunkCount := chunkCount ?en + 1\<rparr>)"
    and cap: "int (chunkCount ?en) + 1 \<le> cap"
      "cap \<in> {4, 8, 16, 32, 64, 128, 256, 512, 1024, 2048, 4096, 8192, 16384}" by blast
  let ?en' = "?en\<lparr>chunkCapacity := cap,
      chunks := store_at (chunks ?en) (chunkCount ?en) (flush_metadata dataDir m h),
      chunkCount := chunkCount ?en + 1, mhead := Some (h\<lparr>hsize := 0, lastTimestamp := 0\<rparr>)\<rparr>"
  have frame: "chunkread mem p ?d = chunkread mem p (store e)" if "p \<in> set (chunk_files e)" for p
    using that paths flush_result_frame(3) [OF en(2)] wal_truncate_frame by (metis (no_types))
  have "chunk_points mem ?d ?path = map stored_point (head_points h)"
    using flush_result_stored [OF en(2) h(2) paths(1) mem paths(2) ok] wal_truncate_frame [OF paths(4)]
    by (simp add: chunk_points_def)
  moreover have "concat (map (\<lambda>cm. chunk_points mem ?d (filename cm)) (live_chunks ?en)) =
      concat (map (\<lambda>cm. chunk_points mem (store e) (filename cm)) (live_chunks ?en))"
    using i frame by (intro arg_cong [of _ _ concat] map_cong refl chunk_points_frame) (auto dest: chunk_file_in)
  ultimately have "entry_points mem ?d ?en' = entry_points mem (store e) ?en"
    using live_chunks_recorded [OF en(1)] h(1)
    by (simp add: entry_points_def ram_points_def head_points_def [of "_\<lparr>hsize := _\<rparr>"] flush_metadata_def head_points_Nil)
  moreover have "entry_inv ?en'" by (rule entry_inv_recorded [OF en(1) head_inv_reset [OF en(2)] cap])
  ultimately show thesis
    using that [where en = ?en' and d = ?d] headflush_nonempty [OF find h, of mem junk dataDir] ok rec i frame en cap
      live_chunks_recorded [OF en(1)]
    by (simp add: inv_intros head_points_Nil ram_points_def)
qed

text \<open>Every outcome of a flush keeps the invariant and the points of all metrics.\<close>

definition same_points :: "allocator \<Rightarrow> engine \<Rightarrow> engine \<Rightarrow> bool" where
  "same_points mem e e' \<longleftrightarrow> engine_inv e' \<and> (\<forall>k. metric_points mem e' k = metric_points mem e k)"

lemma same_points_refl: "engine_inv e \<Longrightarrow> same_points mem e e"
  by (simp add: same_points_def)

lemma metric_points_store:
  assumes "\<And>p. p \<in> set (chunk_files e) \<Longrightarrow> chunkread mem p d = chunkread mem p (store e)"
  shows "metric_points mem (e\<lparr>store := d\<rparr>) k = metric_points mem e k"
proof (cases "registry_find k (registry e)")
  case None
  then show ?thesis by (simp add: metric_points_def)
next
  case (Some j)
  have "entry_points mem d (registry e ! j) = entry_points mem (store e) (registry e ! j)"
    using registry_find_Some [OF Some] assms by (intro entry_points_frame) (auto dest: chunk_file_in)
  with Some show ?thesis by (simp add: metric_points_def)
qed

lemma headflush_failed:
  assumes inv: "engine_inv e" and ready: "flush_ready dataDir m e"
    and find: "registry_find m (registry e) = Some i" and h: "mhead (registry e ! i) = Some h" "0 < hsize h"
    and fail: "fst (flush_result dataDir m h (store e)) \<noteq> 0"
  shows "\<exists>d. headflush mem junk m dataDir e = Ret (False, e\<lparr>store := d\<rparr>) \<and>
      same_points mem e (e\<lparr>store := d\<rparr>) \<and>
      files d (build_wal_path 512 dataDir m) = files (store e) (build_wal_path 512 dataDir m)"
proof -
  let ?d = "snd (flush_result dataDir m h (store e))" and ?path = "chunk_path dataDir m (chunk_id h)"
  have head: "head_inv h"
    using inv h(1) registry_find_Some [OF find] entry_inv_nth by (auto simp: entry_inv_def)
  have paths: "?path \<notin> set (chunk_files e)" "?path \<noteq> build_wal_path 512 dataDir m"
    using ready find h by (simp_all add: flush_ready_def Let_def)
  have "chunkread mem p ?d = chunkread mem p (store e)" if "p \<in> set (chunk_files e)" for p
    using that paths(1) by (intro flush_result_frame(3) [OF head]) auto
  then have "same_points mem e (e\<lparr>store := ?d\<rparr>)"
    using inv by (simp add: same_points_def metric_points_store engine_inv_def)
  with headflush_nonempty [OF find h, of mem junk dataDir] fail
    flush_result_frame(1) [OF head paths(2) [symmetric]]
  show ?thesis by auto
qed

lemma headflush_outcome:
  assumes inv: "engine_inv e" and ready: "flush_ready dataDir m e" and mem: "\<And>k. mem k"
    and ret: "headflush mem junk m dataDir e = Ret (ok, e')"
  shows "same_points mem e e' \<and>
    (case registry_find m (registry e) of
       None \<Rightarrow> False
     | Some i \<Rightarrow> registry_find m (registry e') = Some i \<and>
         (mhead (registry e ! i) \<noteq> None \<longrightarrow> mhead (registry e' ! i) \<noteq> None) \<and>
         (if ok then ram_points (registry e' ! i) = [] else registry e' = registry e)) \<and>
    build_wal_path 512 dataDir m \<notin> set (chunk_files e')"
proof -
  from ret obtain i where find: "registry_find m (registry e) = Some i"
    by (cases "registry_find m (registry e)") (auto simp: headflush_unknown)
  note i = registry_find_Some [OF find]
  consider "mhead (registry e ! i) = None"
    | h where "mhead (registry e ! i) = Some h" "hsize h = 0"
    | h where "mhead (registry e ! i) = Some h" "0 < hsize h"
    by (cases "mhead (registry e ! i)") auto
  then show ?thesis
  proof cases
    case 1
    with ret find inv ready show ?thesis
      by (auto simp: headflush_headless same_points_refl flush_ready_def)
  next
    case 2
    moreover have "build_wal_path 512 dataDir m \<notin> set (chunk_files e)"
      using ready by (simp add: flush_ready_def)
    ultimately show ?thesis
      using ret find inv by (auto simp: headflush_empty same_points_refl ram_points_def head_points_Nil)
  next
    case 3
    show ?thesis
    proof (cases "fst (flush_result dataDir m h (store e)) = 0")
      case False
      from headflush_failed [OF inv ready find 3 False, of mem junk] ret
      obtain d where "ok = False" "e' = e\<lparr>store := d\<rparr>" "same_points mem e e'" by auto
      moreover from this have "chunk_files e' = chunk_files e" by (simp add: chunk_files_def)
      ultimately show ?thesis using find ready by (simp add: flush_ready_def)
    next
      case True
      have few: "chunkCount (registry e ! i) < 16384"
      proof (rule ccontr)
        assume "\<not> chunkCount (registry e ! i) < 16384"
        then have "record_chunk (registry e ! i) (flush_metadata dataDir m h) = UB NullDeref"
          using record_chunk_full [OF entry_inv_nth [OF inv]] i by simp
        with ret headflush_nonempty [OF find 3] True show False by simp
      qed
      obtain d en where ret': "headflush mem junk m dataDir e =
            Ret (True, e\<lparr>registry := (registry e)[i := en], store := d\<rparr>)"
        and en: "mkey en = m" "entry_inv en" "ram_points en = []" "mhead en \<noteq> None"
        and live: "live_chunks en = live_chunks (registry e ! i) @ [flush_metadata dataDir m h]"
        and points: "entry_points mem d en = entry_points mem (store e) (registry e ! i)"
        and frame: "\<And>p. p \<in> set (chunk_files e) \<Longrightarrow> chunkread mem p d = chunkread mem p (store e)"
        by (rule headflush_flushed [where mem = mem and junk = junk, OF inv ready mem find 3 True few], rule that)
      then have e': "ok" "e' = e\<lparr>registry := (registry e)[i := en], store := d\<rparr>" using ret by simp_all
      have "distinct (map mkey (registry e))" using inv by (simp add: engine_inv_def)
      from metric_points_update [OF _ _ this frame, of i en "[]"] i en(1) points
      have "metric_points mem e' k = metric_points mem e k" for k by (simp add: e')
      moreover have "engine_inv e'" using engine_inv_update [OF inv] i en by (simp add: e')
      moreover have "build_wal_path 512 dataDir m \<notin> set (chunk_files e')"
        using chunk_files_update [of i e en "[filename (flush_metadata dataDir m h)]" d] i ready find 3 live
        by (auto simp: e' flush_ready_def flush_metadata_def Let_def)
      ultimately show ?thesis using find i en e' by (simp add: same_points_def)
    qed
  qed
qed

section \<open>Accepting a point\<close>

lemma engine_store_same [simp]: "e\<lparr>registry := r, store := store e\<rparr> = e\<lparr>registry := r\<rparr>"
  by (cases e) simp

lemma new_entry_props:
  assumes "\<And>k. mem k"
  shows "entry_inv (new_entry mem junk m)" "live_chunks (new_entry mem junk m) = []"
    "ram_points (new_entry mem junk m) = []" "mhead (new_entry mem junk m) \<noteq> None"
  using assms
  by (simp_all add: new_entry_def entry_inv_def live_chunks_def ram_points_def getNewHeadBlock_def
      inv_intros head_points_Nil)

text \<open>Looking a metric up, or creating it, changes no points.\<close>

lemma getMetric_create:
  assumes inv: "engine_inv e" and len: "length m < 64" and mem: "\<And>k. mem k"
    and get: "getMetricFromHashTable mem junk m True (registry e) = Ret (Some i, reg)"
  shows "engine_inv (e\<lparr>registry := reg\<rparr>) \<and> registry_find m reg = Some i \<and> mhead (reg ! i) \<noteq> None \<and>
    (\<forall>k. metric_points mem (e\<lparr>registry := reg\<rparr>) k = metric_points mem e k) \<and>
    chunk_files (e\<lparr>registry := reg\<rparr>) = chunk_files e \<and>
    (flush_ready dataDir m e \<longrightarrow> flush_ready dataDir m (e\<lparr>registry := reg\<rparr>))"
proof (cases "registry_find m (registry e)")
  case (Some j)
  with get inv show ?thesis
    by (auto simp: getMetricFromHashTable_def entry_head_def split: if_splits)
next
  case None
  note new = new_entry_props [where mem = mem, OF mem]
  have key: "mkey (new_entry mem junk m) = m" using len by (simp add: new_entry_def)
  have reg: "reg = registry e @ [new_entry mem junk m]" "i = length (registry e)"
    using None get by (auto simp: getMetricFromHashTable_def entry_head_def Let_def split: if_splits)
  have "engine_inv (e\<lparr>registry := reg\<rparr>)"
    using inv None new(1) key by (auto simp: engine_inv_def reg registry_find_None)
  moreover have find: "registry_find m reg = Some i" using None key by (simp add: reg registry_find_append)
  moreover have "metric_points mem (e\<lparr>registry := reg\<rparr>) k = metric_points mem e k" for k
    using new(2,3) registry_find_Some [of k "registry e"]
    by (auto simp: metric_points_def reg registry_find_append entry_points_def nth_append
        split: option.split)
  moreover have files: "chunk_files (e\<lparr>registry := reg\<rparr>) = chunk_files e"
    using new(2) by (simp add: chunk_files_def reg)
  moreover have "hsize h = 0" if "mhead (reg ! i) = Some h" for h
    using that mem by (auto simp: reg new_entry_def getNewHeadBlock_def)
  then have "flush_ready dataDir m e \<longrightarrow> flush_ready dataDir m (e\<lparr>registry := reg\<rparr>)"
    using find files by (auto simp: flush_ready_def split: option.split)
  ultimately show ?thesis using new(4) by (simp add: reg)
qed

text \<open>Putting a point into the head block of an entry.\<close>

lemma set_head_PUT:
  assumes inv: "engine_inv e" and find: "registry_find m (registry e) = Some i"
    and h: "mhead (registry e ! i) = Some h" and put: "PUT_value h t v = (ok, h')"
  shows "engine_inv (set_head e i h') \<and>
    (\<forall>k. metric_points mem (set_head e i h') k =
          metric_points mem e k @ (if k = m \<and> ok then [stored_point (t, v)] else [])) \<and>
    chunk_files (set_head e i h') = chunk_files e \<and> store (set_head e i h') = store e \<and>
    ram_points (registry (set_head e i h') ! i) = ram_points (registry e ! i) @ (if ok then [(t, v)] else []) \<and>
    registry_find m (registry (set_head e i h')) = Some i"
proof -
  note i = registry_find_Some [OF find]
  let ?en = "registry e ! i" and ?en' = "(registry e ! i)\<lparr>mhead := Some h'\<rparr>"
  have en: "entry_inv ?en" "head_inv h" using inv i h entry_inv_nth by (auto simp: entry_inv_def)
  have points: "head_points h' = head_points h @ (if ok then [(t, v)] else [])" "head_inv h'"
    using PUT_value_accepted [OF en(2), of t v] PUT_value_rejected [of h t v] PUT_value_accepts [of h t v] put en(2)
    by (cases "accepts h t"; simp)+
  then have ram: "ram_points ?en' = ram_points ?en @ (if ok then [(t, v)] else [])"
    using h by (simp add: ram_points_def)
  have live: "live_chunks ?en' = live_chunks ?en" by (simp add: live_chunks_def)
  have inv': "entry_inv ?en'" using en(1) points(2) by (simp add: entry_inv_def)
  have more: "entry_points mem (store e) ?en' =
      entry_points mem (store e) ?en @ (if ok then [stored_point (t, v)] else [])"
    by (simp add: entry_points_def ram live)
  have "metric_points mem (set_head e i h') k =
      metric_points mem e k @ (if k = m \<and> ok then [stored_point (t, v)] else [])" for k
    using metric_points_update [OF _ _ _ _ more, of k] i inv by (simp add: set_head_def engine_inv_def)
  moreover have "engine_inv (set_head e i h')"
    using engine_inv_update [OF inv, of i ?en' "store e"] i inv' by (simp add: set_head_def)
  moreover have "chunk_files (set_head e i h') = chunk_files e"
    using i live by (auto simp: chunk_files_def set_head_def map_update list_update_same_conv
        intro!: arg_cong [of _ _ concat])
  ultimately show ?thesis using i ram find by (simp add: set_head_def)
qed

lemma wal_append_frame:
  assumes "q \<noteq> build_wal_path 512 dataDir m"
  shows "files (wal_append dataDir m t v d) q = files d q" "denied (wal_append dataDir m t v d) = denied d"
  using assms
  by (simp_all add: wal_append_def ensure_metric_dir_def fopen_ab_def split_def Let_def split: option.split)

lemma wal_append_points:
  assumes "build_wal_path 512 dataDir m \<notin> set (chunk_files e)"
  shows "metric_points mem (e\<lparr>store := wal_append dataDir m t v (store e)\<rparr>) k = metric_points mem e k"
proof (rule metric_points_store)
  fix p assume "p \<in> set (chunk_files e)"
  with assms have "p \<noteq> build_wal_path 512 dataDir m" by auto
  from wal_append_frame [OF this] show "chunkread mem p (wal_append dataDir m t v (store e)) = chunkread mem p (store e)"
    by (rule chunkread_frame)
qed

text \<open>
  \<open>put_outcome mem m p ok e e'\<close>: from \<open>e\<close> to \<open>e'\<close> the point \<open>p\<close> was added behind those of \<open>m\<close>
  when \<open>ok\<close>, and nothing else changed.
\<close>

definition put_outcome :: "allocator \<Rightarrow> string \<Rightarrow> point \<Rightarrow> bool \<Rightarrow> engine \<Rightarrow> engine \<Rightarrow> bool" where
  "put_outcome mem m p ok e e' \<longleftrightarrow> engine_inv e' \<and>
     (\<forall>k. metric_points mem e' k = metric_points mem e k @ (if k = m \<and> ok then [stored_point p] else []))"

lemma head_at_Some: "mhead (registry e ! i) \<noteq> None \<Longrightarrow> mhead (registry e ! i) = Some (head_at e i)"
  by (simp add: head_at_def)

lemma set_head_same:
  assumes "mhead (registry e ! i) \<noteq> None" shows "set_head e i (head_at e i) = e"
proof -
  have "(registry e ! i)\<lparr>mhead := Some (head_at e i)\<rparr> = registry e ! i"
    using assms by (cases "registry e ! i") (auto simp: head_at_def)
  then show ?thesis by (cases e) (simp add: set_head_def)
qed

lemma put_outcome_logged:
  assumes "put_outcome mem m (t, v) ok e e'" "build_wal_path 512 dataDir m \<notin> set (chunk_files e')"
  shows "put_outcome mem m (t, v) ok e
      (if ok then e'\<lparr>store := wal_append dataDir m t v (store e')\<rparr> else e')"
  using assms by (simp add: put_outcome_def wal_append_points engine_inv_def)

lemma put_outcome_set_head:
  assumes "engine_inv e" "registry_find m (registry e) = Some i" "mhead (registry e ! i) \<noteq> None"
    and "PUT_value (head_at e i) t v = (ok, h')"
  shows "put_outcome mem m (t, v) ok e (set_head e i h')"
    and "chunk_files (set_head e i h') = chunk_files e"
  using set_head_PUT [OF assms(1,2) head_at_Some [OF assms(3)] assms(4)]
  by (simp_all add: put_outcome_def)

definition logged :: "string \<Rightarrow> string \<Rightarrow> long \<Rightarrow> cdouble \<Rightarrow> bool \<Rightarrow> engine \<Rightarrow> engine" where
  "logged dataDir m t v ok e = (if ok then e\<lparr>store := wal_append dataDir m t v (store e)\<rparr> else e)"

lemma Head_PUT_direct:
  assumes "getMetricFromHashTable mem junk m True (registry e) = Ret (Some i, reg)"
    and "PUT_value (head_at (e\<lparr>registry := reg\<rparr>) i) t v = (res, h)"
    and "\<not> (\<not> res \<and> hsize h \<ge> HEAD_CAPACITY)"
  shows "Head_PUT mem junk m t v dataDir e =
    Ret (res, logged dataDir m t v res (set_head (e\<lparr>registry := reg\<rparr>) i h))"
  using assms by (auto simp: Head_PUT_def Let_def logged_def)

lemma Head_PUT_full:
  assumes "getMetricFromHashTable mem junk m True (registry e) = Ret (Some i, reg)"
    and "PUT_value (head_at (e\<lparr>registry := reg\<rparr>) i) t v = (res, h)"
    and "\<not> res \<and> hsize h \<ge> HEAD_CAPACITY"
  shows "Head_PUT mem junk m t v dataDir e =
    (case headflush mem junk m dataDir (set_head (e\<lparr>registry := reg\<rparr>) i h) of
       UB u \<Rightarrow> UB u
     | Ret (_, e) \<Rightarrow>
         (case PUT_value (head_at e i) t v of (res, h) \<Rightarrow> Ret (res, logged dataDir m t v res (set_head e i h))))"
  using assms
  by (auto simp: Head_PUT_def Let_def logged_def split_def split: c_result.split)

lemma Head_PUT_outcome:
  assumes inv: "engine_inv e" and ready: "flush_ready dataDir m e" and len: "length m < 64"
    and mem: "\<And>k. mem k" and ret: "Head_PUT mem junk m t v dataDir e = Ret (ok, e')"
  shows "put_outcome mem m (t, v) ok e e'"
proof -
  from ret obtain i reg where get: "getMetricFromHashTable mem junk m True (registry e) = Ret (Some i, reg)"
    by (auto simp: Head_PUT_def split: c_result.splits option.splits prod.splits)
  define e1 where "e1 = e\<lparr>registry := reg\<rparr>"
  note created = getMetric_create [where mem = mem and dataDir = dataDir, OF inv len mem get, folded e1_def]
  have e1: "engine_inv e1" "registry_find m (registry e1) = Some i" "mhead (registry e1 ! i) \<noteq> None"
    "flush_ready dataDir m e1"
    using created ready by (simp_all add: e1_def)
  then have wal: "build_wal_path 512 dataDir m \<notin> set (chunk_files e1)" by (simp add: flush_ready_def)
  have base: "put_outcome mem m (t, v) ok' e x" if "put_outcome mem m (t, v) ok' e1 x" for ok' x
    using that created by (simp add: put_outcome_def)
  obtain res h1 where put: "PUT_value (head_at e1 i) t v = (res, h1)" by fastforce
  show ?thesis
  proof (cases "\<not> res \<and> hsize h1 \<ge> HEAD_CAPACITY")
    case False
    with ret Head_PUT_direct [OF get put [unfolded e1_def]]
    have res: "ok = res" and e': "e' = logged dataDir m t v res (set_head e1 i h1)"
      by (auto simp: e1_def)
    note out = put_outcome_set_head [OF e1(1-3) put]
    from put_outcome_logged [OF base [OF out(1)]] wal out(2) show ?thesis by (simp add: e' res logged_def)
  next
    case True
    with put have "\<not> accepts (head_at e1 i) t" using PUT_value_accepts [of "head_at e1 i" t v] by simp
    with put have "h1 = head_at e1 i" using PUT_value_rejected by auto
    then have same: "set_head e1 i h1 = e1"
      using set_head_same [OF e1(3)] by simp
    with ret Head_PUT_full [OF get put [unfolded e1_def]] True obtain flushed e3 h3 where
      flush: "headflush mem junk m dataDir e1 = Ret (flushed, e3)"
      and put3: "PUT_value (head_at e3 i) t v = (ok, h3)"
      and e': "e' = logged dataDir m t v ok (set_head e3 i h3)"
      by (auto simp: e1_def split: c_result.splits prod.splits)
    from headflush_outcome [OF e1(1,4) mem flush] e1(2,3)
    have e3: "engine_inv e3" "registry_find m (registry e3) = Some i" "mhead (registry e3 ! i) \<noteq> None"
      and same3: "\<forall>k. metric_points mem e3 k = metric_points mem e1 k"
      and wal3: "build_wal_path 512 dataDir m \<notin> set (chunk_files e3)"
      by (simp_all add: same_points_def)
    note out3 = put_outcome_set_head [OF e3 put3]
    then have "put_outcome mem m (t, v) ok e1 (set_head e3 i h3)"
      using same3 by (simp add: put_outcome_def)
    from put_outcome_logged [OF base [OF this]] wal3 out3(2) show ?thesis by (simp add: e' logged_def)
  qed
qed

section \<open>Properties\<close>


definition sample_engine :: engine where
  "sample_engine =
     \<lparr>registry = [\<lparr>mkey = ''cpu'', mhead = Some \<lparr>timestamps = [100, 110],
          hvalues = [CDouble 0x4049000000000000, CDouble 0x3FF8000000000000], hsize = 2, lastTimestamp = 110\<rparr>,
        chunks = [], chunkCount = 0, chunkCapacity = 4\<rparr>],
      store = sample_disk\<rparr>"

lemma sample_engine_inv: "engine_inv sample_engine"
  by (simp add: engine_inv_def entry_inv_def sample_engine_def head_inv_def HEAD_CAPACITY_def)

lemma sample_chunk_path: "chunk_path ''data'' ''cpu'' 100 = ''data/cpu/cpu_100.chunk''"
proof -
  have "show_int 100 = ''100''" by code_simp
  then show ?thesis by (simp add: chunk_path_def Let_def)
qed

definition sample_cpu_head :: HeadBlock where
  "sample_cpu_head =
     \<lparr>timestamps = [100, 110], hvalues = [CDouble 0x4049000000000000, CDouble 0x3FF8000000000000],
      hsize = 2, lastTimestamp = 110\<rparr>"

lemma sample_cpu_head_simps:
  "hsize sample_cpu_head = 2" "chunk_id sample_cpu_head = 100"
  "head_points sample_cpu_head = [(100, CDouble 0x4049000000000000), (110, CDouble 0x3FF8000000000000)]"
  by (simp_all add: sample_cpu_head_def chunk_id_def head_points_def)

lemma sample_flush_ready: "flush_ready ''data'' ''cpu'' sample_engine"
proof -
  have fit: "points_fit [(100, CDouble 0x4049000000000000), (110, CDouble 0x3FF8000000000000)]"
    by code_simp
  have find: "registry_find ''cpu'' (registry sample_engine) = Some 0"
    and head: "mhead (registry sample_engine ! 0) = Some sample_cpu_head"
    and none: "chunk_files sample_engine = []" and disk: "store sample_engine = sample_disk"
    by (simp_all add: sample_engine_def sample_cpu_head_def chunk_files_def live_chunks_def)
  have wal: "build_wal_path 512 ''data'' ''cpu'' = ''data/cpu/wal.log''" by simp
  show ?thesis
    unfolding flush_ready_def find option.case head none disk wal sample_cpu_head_simps sample_chunk_path
    using fit by (simp add: sample_disk_def)
qed

lemma sample_points: "metric_points mem sample_engine ''cpu'' =
    [(100, CDouble 0x4049000000000000), (110, CDouble 0x3FF8000000000000)]"
  by (simp add: metric_points_def sample_engine_def entry_points_def live_chunks_def ram_points_def
      head_points_def stored_point_def val_image_def val_mask_def doubletobits_def bitstodouble_def)

lemma sample_flush_ok:
  "case headflush (\<lambda>_. True) 0 ''cpu'' ''data'' sample_engine of Ret (ok, _) \<Rightarrow> ok | UB _ \<Rightarrow> False"
proof -
  let ?h = sample_cpu_head
  have cpu: "mkdir ''data/cpu'' sample_disk = sample_disk" by (simp add: mkdir_def sample_disk_def)
  have opened: "fopen_wb ''data/cpu/cpu_100.chunk'' sample_disk =
      Some (sample_disk\<lparr>files := (files sample_disk)(''data/cpu/cpu_100.chunk'' \<mapsto> [])\<rparr>)"
    by (simp add: fopen_wb_def parent_exists_def dirname_def sample_disk_def)
  have "fst (flush_result ''data'' ''cpu'' ?h sample_disk) = 0"
    using flushtochunk_succeeds [OF _ _ _ _ opened, of 2 "[100, 110]" "hvalues ?h"]
    by (simp add: flush_result_def sample_chunk_path cpu sample_cpu_head_simps)
      (simp add: sample_cpu_head_def sample_disk_def)
  then show ?thesis
    by (simp add: headflush_nonempty [of _ _ 0 ?h] sample_engine_def sample_cpu_head_def record_chunk_def)
qed


text \<open>C2: Head_PUT refines appending to the abstract list of points of the metric: an accepted point
  becomes the last stored point of its metric, also when the full head block was flushed on the
  way, a rejected point changes nothing, and the other metrics keep theirs.\<close>

theorem Head_PUT_appends:
  assumes "engine_inv e" and "flush_ready dataDir m e" and "length m < 64" and "\<And>k. mem k"
    and "Head_PUT mem junk m t v dataDir e = Ret (ok, e')"
  shows "engine_inv e' \<and>
    metric_points mem e' =
      (if ok then (metric_points mem e)(m := metric_points mem e m @ [(t, val_image v)])
       else metric_points mem e)"
  using Head_PUT_outcome [OF assms] by (auto simp: put_outcome_def stored_point_def fun_eq_iff)

theorem Head_PUT_appends_witness:
  "\<exists>e'. Head_PUT (\<lambda>_. True) 0 ''cpu'' 110 (CDouble 0) ''data'' sample_engine = Ret (True, e') \<and>
     metric_points (\<lambda>_. True) e' ''cpu'' =
       [(100, CDouble 0x4049000000000000), (110, CDouble 0x3FF8000000000000), (110, CDouble 0)]"
proof -
  have "case Head_PUT (\<lambda>_. True) 0 ''cpu'' 110 (CDouble 0) ''data'' sample_engine of
      Ret (ok, _) \<Rightarrow> ok | UB _ \<Rightarrow> False"
    by (simp add: Head_PUT_def getMetricFromHashTable_def sample_engine_def entry_head_def head_at_def
        PUT_value_def HEAD_CAPACITY_def Let_def)
  then obtain e' where ret: "Head_PUT (\<lambda>_. True) 0 ''cpu'' 110 (CDouble 0) ''data'' sample_engine = Ret (True, e')"
    by (auto split: c_result.splits)
  from Head_PUT_appends [OF sample_engine_inv sample_flush_ready _ TrueI ret] ret sample_points
  show ?thesis by (auto simp: val_image_def val_mask_def doubletobits_def bitstodouble_def)
qed



end
