(* ===== verification/Durability.thy ===== *)
theory Durability
  imports Registry
begin

text \<open>
  How the write-ahead log and the head block of a metric stay in step, across
  \<^verbatim>\<open>src/registry.c\<close> and \<^verbatim>\<open>src/wal.c\<close>: the log holds the points of the head block after
  every accepted \<open>Head_PUT\<close> and after every \<open>headflush\<close>, so that a crash between two requests
  loses at most the points that a replay skips.
\<close>

definition ram_of :: "engine \<Rightarrow> string \<Rightarrow> point list" where
  "ram_of e m = (case registry_find m (registry e) of None \<Rightarrow> [] | Some i \<Rightarrow> ram_points (registry e ! i))"

definition wal_mirrors :: "string \<Rightarrow> string \<Rightarrow> engine \<Rightarrow> bool" where
  "wal_mirrors dataDir m e \<longleftrightarrow> wal_contents dataDir m (store e) = ram_of e m"

lemma ram_of_store [simp]: "ram_of (e\<lparr>store := d\<rparr>) m = ram_of e m"
  by (simp add: ram_of_def cong: option.case_cong)

lemma ram_of_created:
  assumes "length m < 64" "\<And>k. mem k"
    and "getMetricFromHashTable mem junk m True (registry e) = Ret (Some i, reg)"
  shows "ram_of (e\<lparr>registry := reg\<rparr>) m = ram_of e m"
proof (cases "registry_find m (registry e)")
  case (Some j)
  with assms(3) show ?thesis
    by (auto simp: ram_of_def getMetricFromHashTable_def)
next
  case None
  with assms(3) have reg: "reg = registry e @ [new_entry mem junk m]"
    by (auto simp: getMetricFromHashTable_def Let_def)
  moreover have "mkey (new_entry mem junk m) = m" using assms(1) by (simp add: new_entry_def)
  ultimately show ?thesis
    using None new_entry_props(3) [where mem = mem, OF assms(2)] by (simp add: ram_of_def registry_find_append)
qed

lemma ram_of_set_head:
  assumes "engine_inv e" "registry_find m (registry e) = Some i" "mhead (registry e ! i) \<noteq> None"
    and "PUT_value (head_at e i) t v = (ok, h')"
  shows "ram_of (set_head e i h') m = ram_of e m @ (if ok then [(t, v)] else [])"
    and "store (set_head e i h') = store e"
  using set_head_PUT [OF assms(1,2) head_at_Some [OF assms(3)] assms(4)] assms(2)
  by (simp_all add: ram_of_def)

text \<open>A head block that is not full is not flushed by a put.\<close>

lemma Head_PUT_not_full:
  assumes inv: "engine_inv e" and len: "length m < 64" and mem: "\<And>k. mem k"
    and few: "length (ram_of e m) < HEAD_CAPACITY"
    and ret: "Head_PUT mem junk m t v dataDir e = Ret (ok, e')"
  shows "ram_of e' m = ram_of e m @ (if ok then [(t, v)] else [])"
    and "store e' = (if ok then wal_append dataDir m t v (store e) else store e)"
proof -
  from ret obtain i reg where get: "getMetricFromHashTable mem junk m True (registry e) = Ret (Some i, reg)"
    by (auto simp: Head_PUT_def split: c_result.splits option.splits prod.splits)
  define e1 where "e1 = e\<lparr>registry := reg\<rparr>"
  note created = getMetric_create [where mem = mem and dataDir = dataDir, OF inv len mem get, folded e1_def]
  have e1: "engine_inv e1" "registry_find m (registry e1) = Some i" "mhead (registry e1 ! i) \<noteq> None"
    using created by (simp_all add: e1_def)
  have ram1: "ram_of e1 m = ram_of e m"
    using ram_of_created [where mem = mem, OF len mem get] by (simp add: e1_def)
  obtain res h1 where put: "PUT_value (head_at e1 i) t v = (res, h1)" by fastforce
  have "head_inv (head_at e1 i)"
    using e1 registry_find_Some [OF e1(2)] entry_inv_nth head_at_Some by (fastforce simp: entry_inv_def)
  moreover have "ram_of e m = head_points (head_at e1 i)"
    unfolding ram1 [symmetric] using e1(2,3) by (auto simp: ram_of_def ram_points_def head_at_def)
  ultimately have "hsize (head_at e1 i) < HEAD_CAPACITY" using few by simp
  moreover have "h1 = head_at e1 i" if "\<not> res"
    using that put PUT_value_accepts [of "head_at e1 i" t v] PUT_value_rejected [of "head_at e1 i" t v] by auto
  ultimately have "\<not> (\<not> res \<and> hsize h1 \<ge> HEAD_CAPACITY)" by auto
  from Head_PUT_direct [OF get put [unfolded e1_def] this, of dataDir] ret
  have res: "ok = res" "e' = logged dataDir m t v res (set_head e1 i h1)" by (auto simp: e1_def)
  from ram_of_set_head [OF e1 put] ram1 res
  show "ram_of e' m = ram_of e m @ (if ok then [(t, v)] else [])"
    and "store e' = (if ok then wal_append dataDir m t v (store e) else store e)"
    by (simp_all add: logged_def) (simp_all add: e1_def)
qed

lemma ram_of_bounded: "engine_inv e \<Longrightarrow> length (ram_of e m) \<le> HEAD_CAPACITY"
proof (cases "registry_find m (registry e)")
  case (Some i)
  assume "engine_inv e"
  then have "entry_inv (registry e ! i)" using registry_find_Some [OF Some] entry_inv_nth by blast
  with Some show ?thesis
    by (cases "mhead (registry e ! i)") (simp_all add: ram_of_def ram_points_def entry_inv_def head_inv_def
        head_points_def)
qed (simp add: ram_of_def)

lemma headflush_known:
  assumes "engine_inv e" "registry_find m (registry e) = Some i" "chunkCount (registry e ! i) < 16384"
  shows "headflush mem junk m dataDir e \<noteq> UB u"
proof (cases "mhead (registry e ! i)")
  case None
  with assms(2) show ?thesis by (simp add: headflush_headless)
next
  case (Some h)
  obtain en' where "record_chunk (registry e ! i) (flush_metadata dataDir m h) = Ret en'"
    using record_chunk_Ret [OF _ assms(3)] assms(1,2) registry_find_Some entry_inv_nth by metis
  with Some assms(2) show ?thesis
    by (cases "hsize h = 0") (simp_all add: headflush_empty headflush_nonempty)
qed

text \<open>While the head block has room and the device takes another record, the log mirrors the
  head block after every Head_PUT, whether it accepts or rejects the point.\<close>

theorem Head_PUT_mirrored:
  assumes "engine_inv e" and "length m < 64" and "\<And>k. mem k"
    and "length (ram_of e m) < HEAD_CAPACITY" and "wal_ready dataDir m (Suc n) (store e)"
    and "wal_mirrors dataDir m e" and "Head_PUT mem junk m t v dataDir e = Ret (ok, e')"
  shows "wal_mirrors dataDir m e' \<and> wal_ready dataDir m n (store e')"
  using Head_PUT_not_full [OF assms(1-4,7)] assms(5,6) wal.contents_append [OF assms(5), of "(t, v)"]
    wal.ready_append [OF assms(5), of "(t, v)"]
  by (auto simp: wal_mirrors_def wal_ready_def Let_def)

lemma sample_wal:
  "wal_contents ''data'' ''cpu'' (sample_disk\<lparr>files := [''data/cpu/wal.log'' \<mapsto>
     concat (map wal_record (ram_of sample_engine ''cpu''))]\<rparr>) = ram_of sample_engine ''cpu''"
  by (simp add: wal_contents_def)

text \<open>The sample engine with the log of its head block.\<close>

definition logged_engine :: engine where
  "logged_engine = sample_engine\<lparr>store := sample_disk\<lparr>files := [''data/cpu/wal.log'' \<mapsto>
     concat (map wal_record [(100, CDouble 0x4049000000000000), (110, CDouble 0x3FF8000000000000)])]\<rparr>\<rparr>"

lemma logged_engine_props:
  "engine_inv logged_engine" "wal_mirrors ''data'' ''cpu'' logged_engine"
  "wal_ready ''data'' ''cpu'' 1 (store logged_engine)"
  "ram_of logged_engine ''cpu'' = [(100, CDouble 0x4049000000000000), (110, CDouble 0x3FF8000000000000)]"
proof -
  have ram: "ram_of sample_engine ''cpu'' = [(100, CDouble 0x4049000000000000), (110, CDouble 0x3FF8000000000000)]"
    by (simp add: ram_of_def sample_engine_def ram_points_def head_points_def)
  show "ram_of logged_engine ''cpu'' = [(100, CDouble 0x4049000000000000), (110, CDouble 0x3FF8000000000000)]"
    by (simp add: ram_of_def logged_engine_def sample_engine_def ram_points_def head_points_def)
  then show "wal_mirrors ''data'' ''cpu'' logged_engine"
    using sample_wal by (simp add: wal_mirrors_def logged_engine_def ram)
  show "engine_inv logged_engine" using sample_engine_inv by (simp add: engine_inv_def logged_engine_def)
  show "wal_ready ''data'' ''cpu'' 1 (store logged_engine)"
    by (simp add: wal_ready_def wal_old_def Let_def logged_engine_def sample_disk_def mkdir_dirs)
qed

theorem Head_PUT_mirrored_witness:
  "\<exists>e'. Head_PUT (\<lambda>_. True) 0 ''cpu'' 110 (CDouble 0) ''data'' logged_engine = Ret (True, e') \<and>
     wal_mirrors ''data'' ''cpu'' e'"
proof -
  have "case Head_PUT (\<lambda>_. True) 0 ''cpu'' 110 (CDouble 0) ''data'' logged_engine of
      Ret (ok, _) \<Rightarrow> ok | UB _ \<Rightarrow> False"
    by (simp add: Head_PUT_def getMetricFromHashTable_def logged_engine_def sample_engine_def entry_head_def
        head_at_def PUT_value_def HEAD_CAPACITY_def Let_def)
  then obtain e' where ret: "Head_PUT (\<lambda>_. True) 0 ''cpu'' 110 (CDouble 0) ''data'' logged_engine = Ret (True, e')"
    by (auto split: c_result.splits)
  have ready: "wal_ready ''data'' ''cpu'' (Suc 0) (store logged_engine)" using logged_engine_props(3) by simp
  from Head_PUT_mirrored [OF logged_engine_props(1) _ TrueI _ ready logged_engine_props(2) ret] ret
  show ?thesis by (simp add: logged_engine_props(4) HEAD_CAPACITY_def)
qed

lemma headflush_success_wal:
  assumes "engine_inv e" "flush_ready dataDir m e" "registry_find m (registry e) = Some i"
    and h: "mhead (registry e ! i) = Some h" "0 < hsize h"
    and "\<not> denied (store e) (build_wal_path 512 dataDir m)"
    and ret: "headflush mem junk m dataDir e = Ret (True, e')"
  shows "files (store e') (build_wal_path 512 dataDir m) = None"
proof -
  have "entry_inv (registry e ! i)" using assms(1) registry_find_Some [OF assms(3)] entry_inv_nth by blast
  then have "head_inv h" using h(1) by (simp add: entry_inv_def)
  moreover have "build_wal_path 512 dataDir m \<noteq> chunk_path dataDir m (chunk_id h)"
    using assms(2,3) h by (auto simp: flush_ready_def Let_def)
  ultimately have "\<not> denied (snd (flush_result dataDir m h (store e))) (build_wal_path 512 dataDir m)"
    using flush_result_frame(2) [of h "build_wal_path 512 dataDir m" dataDir m "store e"] assms(6) by simp
  moreover have "store e' = wal_truncate dataDir m (snd (flush_result dataDir m h (store e)))"
    using ret headflush_nonempty [OF assms(3) h, of mem junk dataDir]
    by (cases "record_chunk (registry e ! i) (flush_metadata dataDir m h)") (auto split: if_splits)
  ultimately show ?thesis using remove_file_gone by (simp add: wal_truncate_def)
qed

lemma headflush_failed_wal:
  assumes "engine_inv e" "flush_ready dataDir m e" "registry_find m (registry e) = Some i"
    and h: "mhead (registry e ! i) = Some h" "0 < hsize h"
    and ret: "headflush mem junk m dataDir e = Ret (False, e')"
  shows "registry e' = registry e \<and>
    files (store e') (build_wal_path 512 dataDir m) = files (store e) (build_wal_path 512 dataDir m)"
proof -
  have "fst (flush_result dataDir m h (store e)) \<noteq> 0"
    using ret by (auto simp: headflush_nonempty [OF assms(3) h] split: if_splits c_result.splits)
  from headflush_failed [OF assms(1,2,3) h this, of mem junk] ret show ?thesis by auto
qed

text \<open>Headflush keeps the log in step too: after success both the log and the head block are
  empty, and a flush that fails leaves both as they were.\<close>

theorem headflush_mirrored:
  assumes "engine_inv e" and "flush_ready dataDir m e" and "\<And>k. mem k"
    and "wal_mirrors dataDir m e" and "\<not> denied (store e) (build_wal_path 512 dataDir m)"
    and "headflush mem junk m dataDir e = Ret (ok, e')"
  shows "wal_mirrors dataDir m e' \<and> ram_of e' m = (if ok then [] else ram_of e m)"
proof -
  from assms(6) obtain i where find: "registry_find m (registry e) = Some i"
    by (cases "registry_find m (registry e)") (auto simp: headflush_unknown)
  consider (headless) "mhead (registry e ! i) = None"
    | (empty) h where "mhead (registry e ! i) = Some h" "hsize h = 0"
    | (points) h where "mhead (registry e ! i) = Some h" "0 < hsize h"
    by (cases "mhead (registry e ! i)") auto
  then show ?thesis
  proof cases
    case headless
    with assms(4,6) find show ?thesis by (auto simp: headflush_headless)
  next
    case empty
    with assms(4,6) find show ?thesis
      by (auto simp: headflush_empty ram_of_def ram_points_def head_points_Nil)
  next
    case points
    show ?thesis
    proof (cases ok)
      case True
      from headflush_outcome [OF assms(1-3,6)] find True have ram: "ram_of e' m = []"
        by (simp add: ram_of_def)
      have "files (store e') (build_wal_path 512 dataDir m) = None"
        using headflush_success_wal [OF assms(1,2) find points assms(5), of mem junk e'] assms(6) True by simp
      then show ?thesis using ram True by (simp add: wal_mirrors_def wal_contents_def)
    next
      case False
      from headflush_failed_wal [OF assms(1,2) find points, of mem junk e'] assms(6) False
      have "registry e' = registry e"
        "files (store e') (build_wal_path 512 dataDir m) = files (store e) (build_wal_path 512 dataDir m)"
        by simp_all
      moreover from this have "ram_of e' m = ram_of e m" by (simp only: ram_of_def)
      ultimately show ?thesis using assms(4) False by (simp add: wal_mirrors_def wal_contents_def)
    qed
  qed
qed

lemma logged_flush_ready: "flush_ready ''data'' ''cpu'' logged_engine"
  using sample_flush_ready by (simp add: flush_ready_def logged_engine_def chunk_files_def sample_engine_def
      sample_disk_def)

theorem headflush_mirrored_witness:
  "case headflush (\<lambda>_. True) 0 ''cpu'' ''data'' logged_engine of
     Ret (ok, e') \<Rightarrow> wal_mirrors ''data'' ''cpu'' e' \<and> (ok \<longrightarrow> ram_of e' ''cpu'' = []) | UB _ \<Rightarrow> False"
proof -
  have "\<not> (\<exists>u. headflush (\<lambda>_. True) 0 ''cpu'' ''data'' logged_engine = UB u)"
    using headflush_known [OF logged_engine_props(1), of "''cpu''"]
    by (simp add: logged_engine_def sample_engine_def)
  then obtain ok e' where ret: "headflush (\<lambda>_. True) 0 ''cpu'' ''data'' logged_engine = Ret (ok, e')"
    by (cases "headflush (\<lambda>_. True) 0 ''cpu'' ''data'' logged_engine") auto
  have usable: "\<not> denied (store logged_engine) (build_wal_path 512 ''data'' ''cpu'')"
    by (simp add: logged_engine_def sample_disk_def)
  from headflush_mirrored [OF logged_engine_props(1) logged_flush_ready TrueI logged_engine_props(2) usable ret] ret
  show ?thesis by simp
qed

text \<open>When the process dies between two requests, replaying the log of a metric into a new head
  block brings back the points the head block held that are newer than everything before them:
  all of them exactly when their timestamps are strictly increasing and above the value that the
  unset field lastTimestamp of the new block happens to have.\<close>

theorem crash_between_requests:
  assumes "engine_inv e" and "wal_mirrors dataDir m e"
    and "\<not> denied (store e) (build_wal_path 512 dataDir m)"
    and "getNewHeadBlock mem junk = Some h0"
  shows "head_points (wal_replay dataDir m (store e) h0) = newer junk (ram_of e m) \<and>
    (head_points (wal_replay dataDir m (store e) h0) = ram_of e m \<longleftrightarrow>
       sorted_wrt (<) (map (sint \<circ> fst) (ram_of e m)) \<and> (\<forall>p \<in> set (ram_of e m). sint junk < sint (fst p)))"
proof -
  have h0: "h0 = empty_head junk"
    using assms(4) by (simp add: getNewHeadBlock_def empty_head_def split: if_splits)
  have "length (ram_of e m) \<le> HEAD_CAPACITY"
    using assms(1) by (rule ram_of_bounded)
  then have "length (newer junk (ram_of e m)) \<le> HEAD_CAPACITY"
    using length_newer [of junk "ram_of e m"] by linarith
  then have "head_points (wal_replay dataDir m (store e) h0) = newer junk (ram_of e m)"
    using wal_replay_points(2) [OF head_inv_empty_head assms(3)] assms(2) by (simp add: h0 wal_mirrors_def)
  then show ?thesis by (simp add: newer_all_iff)
qed

theorem crash_between_requests_witness:
  "head_points (wal_replay ''data'' ''cpu'' (store logged_engine) (empty_head 0)) = ram_of logged_engine ''cpu''"
proof -
  have usable: "\<not> denied (store logged_engine) (build_wal_path 512 ''data'' ''cpu'')"
    by (simp add: logged_engine_def sample_disk_def)
  have new: "getNewHeadBlock (\<lambda>_. True) 0 = Some (empty_head 0)"
    by (simp add: getNewHeadBlock_def empty_head_def)
  from crash_between_requests [OF logged_engine_props(1,2) usable new]
  show ?thesis by (simp add: logged_engine_props(4))
qed

end
