(* ===== verification/Query.thy ===== *)
theory Query
  imports Registry
begin

text \<open>
  The read requests of \<^verbatim>\<open>src/registry.c\<close>: \<open>decompressChunk\<close>, \<open>Head_GET\<close>, \<open>Head_STATS\<close>,
  \<open>print_metric\<close>, and the flush of everything at shutdown, \<open>cleanupRegistry\<close>.

  A text buffer is the C string it holds together with its capacity and with the offset the code
  keeps, which runs ahead of the string once a line was cut by \<open>snprintf\<close>: what is copied behind
  the terminating NUL is not part of the string.
\<close>

section \<open>Decompressing a chunk\<close>

definition disk_line :: "point \<Rightarrow> string" where
  "disk_line p = show_int (sint (fst p)) @ tab @ fmt_f 2 (snd p) @ newline"

text \<open>One point inside the interval: text, offset, capacity, count.\<close>

definition decompress_point ::
    "point \<Rightarrow> string \<times> nat \<times> nat \<times> int \<Rightarrow> (string \<times> nat \<times> nat \<times> int) c_result" where
  "decompress_point p st =
     (let (chunkResult, current_len, capacity, count) = st;
          count = count + 1;
          temp = bounded 128 (disk_line p);
          n = length (disk_line p);
          capacity = (if current_len + n + 1 > capacity then capacity * 2 else capacity)
      in if current_len + length temp + 1 > capacity then UB HeapOverflow
         else Ret (if length chunkResult = current_len then chunkResult @ temp else chunkResult,
                   current_len + n, capacity, count))"

primrec decompress_loop ::
    "long \<Rightarrow> long \<Rightarrow> point list \<Rightarrow> string \<times> nat \<times> nat \<times> int \<Rightarrow> (string \<times> nat \<times> nat \<times> int) c_result" where
  "decompress_loop s e [] st = Ret st"
| "decompress_loop s e (p # pts) st =
     (if in_interval s e p then
        (case decompress_point p st of UB u \<Rightarrow> UB u | Ret st \<Rightarrow> decompress_loop s e pts st)
      else decompress_loop s e pts st)"

definition decompressChunk ::
    "allocator \<Rightarrow> string \<Rightarrow> long \<Rightarrow> long \<Rightarrow> disk \<Rightarrow> (string \<times> int) option c_result" where
  "decompressChunk mem filepath s e d =
     (case chunkread mem filepath d of
        None \<Rightarrow> Ret None
      | Some (header, payload) \<Rightarrow>
          (case decompress_loop s e (decode_points header payload) ([], 0, 1024, 0) of
             UB u \<Rightarrow> UB u
           | Ret (chunkResult, current_len, capacity, count) \<Rightarrow> Ret (Some (chunkResult, count))))"

section \<open>GET\<close>

definition GET_chunk ::
    "allocator \<Rightarrow> disk \<Rightarrow> long \<Rightarrow> long \<Rightarrow> ChunkMetadata \<Rightarrow> string \<times> nat \<times> nat \<times> int \<Rightarrow>
     (string \<times> nat \<times> nat \<times> int) c_result" where
  "GET_chunk mem d s e cm st =
     (if sint (start_ts cm) \<le> sint e \<and> sint (end_ts cm) \<ge> sint s then
        (case decompressChunk mem (filename cm) s e d of
           UB u \<Rightarrow> UB u
         | Ret None \<Rightarrow> Ret st
         | Ret (Some (diskData, pointsInChunk)) \<Rightarrow>
             let (result, current_len, capacity, found) = st;
                 found = found + pointsInChunk;
                 diskLen = length diskData;
                 capacity = (if current_len + diskLen + 1 > capacity then current_len + diskLen + 2048
                             else capacity)
             in if length result + diskLen + 1 > capacity then UB HeapOverflow
                else Ret (result @ diskData, current_len + diskLen, capacity, found))
      else Ret st)"

primrec GET_chunks ::
    "allocator \<Rightarrow> disk \<Rightarrow> long \<Rightarrow> long \<Rightarrow> ChunkMetadata list \<Rightarrow> string \<times> nat \<times> nat \<times> int \<Rightarrow>
     (string \<times> nat \<times> nat \<times> int) c_result" where
  "GET_chunks mem d s e [] st = Ret st"
| "GET_chunks mem d s e (cm # cms) st =
     (case GET_chunk mem d s e cm st of UB u \<Rightarrow> UB u | Ret st \<Rightarrow> GET_chunks mem d s e cms st)"

text \<open>
  \<open>strcat\<close> puts the text of the head block behind that of the chunks, but \<open>current_len\<close> stays,
  and \<open>strcpy\<close> of the summary writes at \<open>current_len\<close>.
\<close>

definition Head_GET ::
    "allocator \<Rightarrow> string \<Rightarrow> long \<Rightarrow> long \<Rightarrow> engine \<Rightarrow> (string \<times> int) option c_result" where
  "Head_GET mem metricName s e eng =
     (case registry_find metricName (registry eng) of
        None \<Rightarrow> Ret None
      | Some i \<Rightarrow>
          let entry = registry eng ! i in
          (case GET_chunks mem (store eng) s e (live_chunks entry) ([], 0, 2048, 0) of
             UB u \<Rightarrow> UB u
           | Ret (result, current_len, capacity, found) \<Rightarrow>
               if mhead entry = None then UB NullDeref
               else
                 (case GET_value mem (mhead entry) s e of
                    UB u \<Rightarrow> UB u
                  | Ret ram \<Rightarrow>
                      let (result, found) =
                            (case ram of
                               None \<Rightarrow> (result, found)
                             | Some (ramData, ramPoints) \<Rightarrow> (result @ ramData, found + ramPoints));
                          summary = ''('' @ show_int found @ '' points)'' @ newline
                      in Ret (Some (take current_len result @ summary, found)))))"

section \<open>STATS\<close>

definition stats_printf :: "string \<Rightarrow> string \<times> nat \<Rightarrow> (string \<times> nat) c_result" where
  "stats_printf s st =
     (let (stats, offset) = st in
      if offset > 512 then UB HeapOverflow
      else Ret (if offset = 512 then stats else stats @ bounded (512 - offset) s, offset + length s))"

definition stats_timestamp :: "string \<Rightarrow> int \<Rightarrow> string" where
  "stats_timestamp which ts =
     which @ '' timestamp: '' @ (if ts \<noteq> -1 then show_int ts else ''N/A'') @ newline"

definition Head_STATS :: "allocator \<Rightarrow> string \<Rightarrow> engine \<Rightarrow> string option c_result" where
  "Head_STATS mem metricName eng =
     (case registry_find metricName (registry eng) of
        None \<Rightarrow> Ret (Some (bounded 64 (''Metric not found: '' @ metricName @ newline)))
      | Some i \<Rightarrow>
          if \<not> mem 512 then Ret None
          else
            let entry = registry eng ! i in
            (case mhead entry of
               None \<Rightarrow> UB NullDeref
             | Some head \<Rightarrow>
                 let in_memory = hsize head;
                     first_ram_ts = (if in_memory > 0 then sint (timestamps head ! 0) else -1);
                     last_ram_ts = (if in_memory > 0 then sint (lastTimestamp head) else -1);
                     disk_chunks = chunkCount entry;
                     first_disk_ts = (if disk_chunks > 0 then sint (start_ts (chunks entry ! 0)) else -1);
                     last_disk_ts = (if disk_chunks > 0
                                     then sint (end_ts (chunks entry ! (disk_chunks - 1))) else -1);
                     overall_first = (if first_disk_ts \<noteq> -1 then first_disk_ts else first_ram_ts);
                     overall_last = (if last_ram_ts \<noteq> -1 then last_ram_ts else last_disk_ts)
                 in case stats_printf (''metric: '' @ metricName @ newline) ([], 0) of
                      UB u \<Rightarrow> UB u | Ret st \<Rightarrow>
                    case stats_printf (''in memory: '' @ show_int (int in_memory) @ newline) st of
                      UB u \<Rightarrow> UB u | Ret st \<Rightarrow>
                    case stats_printf (''disk chunks: '' @ show_int (int disk_chunks) @ newline) st of
                      UB u \<Rightarrow> UB u | Ret st \<Rightarrow>
                    case stats_printf (stats_timestamp ''first'' overall_first) st of
                      UB u \<Rightarrow> UB u | Ret st \<Rightarrow>
                    case stats_printf (stats_timestamp ''last'' overall_last) st of
                      UB u \<Rightarrow> UB u | Ret (stats, offset) \<Rightarrow> Ret (Some stats)))"

section \<open>Shutdown\<close>

text \<open>The first entry is flushed when it has points, and then deleted.\<close>

definition cleanup_entry ::
    "allocator \<Rightarrow> long \<Rightarrow> string \<Rightarrow> metric_registry \<Rightarrow> engine \<Rightarrow> engine c_result" where
  "cleanup_entry mem junk dataDir entry e =
     (let flush = (case mhead entry of None \<Rightarrow> False | Some h \<Rightarrow> hsize h > 0) in
      case (if flush then headflush mem junk (mkey entry) dataDir e else Ret (True, e)) of
        UB u \<Rightarrow> UB u
      | Ret (_, e) \<Rightarrow> Ret (e\<lparr>registry := tl (registry e)\<rparr>))"

primrec cleanup_loop :: "nat \<Rightarrow> allocator \<Rightarrow> long \<Rightarrow> string \<Rightarrow> engine \<Rightarrow> engine c_result" where
  "cleanup_loop 0 mem junk dataDir e = Ret e"
| "cleanup_loop (Suc n) mem junk dataDir e =
     (case cleanup_entry mem junk dataDir (hd (registry e)) e of
        UB u \<Rightarrow> UB u
      | Ret e \<Rightarrow> cleanup_loop n mem junk dataDir e)"

definition cleanupRegistry :: "allocator \<Rightarrow> long \<Rightarrow> string \<Rightarrow> engine \<Rightarrow> engine c_result" where
  "cleanupRegistry mem junk dataDir e = cleanup_loop (length (registry e)) mem junk dataDir e"

section \<open>What decompressChunk returns\<close>

lemma disk_line_length: "length (disk_line p) \<le> 1023"
  using show_long_length [of "fst p"] fmt_f_length [of 2 "snd p"]
  by (simp add: disk_line_def tab_def newline_def)

definition short_line :: "point \<Rightarrow> bool" where
  "short_line p \<longleftrightarrow> length (disk_line p) < 128"

text \<open>One doubling always makes room for a line, so no write passes the end of the buffer.\<close>

lemma decompress_point_Ret:
  assumes "len < cap" "1024 \<le> cap"
  obtains buf' cap' where
    "decompress_point p (buf, len, cap, n) = Ret (buf', len + length (disk_line p), cap', n + 1)"
    and "len + length (disk_line p) < cap'" "1024 \<le> cap'"
    and "short_line p \<Longrightarrow> length buf = len \<Longrightarrow> buf' = buf @ disk_line p"
proof -
  define cap' where "cap' = (if len + length (disk_line p) + 1 > cap then cap * 2 else cap)"
  define buf' where "buf' = (if length buf = len then buf @ bounded 128 (disk_line p) else buf)"
  have room: "len + length (disk_line p) < cap'" "1024 \<le> cap'"
    using assms disk_line_length [of p] by (auto simp: cap'_def)
  moreover have "length (bounded 128 (disk_line p)) \<le> length (disk_line p)" by (simp add: bounded_def)
  ultimately have "decompress_point p (buf, len, cap, n) = Ret (buf', len + length (disk_line p), cap', n + 1)"
    by (auto simp: decompress_point_def Let_def buf'_def cap'_def)
  then show thesis using room by (rule that) (simp add: buf'_def short_line_def)
qed

lemma decompress_loop_Ret:
  "len < cap \<Longrightarrow> 1024 \<le> cap \<Longrightarrow>
     \<exists>buf' len' cap'. decompress_loop s e pts (buf, len, cap, n) =
         Ret (buf', len', cap', n + int (length (filter (in_interval s e) pts))) \<and>
       ((\<forall>p \<in> set (filter (in_interval s e) pts). short_line p) \<longrightarrow> length buf = len \<longrightarrow>
          buf' = buf @ concat (map disk_line (filter (in_interval s e) pts)))"
proof (induction pts arbitrary: buf len cap n)
  case Nil
  then show ?case by simp
next
  case (Cons p pts)
  show ?case
  proof (cases "in_interval s e p")
    case False
    with Cons show ?thesis by simp
  next
    case True
    obtain buf1 cap1 where p: "decompress_point p (buf, len, cap, n) = Ret (buf1, len + length (disk_line p), cap1, n + 1)"
      "len + length (disk_line p) < cap1" "1024 \<le> cap1"
      "short_line p \<Longrightarrow> length buf = len \<Longrightarrow> buf1 = buf @ disk_line p"
      using decompress_point_Ret [OF Cons.prems] by blast
    from Cons.IH [OF p(2,3), of buf1 "n + 1"] obtain buf' len' cap' where
      "decompress_loop s e pts (buf1, len + length (disk_line p), cap1, n + 1) =
         Ret (buf', len', cap', n + 1 + int (length (filter (in_interval s e) pts)))"
      and "(\<forall>p \<in> set (filter (in_interval s e) pts). short_line p) \<longrightarrow> length buf1 = len + length (disk_line p) \<longrightarrow>
          buf' = buf1 @ concat (map disk_line (filter (in_interval s e) pts))" by blast
    with True p(1,4) show ?thesis by auto
  qed
qed

lemma decompressChunk_Ret:
  "\<exists>buf. decompressChunk mem fp s e d =
       (if chunkread mem fp d = None then Ret None
        else Ret (Some (buf, int (length (filter (in_interval s e) (chunk_points mem d fp)))))) \<and>
     ((\<forall>p \<in> set (filter (in_interval s e) (chunk_points mem d fp)). short_line p) \<longrightarrow>
        buf = concat (map disk_line (filter (in_interval s e) (chunk_points mem d fp))))"
proof (cases "chunkread mem fp d")
  case None
  then show ?thesis by (simp add: decompressChunk_def chunk_points_def)
next
  case (Some hp)
  obtain h pl where hp: "hp = (h, pl)" by force
  from decompress_loop_Ret [of 0 1024 s e "decode_points h pl" "[]" 0] Some show ?thesis
    by (auto simp: decompressChunk_def chunk_points_def hp)
qed

section \<open>What Head_GET returns\<close>

definition overlaps :: "long \<Rightarrow> long \<Rightarrow> ChunkMetadata \<Rightarrow> bool" where
  "overlaps s e cm \<longleftrightarrow> sint (start_ts cm) \<le> sint e \<and> sint (end_ts cm) \<ge> sint s"

definition disk_answer ::
    "allocator \<Rightarrow> disk \<Rightarrow> long \<Rightarrow> long \<Rightarrow> ChunkMetadata list \<Rightarrow> point list" where
  "disk_answer mem d s e cms =
     concat (map (\<lambda>cm. filter (in_interval s e) (chunk_points mem d (filename cm))) (filter (overlaps s e) cms))"

lemma disk_answer_Cons:
  "disk_answer mem d s e (cm # cms) =
     (if overlaps s e cm then filter (in_interval s e) (chunk_points mem d (filename cm)) else []) @
     disk_answer mem d s e cms"
  by (simp add: disk_answer_def)

lemma GET_chunk_Ret:
  assumes "length buf < cap"
    and short: "overlaps s e cm \<Longrightarrow> \<forall>p \<in> set (filter (in_interval s e) (chunk_points mem d (filename cm))). short_line p"
  shows "\<exists>cap'. GET_chunk mem d s e cm (buf, length buf, cap, n) =
      Ret (buf @ concat (map disk_line (disk_answer mem d s e [cm])),
           length (buf @ concat (map disk_line (disk_answer mem d s e [cm]))), cap',
           n + int (length (disk_answer mem d s e [cm]))) \<and>
      length (buf @ concat (map disk_line (disk_answer mem d s e [cm]))) < cap'"
proof (cases "overlaps s e cm")
  case False
  then have "GET_chunk mem d s e cm (buf, length buf, cap, n) = Ret (buf, length buf, cap, n)"
    by (auto simp: GET_chunk_def overlaps_def)
  with False assms(1) show ?thesis by (simp add: disk_answer_def)
next
  case True
  let ?pts = "filter (in_interval s e) (chunk_points mem d (filename cm))"
  from decompressChunk_Ret [of mem "filename cm" s e d] short [OF True] obtain buf' where
    dec: "decompressChunk mem (filename cm) s e d =
       (if chunkread mem (filename cm) d = None then Ret None else Ret (Some (buf', int (length ?pts))))"
    and buf': "buf' = concat (map disk_line ?pts)" by blast
  have pts: "disk_answer mem d s e [cm] = ?pts" using True by (simp add: disk_answer_def)
  show ?thesis
  proof (cases "chunkread mem (filename cm) d")
    case None
    then have "?pts = []" by (simp add: chunk_points_def)
    with None True dec pts assms(1) show ?thesis by (simp add: GET_chunk_def overlaps_def)
  next
    case (Some hp)
    with True dec pts assms(1) show ?thesis
      by (simp add: GET_chunk_def overlaps_def Let_def flip: buf')
  qed
qed

lemma GET_chunks_Ret:
  "length buf < cap \<Longrightarrow> \<forall>p \<in> set (disk_answer mem d s e cms). short_line p \<Longrightarrow>
     \<exists>cap'. GET_chunks mem d s e cms (buf, length buf, cap, n) =
       Ret (buf @ concat (map disk_line (disk_answer mem d s e cms)),
            length (buf @ concat (map disk_line (disk_answer mem d s e cms))), cap',
            n + int (length (disk_answer mem d s e cms)))"
proof (induction cms arbitrary: buf cap n)
  case Nil
  then show ?case by (simp add: disk_answer_def)
next
  case (Cons cm cms)
  let ?one = "concat (map disk_line (disk_answer mem d s e [cm]))"
  have "\<forall>p \<in> set (filter (in_interval s e) (chunk_points mem d (filename cm))). short_line p" if "overlaps s e cm"
    using Cons.prems(2) that by (simp add: disk_answer_Cons)
  from GET_chunk_Ret [OF Cons.prems(1) this, of n] obtain cap1 where
    one: "GET_chunk mem d s e cm (buf, length buf, cap, n) =
      Ret (buf @ ?one, length (buf @ ?one), cap1, n + int (length (disk_answer mem d s e [cm])))"
    "length (buf @ ?one) < cap1" by blast
  have "\<forall>p \<in> set (disk_answer mem d s e cms). short_line p"
    using Cons.prems(2) by (simp add: disk_answer_Cons)
  note rest = Cons.IH [OF one(2) this, of "n + int (length (disk_answer mem d s e [cm]))"]
  have "disk_answer mem d s e (cm # cms) = disk_answer mem d s e [cm] @ disk_answer mem d s e cms"
    by (simp add: disk_answer_def)
  with rest one(1) show ?case by (auto simp: add.assoc)
qed

section \<open>Properties\<close>

text \<open>\<open>decompressChunk\<close> never writes past its growing buffer, whatever the chunk holds: one
  doubling makes room for the longest line that a timestamp and a double can print.\<close>

lemma decompressChunk_safe:
  "decompressChunk mem fp s e d \<noteq> UB u"
  using decompressChunk_Ret [of mem fp s e d] by (auto split: if_splits)

text \<open>The text of decompressChunk is one line for each point of the chunk inside the half-open
  interval, in the order of the chunk, and the count is their number, when no line is longer than
  the 127 characters of the buffer it is formatted in.\<close>

theorem decompressChunk_lines:
  assumes "inside = filter (in_interval s e) (chunk_points mem d fp)"
    and "\<forall>p \<in> set inside. length (disk_line p) \<le> 127"
  shows "decompressChunk mem fp s e d =
    (if chunkread mem fp d = None then Ret None
     else Ret (Some (concat (map disk_line inside), int (length inside))))"
proof -
  have "\<forall>p \<in> set inside. short_line p" using assms(2) by (auto simp: short_line_def)
  with decompressChunk_Ret [of mem fp s e d] show ?thesis by (auto simp: assms(1))
qed

lemma sample_flush_result: "fst (flush_result ''data'' ''cpu'' sample_cpu_head sample_disk) = 0"
proof -
  have cpu: "mkdir ''data/cpu'' sample_disk = sample_disk" by (simp add: mkdir_def sample_disk_def)
  have opened: "fopen_wb ''data/cpu/cpu_100.chunk'' sample_disk =
      Some (sample_disk\<lparr>files := (files sample_disk)(''data/cpu/cpu_100.chunk'' \<mapsto> [])\<rparr>)"
    by (simp add: fopen_wb_def parent_exists_def dirname_def sample_disk_def)
  show ?thesis
    using flushtochunk_succeeds [OF _ _ _ _ opened, of 2 "[100, 110]" "hvalues sample_cpu_head"]
    by (simp add: flush_result_def sample_chunk_path cpu sample_cpu_head_simps)
      (simp add: sample_cpu_head_def sample_disk_def)
qed

theorem decompressChunk_lines_witness:
  "decompressChunk (\<lambda>_. True) ''data/cpu/cpu_100.chunk'' 100 110
     (snd (flush_result ''data'' ''cpu'' sample_cpu_head sample_disk)) =
   Ret (Some (''100'' @ tab @ ''50.00'' @ newline, 1))"
proof -
  let ?d = "snd (flush_result ''data'' ''cpu'' sample_cpu_head sample_disk)"
  have inv: "head_inv sample_cpu_head" by (simp add: head_inv_def sample_cpu_head_def HEAD_CAPACITY_def)
  have fit: "points_fit (head_points sample_cpu_head)" unfolding sample_cpu_head_simps by code_simp
  have "chunk_points (\<lambda>_. True) ?d ''data/cpu/cpu_100.chunk'' = map stored_point (head_points sample_cpu_head)"
    using flush_result_stored [OF inv _ fit, of "\<lambda>_. True" sample_disk "''data''" "''cpu''"] sample_flush_result
    by (simp add: sample_cpu_head_simps sample_chunk_path sample_disk_def)
  moreover have "filter (in_interval 100 110) (map stored_point (head_points sample_cpu_head)) =
      [(100, CDouble 0x4049000000000000)]"
    unfolding sample_cpu_head_simps by code_simp
  moreover have line: "disk_line (100, CDouble 0x4049000000000000) = ''100'' @ tab @ ''50.00'' @ newline"
    by code_simp
  moreover from calculation(1,2) have "chunkread (\<lambda>_. True) ''data/cpu/cpu_100.chunk'' ?d \<noteq> None"
    by (auto simp: chunk_points_def split: option.splits)
  ultimately show ?thesis
    using decompressChunk_lines [of "[(100, CDouble 0x4049000000000000)]" 100 110 "\<lambda>_. True" ?d
        "''data/cpu/cpu_100.chunk''"]
    by (auto simp: tab_def newline_def)
qed

text \<open>C32: Head_GET answers with the points of the chunks in the interval and a count line for them
  and the points of the head block together. The lines of the head block, which GET_value
  produced and which were appended to the answer, are overwritten by the count line: points that
  were not flushed yet are counted but never shown.\<close>

theorem Head_GET_omits_head:
  assumes "registry_find m (registry eng) = Some i" and "mhead (registry eng ! i) = Some h" and "head_inv h"
    and "\<forall>p \<in> set (disk_answer mem (store eng) s e (live_chunks (registry eng ! i))). length (disk_line p) \<le> 127"
    and "GET_value mem (Some h) s e \<noteq> Ret None"
    and "Head_GET mem m s e eng = Ret (Some (reply, n))"
  shows "reply = concat (map disk_line (disk_answer mem (store eng) s e (live_chunks (registry eng ! i)))) @
           count_line ''points'' (length (disk_answer mem (store eng) s e (live_chunks (registry eng ! i))) +
                                  length (interval_points h s e)) \<and>
         n = int (length (disk_answer mem (store eng) s e (live_chunks (registry eng ! i))) +
                  length (interval_points h s e))"
proof -
  let ?disk = "disk_answer mem (store eng) s e (live_chunks (registry eng ! i))"
  have "\<forall>p \<in> set ?disk. short_line p" using assms(4) by (auto simp: short_line_def)
  from GET_chunks_Ret [OF _ this, of "[]" 2048 0] obtain cap where
    chunks: "GET_chunks mem (store eng) s e (live_chunks (registry eng ! i)) ([], 0, 2048, 0) =
      Ret (concat (map disk_line ?disk), length (concat (map disk_line ?disk)), cap, int (length ?disk))" by auto
  have "GET_value mem (Some h) s e \<noteq> UB u" for u
    using assms(1,2,6) chunks by (auto simp: Head_GET_def Let_def)
  with assms(5) obtain ram k where ram: "GET_value mem (Some h) s e = Ret (Some (ram, k))"
    by (cases "GET_value mem (Some h) s e") auto
  then have "k = int (length (interval_points h s e))" by (rule GET_value_count [OF assms(3)])
  with assms(1,2,6) chunks ram show ?thesis
    by (auto simp: Head_GET_def Let_def count_line_def add.commute)
qed

theorem Head_GET_omits_head_witness:
  "Head_GET (\<lambda>_. True) ''cpu'' 0 1000 sample_engine = Ret (Some (''(2 points)'' @ newline, 2))"
proof -
  have find: "registry_find ''cpu'' (registry sample_engine) = Some 0"
    and head: "mhead (registry sample_engine ! 0) = Some sample_cpu_head"
    and none: "live_chunks (registry sample_engine ! 0) = []"
    by (simp_all add: sample_engine_def sample_cpu_head_def live_chunks_def)
  have inv: "head_inv sample_cpu_head" by (simp add: head_inv_def sample_cpu_head_def HEAD_CAPACITY_def)
  have "case GET_value (\<lambda>_. True) (Some sample_cpu_head) 0 1000 of Ret (Some _) \<Rightarrow> True | _ \<Rightarrow> False"
    by code_simp
  then obtain r where ram: "GET_value (\<lambda>_. True) (Some sample_cpu_head) 0 1000 = Ret (Some r)"
    by (auto split: c_result.splits option.splits)
  have two: "length (interval_points sample_cpu_head 0 1000) = 2" by code_simp
  have shown: "count_line ''points'' 2 = ''(2 points)'' @ newline" by code_simp
  obtain reply n where get: "Head_GET (\<lambda>_. True) ''cpu'' 0 1000 sample_engine = Ret (Some (reply, n))"
    using find head none ram by (cases r) (simp add: Head_GET_def Let_def)
  from Head_GET_omits_head [OF find head inv _ _ get] none ram two shown get show ?thesis
    by (simp add: disk_answer_def del: add_2_eq_Suc add_2_eq_Suc')
qed

text \<open>The text of STATS over the first and last point of a metric.\<close>

definition first_stored :: "metric_registry \<Rightarrow> HeadBlock \<Rightarrow> long option" where
  "first_stored en h =
     (case live_chunks en of
        cm # _ \<Rightarrow> Some (start_ts cm)
      | [] \<Rightarrow> (case head_points h of p # _ \<Rightarrow> Some (fst p) | [] \<Rightarrow> None))"

definition last_stored :: "metric_registry \<Rightarrow> HeadBlock \<Rightarrow> long option" where
  "last_stored en h =
     (if head_points h \<noteq> [] then Some (fst (last (head_points h)))
      else if live_chunks en \<noteq> [] then Some (end_ts (last (live_chunks en))) else None)"

definition timestamp_line :: "string \<Rightarrow> long option \<Rightarrow> string" where
  "timestamp_line which ts =
     which @ '' timestamp: '' @ (case ts of None \<Rightarrow> ''N/A'' | Some t \<Rightarrow> show_int (sint t)) @ newline"

definition stats_report :: "string \<Rightarrow> metric_registry \<Rightarrow> HeadBlock \<Rightarrow> string" where
  "stats_report m en h =
     ''metric: '' @ m @ newline @
     ''in memory: '' @ show_int (int (length (head_points h))) @ newline @
     ''disk chunks: '' @ show_int (int (length (live_chunks en))) @ newline @
     timestamp_line ''first'' (first_stored en h) @ timestamp_line ''last'' (last_stored en h)"

lemma stats_printf_Ret:
  "length buf = off \<Longrightarrow> off + length s < 512 \<Longrightarrow> stats_printf s (buf, off) = Ret (buf @ s, off + length s)"
  by (simp add: stats_printf_def)

lemma show_small_length: "n \<le> 50000 \<Longrightarrow> length (show_int (int n)) \<le> 5"
  using show_dec_length [of "int n" 5] by (simp add: show_int_def)

lemma stats_timestamp_line:
  assumes "ts \<noteq> Some (-1)"
  shows "stats_timestamp which (case ts of None \<Rightarrow> -1 | Some t \<Rightarrow> sint t) = timestamp_line which ts"
proof (cases ts)
  case (Some t)
  with assms have "sint t \<noteq> sint (-1 :: long)" by (metis signed_word_eqI)
  with Some show ?thesis by (simp add: stats_timestamp_def timestamp_line_def)
qed (simp add: stats_timestamp_def timestamp_line_def)

lemma timestamp_line_length: "length (timestamp_line which ts) \<le> length which + 45"
  by (cases ts) (auto simp: timestamp_line_def newline_def intro: order.strict_implies_order [OF less_le_trans [OF show_long_length]])

lemma stats_first:
  assumes "entry_inv en" "mhead en = Some h" "first_stored en h \<noteq> Some (-1)"
  defines "disk \<equiv> if chunkCount en > 0 then sint (start_ts (chunks en ! 0)) else -1"
    and "ram \<equiv> if hsize h > 0 then sint (timestamps h ! 0) else -1"
  shows "(if disk \<noteq> -1 then disk else ram) = (case first_stored en h of None \<Rightarrow> -1 | Some t \<Rightarrow> sint t)"
proof (cases "chunkCount en > 0")
  case True
  with assms(1) obtain cm cms n where "chunks en = cm # cms" "chunkCount en = Suc n"
    by (cases "chunks en"; cases "chunkCount en") (auto simp: entry_inv_def)
  then have "live_chunks en = chunks en ! 0 # take n cms" by (simp add: live_chunks_def)
  then have stored: "first_stored en h = Some (start_ts (chunks en ! 0))"
    by (simp add: first_stored_def)
  with assms(3) have "sint (start_ts (chunks en ! 0)) \<noteq> sint (-1 :: long)" by (metis signed_word_eqI)
  with True stored show ?thesis by (simp add: disk_def)
next
  case False
  then have none: "live_chunks en = []" by (simp add: live_chunks_def)
  have inv: "head_inv h" using assms(1,2) by (simp add: entry_inv_def)
  have "first_stored en h = (if hsize h > 0 then Some (timestamps h ! 0) else None)"
  proof (cases "hsize h > 0")
    case True
    with inv have "head_points h ! 0 = (timestamps h ! 0, hvalues h ! 0)" "head_points h \<noteq> []"
      by (auto simp: head_points_def head_inv_def)
    then show ?thesis using True none by (cases "head_points h") (simp_all add: first_stored_def)
  qed (simp add: first_stored_def none head_points_Nil)
  with False show ?thesis by (simp add: disk_def ram_def)
qed

lemma stats_last:
  assumes "entry_inv en" "mhead en = Some h" "last_stored en h \<noteq> Some (-1)"
  defines "disk \<equiv> if chunkCount en > 0 then sint (end_ts (chunks en ! (chunkCount en - 1))) else -1"
    and "ram \<equiv> if hsize h > 0 then sint (lastTimestamp h) else -1"
  shows "(if ram \<noteq> -1 then ram else disk) = (case last_stored en h of None \<Rightarrow> -1 | Some t \<Rightarrow> sint t)"
proof (cases "hsize h > 0")
  case True
  have inv: "head_inv h" using assms(1,2) by (simp add: entry_inv_def)
  with True have "head_points h \<noteq> []" by (metis length_head_points less_numeral_extra(3) list.size(3))
  then have stored: "last_stored en h = Some (lastTimestamp h)"
    using head_points_last [OF inv True] by (simp add: last_stored_def)
  with assms(3) have "sint (lastTimestamp h) \<noteq> sint (-1 :: long)" by (metis signed_word_eqI)
  with True stored show ?thesis by (simp add: ram_def)
next
  case False
  then have none: "head_points h = []" by (simp add: head_points_Nil)
  have "last (live_chunks en) = chunks en ! (chunkCount en - 1) \<and> live_chunks en \<noteq> []" if "chunkCount en > 0"
    using that assms(1) by (subst last_conv_nth) (auto simp: live_chunks_def entry_inv_def)
  moreover have "live_chunks en = []" if "\<not> chunkCount en > 0" using that by (simp add: live_chunks_def)
  ultimately have "last_stored en h = (if chunkCount en > 0 then Some (end_ts (chunks en ! (chunkCount en - 1))) else None)"
    using none by (simp add: last_stored_def)
  with False show ?thesis by (simp add: disk_def ram_def)
qed

text \<open>For the names a request can carry, Head_STATS writes its whole report within the 512 bytes
  of its buffer: the numbers of points in memory and of chunks on disk, and the first and last
  timestamp over chunks and head block, or N/A when the metric is empty. It needs these
  timestamps not to be -1, which the code takes for absent.\<close>

theorem Head_STATS_reports:
  assumes "engine_inv eng" and "registry_find m (registry eng) = Some i"
    and "mhead (registry eng ! i) = Some h" and "length m < 64" and "mem 512"
    and "first_stored (registry eng ! i) h \<noteq> Some (-1)" and "last_stored (registry eng ! i) h \<noteq> Some (-1)"
  shows "Head_STATS mem m eng = Ret (Some (stats_report m (registry eng ! i) h))"
proof -
  let ?en = "registry eng ! i"
  have en: "entry_inv ?en" "head_inv h"
    using assms(1-3) registry_find_Some [OF assms(2)] entry_inv_nth [OF assms(1)] by (auto simp: entry_inv_def)
  have sizes: "hsize h \<le> 50000" "chunkCount ?en \<le> 50000" "length (live_chunks ?en) = chunkCount ?en"
    using en by (auto simp: entry_inv_def head_inv_def HEAD_CAPACITY_def live_chunks_def)
  note lens = show_small_length [OF sizes(1)] show_small_length [OF sizes(2)]
    timestamp_line_length [of "''first''" "first_stored ?en h"] timestamp_line_length [of "''last''" "last_stored ?en h"]
  note lines = stats_first [OF en(1) assms(3,6)] stats_last [OF en(1) assms(3,7)]
  show ?thesis
    using assms(2-5) lens sizes en(2)
    by (simp add: Head_STATS_def Let_def lines stats_timestamp_line [OF assms(6)] stats_timestamp_line [OF assms(7)]
        stats_printf_Ret stats_report_def newline_def)
qed

theorem Head_STATS_reports_witness:
  "Head_STATS (\<lambda>_. True) ''cpu'' sample_engine = Ret (Some (
     ''metric: cpu'' @ newline @ ''in memory: 2'' @ newline @ ''disk chunks: 0'' @ newline @
     ''first timestamp: 100'' @ newline @ ''last timestamp: 110'' @ newline))"
proof -
  have find: "registry_find ''cpu'' (registry sample_engine) = Some 0"
    and head: "mhead (registry sample_engine ! 0) = Some sample_cpu_head"
    and none: "live_chunks (registry sample_engine ! 0) = []"
    by (simp_all add: sample_engine_def sample_cpu_head_def live_chunks_def)
  have stored: "first_stored (registry sample_engine ! 0) sample_cpu_head = Some 100"
    "last_stored (registry sample_engine ! 0) sample_cpu_head = Some 110"
    by (simp_all add: first_stored_def last_stored_def none sample_cpu_head_simps)
  have shown: "show_int 0 = ''0''" "show_int 2 = ''2''" "show_int 100 = ''100''" "show_int 110 = ''110''"
    by code_simp+
  from Head_STATS_reports [OF sample_engine_inv find head] show ?thesis
    by (simp add: stored stats_report_def none sample_cpu_head_simps timestamp_line_def shown)
qed

section \<open>Printing a metric\<close>

text \<open>\<open>print_metric\<close> writes the head block to standard output.\<close>

definition ram_line :: "point \<Rightarrow> string" where
  "ram_line p = ''  '' @ show_int (sint (fst p)) @ '' -> '' @ fmt_f 2 (snd p) @ newline"

primrec print_loop :: "HeadBlock \<Rightarrow> nat \<Rightarrow> string \<Rightarrow> string" where
  "print_loop hb 0 out = out"
| "print_loop hb (Suc i) out = print_loop hb i out @ ram_line (timestamps hb ! i, hvalues hb ! i)"

definition print_metric :: "string \<Rightarrow> engine \<Rightarrow> string c_result" where
  "print_metric metric e =
     (case registry_find metric (registry e) of
        None \<Rightarrow> Ret (''Metric not found'' @ newline)
      | Some i \<Rightarrow>
          (case mhead (registry e ! i) of
             None \<Rightarrow> UB NullDeref
           | Some hb \<Rightarrow> Ret (print_loop hb (hsize hb) (''Metric: '' @ metric @ newline))))"

text \<open>One line per point in memory, in their order.\<close>

lemma print_metric_points:
  assumes "engine_inv e" "registry_find m (registry e) = Some i" "mhead (registry e ! i) = Some hb"
  shows "print_metric m e = Ret (''Metric: '' @ m @ newline @ concat (map ram_line (head_points hb)))"
proof -
  have "head_inv hb"
    using assms registry_find_Some [OF assms(2)] entry_inv_nth by (auto simp: entry_inv_def)
  then have len: "hsize hb \<le> length (timestamps hb)" "hsize hb \<le> length (hvalues hb)"
    by (auto simp: head_inv_def)
  have "print_loop hb n out = out @ concat (map ram_line (zip (take n (timestamps hb)) (take n (hvalues hb))))"
    if "n \<le> hsize hb" for n out
    using that len
  proof (induction n)
    case (Suc n)
    then show ?case by (simp add: take_Suc_conv_app_nth)
  qed simp
  then show ?thesis using assms(2,3) by (simp add: print_metric_def head_points_def)
qed

end
