(* ===== verification/Retention.thy ===== *)
theory Retention
  imports Query
begin

text \<open>
  Retention, \<^verbatim>\<open>src/retention.c\<close>: the table of rules filled from \<open>--retention\<close> arguments, and
  one pass of the expiry thread over the registry, which removes the chunks whose last timestamp
  is older than the maximal age of their metric. The thread that calls the pass every minute
  is in \<^verbatim>\<open>Background\<close>, the lock in \<^verbatim>\<open>Locks\<close>; the clock is an argument.
\<close>

section \<open>Rules\<close>

definition RETENTION_MAX_RULES :: nat where
  "RETENTION_MAX_RULES = 256"

record RetentionRule =
  rmetric :: string
  max_age_seconds :: int

record RetentionConfig =
  rules :: "RetentionRule list"
  rule_count :: nat

definition retention_add_rule :: "RetentionConfig \<Rightarrow> string \<Rightarrow> int \<times> RetentionConfig" where
  "retention_add_rule cfg spec =
     (if rule_count cfg \<ge> RETENTION_MAX_RULES then (-1, cfg)
      else
        let name = takeWhile (\<lambda>c. c \<noteq> CHR ''='') spec; rest = drop (length name) spec
        in if rest = [] \<or> name = [] then (-1, cfg)
           else if length name \<ge> 64 then (-1, cfg)
           else
             let secs = atol (tl rest)
             in if secs \<le> 0 then (-1, cfg)
                else (0, cfg\<lparr>rules := store_at (rules cfg) (rule_count cfg)
                                       \<lparr>rmetric = name, max_age_seconds = secs\<rparr>,
                             rule_count := rule_count cfg + 1\<rparr>))"

primrec first_rule :: "string \<Rightarrow> RetentionRule list \<Rightarrow> int" where
  "first_rule metric [] = -1"
| "first_rule metric (r # rs) = (if rmetric r = metric then max_age_seconds r else first_rule metric rs)"

definition retention_get :: "RetentionConfig \<Rightarrow> string \<Rightarrow> int" where
  "retention_get cfg metric = first_rule metric (take (rule_count cfg) (rules cfg))"

section \<open>Expiry\<close>

definition expire_chunk :: "nat \<Rightarrow> metric_registry \<times> disk \<Rightarrow> metric_registry \<times> disk" where
  "expire_chunk idx st =
     (let (entry, d) = st;
          cm = chunks entry ! idx;
          (_, d) = remove_file (filename cm) d;
          tail = chunkCount entry - idx - 1;
          entry = (if tail > 0
                   then entry\<lparr>chunks := take idx (chunks entry) @ take tail (drop (idx + 1) (chunks entry)) @
                                        drop (idx + tail) (chunks entry)\<rparr>
                   else entry)
      in (entry\<lparr>chunkCount := chunkCount entry - 1\<rparr>, d))"

text \<open>The loop walks the indices below \<open>n\<close> from the top.\<close>

primrec expire_chunks :: "long \<Rightarrow> nat \<Rightarrow> metric_registry \<times> disk \<Rightarrow> metric_registry \<times> disk" where
  "expire_chunks cutoff 0 st = st"
| "expire_chunks cutoff (Suc i) st =
     expire_chunks cutoff i
       (if sint (end_ts (chunks (fst st) ! i)) < sint cutoff then expire_chunk i st else st)"

definition expire_entry :: "RetentionConfig \<Rightarrow> long \<Rightarrow> metric_registry \<times> disk \<Rightarrow> metric_registry \<times> disk" where
  "expire_entry cfg now st =
     (let max_age = retention_get cfg (mkey (fst st)) in
      if max_age \<le> 0 then st
      else expire_chunks (now - of_int max_age) (chunkCount (fst st)) st)"

primrec expire_registry ::
    "RetentionConfig \<Rightarrow> long \<Rightarrow> metric_registry list \<Rightarrow> disk \<Rightarrow> metric_registry list \<times> disk" where
  "expire_registry cfg now [] d = ([], d)"
| "expire_registry cfg now (en # reg) d =
     (let (en, d) = expire_entry cfg now (en, d); (reg, d) = expire_registry cfg now reg d in (en # reg, d))"

definition run_expiry :: "RetentionConfig \<Rightarrow> long \<Rightarrow> engine \<Rightarrow> engine" where
  "run_expiry cfg now e =
     (let (reg, d) = expire_registry cfg now (registry e) (store e) in \<lparr>registry = reg, store = d\<rparr>)"

section \<open>The rule table\<close>

definition rules_inv :: "RetentionConfig \<Rightarrow> bool" where
  "rules_inv cfg \<longleftrightarrow> rule_count cfg = length (rules cfg) \<and> length (rules cfg) \<le> RETENTION_MAX_RULES \<and>
     (\<forall>r \<in> set (rules cfg). 0 < max_age_seconds r \<and> length (rmetric r) < 64 \<and> rmetric r \<noteq> [])"

lemma retention_add_rule_code: "fst (retention_add_rule cfg spec) \<in> {0, -1}"
  by (simp add: retention_add_rule_def Let_def)

lemma rules_inv_add [inv_intros]: "rules_inv cfg \<Longrightarrow> rules_inv (snd (retention_add_rule cfg spec))"
  by (auto simp: rules_inv_def retention_add_rule_def Let_def store_at_def)

lemma first_rule_none: "m \<notin> rmetric ` set rs \<Longrightarrow> first_rule m rs = -1"
  by (induction rs) auto

lemma first_rule_append:
  "first_rule m (rs @ [r]) =
     (if m \<in> rmetric ` set rs then first_rule m rs else if rmetric r = m then max_age_seconds r else -1)"
  by (induction rs) auto

text \<open>A rule spelt as name=seconds is accepted as long as the table has room, the name has 1
  to 63 characters and the seconds are positive, the table keeps its invariant, and the lookup of
  the metric gives the seconds of its first rule from then on.\<close>

theorem retention_rule_lookup:
  assumes "rules_inv cfg" and "rule_count cfg < RETENTION_MAX_RULES"
    and "m \<noteq> []" "length m < 64" "CHR ''='' \<notin> set m" and "0 < secs" "secs \<le> long_max"
  shows "fst (retention_add_rule cfg (m @ ''='' @ show_int secs)) = 0 \<and>
    rules_inv (snd (retention_add_rule cfg (m @ ''='' @ show_int secs))) \<and>
    retention_get (snd (retention_add_rule cfg (m @ ''='' @ show_int secs))) k =
      (if k = m \<and> m \<notin> rmetric ` set (rules cfg) then secs else retention_get cfg k)"
proof -
  have name: "takeWhile (\<lambda>c. c \<noteq> CHR ''='') (m @ ''='' @ show_int secs) = m"
    using assms(5) by (subst takeWhile_append2) auto
  have "atol (show_int secs) = secs"
    using assms(6,7) strtol_show_int [of secs] by (simp add: atol_def long_min_def)
  then have "retention_add_rule cfg (m @ ''='' @ show_int secs) =
      (0, cfg\<lparr>rules := rules cfg @ [\<lparr>rmetric = m, max_age_seconds = secs\<rparr>], rule_count := rule_count cfg + 1\<rparr>)"
    using assms(1-4,6) name
    by (simp add: retention_add_rule_def Let_def store_at_def rules_inv_def del: takeWhile_append takeWhile_append2)
  then show ?thesis
    using assms(1) rules_inv_add [OF assms(1), of "m @ ''='' @ show_int secs"]
    by (auto simp: retention_get_def first_rule_append first_rule_none rules_inv_def)
qed

theorem retention_rule_lookup_witness:
  "fst (retention_add_rule \<lparr>rules = [], rule_count = 0\<rparr> (''cpu'' @ ''='' @ show_int 3600)) = 0 \<and>
   retention_get (snd (retention_add_rule \<lparr>rules = [], rule_count = 0\<rparr> (''cpu'' @ ''='' @ show_int 3600))) ''cpu'' = 3600"
  using retention_rule_lookup [of "\<lparr>rules = [], rule_count = 0\<rparr>" "''cpu''" 3600 "''cpu''"]
  by (simp add: rules_inv_def RETENTION_MAX_RULES_def long_max_def)

section \<open>What a pass removes\<close>

definition fresh :: "RetentionConfig \<Rightarrow> long \<Rightarrow> string \<Rightarrow> ChunkMetadata \<Rightarrow> bool" where
  "fresh cfg now m cm \<longleftrightarrow> retention_get cfg m \<le> 0 \<or>
     sint (now - of_int (retention_get cfg m)) \<le> sint (end_ts cm)"

definition expired_files :: "RetentionConfig \<Rightarrow> long \<Rightarrow> metric_registry \<Rightarrow> string set" where
  "expired_files cfg now en = filename ` {cm \<in> set (live_chunks en). \<not> fresh cfg now (mkey en) cm}"

lemma expire_chunk_entry:
  fixes d
  assumes "idx < chunkCount en" "chunkCount en \<le> length (chunks en)"
  defines "en' \<equiv> fst (expire_chunk idx (en, d))"
  shows "live_chunks en' = take idx (live_chunks en) @ drop (Suc idx) (live_chunks en)"
    and "chunkCount en' = chunkCount en - 1" "length (chunks en') = length (chunks en)"
    and "mkey en' = mkey en" "mhead en' = mhead en" "chunkCapacity en' = chunkCapacity en"
proof -
  obtain k where k: "chunkCount en = Suc (idx + k)" using assms(1) less_iff_Suc_add by blast
  have "length (take k (drop (Suc idx) (chunks en))) = k" using assms(2) k by simp
  then have len: "length (take idx (chunks en) @ take k (drop (Suc idx) (chunks en))) = idx + k"
    and tl: "length (drop (idx + k) (chunks en)) = length (chunks en) - (idx + k)" using assms(2) k by simp_all
  then have "take (idx + k) (take idx (chunks en) @ take k (drop (Suc idx) (chunks en)) @ drop (idx + k) (chunks en)) =
      take idx (chunks en) @ take k (drop (Suc idx) (chunks en))"
    using assms(2) k by simp
  with k show "live_chunks en' = take idx (live_chunks en) @ drop (Suc idx) (live_chunks en)"
    by (cases k) (simp_all add: en'_def expire_chunk_def live_chunks_def split_def Let_def drop_take)
  show "length (chunks en') = length (chunks en)"
    using k len tl assms(2) by (simp add: en'_def expire_chunk_def split_def Let_def)
  show "chunkCount en' = chunkCount en - 1" "mkey en' = mkey en" "mhead en' = mhead en"
    "chunkCapacity en' = chunkCapacity en"
    by (simp_all add: en'_def expire_chunk_def split_def Let_def)
qed

lemma expire_chunk_disk:
  "snd (expire_chunk idx (en, d)) = snd (remove_file (filename (chunks en ! idx)) d)"
  by (simp add: expire_chunk_def split_def Let_def)

lemma live_chunks_nth:
  "i < chunkCount en \<Longrightarrow> chunkCount en \<le> length (chunks en) \<Longrightarrow> live_chunks en ! i = chunks en ! i"
  by (simp add: live_chunks_def)

text \<open>The loop filters the part of the list below its bound, leaves the rest, and removes the files
  of the chunks it drops.\<close>

definition old_files :: "long \<Rightarrow> ChunkMetadata list \<Rightarrow> string set" where
  "old_files cutoff cms = filename ` {cm \<in> set cms. sint (end_ts cm) < sint cutoff}"

definition recent :: "long \<Rightarrow> ChunkMetadata \<Rightarrow> bool" where
  "recent cutoff cm \<longleftrightarrow> sint cutoff \<le> sint (end_ts cm)"

lemma live_chunks_Suc:
  assumes "Suc i \<le> chunkCount en" "chunkCount en \<le> length (chunks en)"
  shows "take (Suc i) (live_chunks en) = take i (live_chunks en) @ [chunks en ! i]"
    and "drop i (live_chunks en) = chunks en ! i # drop (Suc i) (live_chunks en)"
proof -
  have "live_chunks en ! i = chunks en ! i" and len: "i < length (live_chunks en)"
    using assms by (simp_all add: live_chunks_nth) (simp add: live_chunks_def)
  then show "take (Suc i) (live_chunks en) = take i (live_chunks en) @ [chunks en ! i]"
    and "drop i (live_chunks en) = chunks en ! i # drop (Suc i) (live_chunks en)"
    using take_Suc_conv_app_nth [OF len] Cons_nth_drop_Suc [OF len] by simp_all
qed

lemma old_files_snoc:
  "old_files cutoff (cms @ [cm]) =
     (if recent cutoff cm then old_files cutoff cms else insert (filename cm) (old_files cutoff cms))"
  by (auto simp: old_files_def recent_def)

lemma expire_chunks_step:
  "expire_chunks cutoff (Suc i) (en, d) =
     (if recent cutoff (chunks en ! i) then expire_chunks cutoff i (en, d)
      else expire_chunks cutoff i (fst (expire_chunk i (en, d)), snd (remove_file (filename (chunks en ! i)) d)))"
  by (simp add: recent_def not_le flip: expire_chunk_disk)

declare expire_chunks.simps(2) [simp del]

lemma expire_chunks_entry:
  assumes "i \<le> chunkCount en" "chunkCount en \<le> length (chunks en)"
  defines "P \<equiv> \<lambda>cutoff i en en'. live_chunks en' = filter (recent cutoff) (take i (live_chunks en)) @ drop i (live_chunks en) \<and>
    chunkCount en' \<le> chunkCount en \<and> chunkCount en' \<le> length (chunks en') \<and>
    mkey en' = mkey en \<and> mhead en' = mhead en \<and> chunkCapacity en' = chunkCapacity en"
  shows "P cutoff i en (fst (expire_chunks cutoff i (en, d)))"
  using assms(1,2)
proof (induction i arbitrary: en d)
  case 0
  then show ?case by (simp add: P_def)
next
  case (Suc i)
  note live = live_chunks_Suc [OF Suc.prems]
  show ?case
  proof (cases "recent cutoff (chunks en ! i)")
    case True
    with Suc.IH [of en d] Suc.prems live show ?thesis by (simp add: P_def expire_chunks_step)
  next
    case False
    let ?en1 = "fst (expire_chunk i (en, d))" and ?d1 = "snd (remove_file (filename (chunks en ! i)) d)"
    have i: "i < chunkCount en" using Suc.prems by simp
    note en1 = expire_chunk_entry [OF i Suc.prems(2), of d]
    have "i \<le> chunkCount ?en1" "chunkCount ?en1 \<le> length (chunks ?en1)"
      unfolding en1 using Suc.prems by simp_all
    from Suc.IH [OF this, of ?d1] have IH: "P cutoff i ?en1 (fst (expire_chunks cutoff i (?en1, ?d1)))" .
    have "length (live_chunks en) = chunkCount en" using Suc.prems by (simp add: live_chunks_def)
    with i have "take i (live_chunks ?en1) = take i (live_chunks en)" "drop i (live_chunks ?en1) = drop (Suc i) (live_chunks en)"
      unfolding en1 by simp_all
    with IH en1(2-6) False live show ?thesis by (auto simp: P_def expire_chunks_step)
  qed
qed

lemma expire_chunks_disk:
  assumes "i \<le> chunkCount en" "chunkCount en \<le> length (chunks en)"
  shows "denied (snd (expire_chunks cutoff i (en, d))) = denied d \<and>
    (\<forall>p. files (snd (expire_chunks cutoff i (en, d))) p =
       (if p \<in> old_files cutoff (take i (live_chunks en)) \<and> \<not> denied d p then None else files d p))"
  using assms
proof (induction i arbitrary: en d)
  case 0
  then show ?case by (simp add: old_files_def)
next
  case (Suc i)
  note live = live_chunks_Suc [OF Suc.prems]
  show ?case
  proof (cases "recent cutoff (chunks en ! i)")
    case True
    with Suc.IH [of en d] Suc.prems live show ?thesis by (simp add: expire_chunks_step old_files_snoc)
  next
    case False
    let ?en1 = "fst (expire_chunk i (en, d))" and ?p = "filename (chunks en ! i)"
    let ?d1 = "snd (remove_file ?p d)"
    have i: "i < chunkCount en" using Suc.prems by simp
    note en1 = expire_chunk_entry [OF i Suc.prems(2), of d]
    have "i \<le> chunkCount ?en1" "chunkCount ?en1 \<le> length (chunks ?en1)"
      unfolding en1 using Suc.prems by simp_all
    note IH = Suc.IH [OF this, of ?d1]
    have "length (live_chunks en) = chunkCount en" using Suc.prems by (simp add: live_chunks_def)
    with i have "take i (live_chunks ?en1) = take i (live_chunks en)" unfolding en1 by simp
    moreover have "files ?d1 p = (if p = ?p \<and> \<not> denied d p then None else files d p)" for p
      by (cases "p = ?p") (auto simp: remove_file_def split: option.split)
    ultimately show ?thesis using IH False live by (simp add: expire_chunks_step old_files_snoc)
  qed
qed

section \<open>One pass over the registry\<close>

lemma expire_entry_spec:
  fixes cfg now
  assumes "entry_inv en"
  defines "en' \<equiv> \<lambda>d. fst (expire_entry cfg now (en, d))" and "d' \<equiv> \<lambda>d. snd (expire_entry cfg now (en, d))"
  shows "entry_inv (en' d)" "mkey (en' d) = mkey en" "ram_points (en' d) = ram_points en"
    and "live_chunks (en' d) = filter (fresh cfg now (mkey en)) (live_chunks en)"
    and "denied (d' d) = denied d"
    and "files (d' d) p = (if p \<in> expired_files cfg now en \<and> \<not> denied d p then None else files d p)"
proof -
  let ?n = "chunkCount en" and ?cut = "now - of_int (retention_get cfg (mkey en))"
  have len: "?n \<le> length (chunks en)" using assms(1) by (simp add: entry_inv_def)
  then have all: "take ?n (live_chunks en) = live_chunks en" "drop ?n (live_chunks en) = []"
    by (simp_all add: live_chunks_def)
  have spec: "entry_inv (en' d) \<and> mkey (en' d) = mkey en \<and> ram_points (en' d) = ram_points en \<and>
    live_chunks (en' d) = filter (fresh cfg now (mkey en)) (live_chunks en) \<and> denied (d' d) = denied d \<and>
    files (d' d) p = (if p \<in> expired_files cfg now en \<and> \<not> denied d p then None else files d p)"
  proof (cases "retention_get cfg (mkey en) \<le> 0")
    case True
    then have "expired_files cfg now en = {}" "filter (fresh cfg now (mkey en)) (live_chunks en) = live_chunks en"
      by (simp_all add: expired_files_def fresh_def)
    with True assms(1) show ?thesis by (simp add: en'_def d'_def expire_entry_def Let_def)
  next
    case False
    then have "fresh cfg now (mkey en) = recent ?cut" by (simp add: fresh_def recent_def fun_eq_iff)
    moreover from this have "expired_files cfg now en = old_files ?cut (live_chunks en)"
      by (auto simp: expired_files_def old_files_def recent_def not_le)
    moreover have "en' d = fst (expire_chunks ?cut ?n (en, d))" "d' d = snd (expire_chunks ?cut ?n (en, d))"
      using False by (simp_all add: en'_def d'_def expire_entry_def Let_def)
    ultimately show ?thesis
      using expire_chunks_entry [OF order.refl len, of ?cut d] expire_chunks_disk [OF order.refl len, of ?cut d]
        all assms(1)
      by (auto simp: entry_inv_def ram_points_def)
  qed
  then show "entry_inv (en' d)" "mkey (en' d) = mkey en" "ram_points (en' d) = ram_points en"
    "live_chunks (en' d) = filter (fresh cfg now (mkey en)) (live_chunks en)" "denied (d' d) = denied d"
    "files (d' d) p = (if p \<in> expired_files cfg now en \<and> \<not> denied d p then None else files d p)"
    by simp_all
qed

definition entry_expired :: "RetentionConfig \<Rightarrow> long \<Rightarrow> metric_registry \<Rightarrow> metric_registry \<Rightarrow> bool" where
  "entry_expired cfg now en en' \<longleftrightarrow> entry_inv en' \<and> mkey en' = mkey en \<and> ram_points en' = ram_points en \<and>
     live_chunks en' = filter (fresh cfg now (mkey en)) (live_chunks en)"

lemma expire_registry_spec:
  "\<forall>en \<in> set reg. entry_inv en \<Longrightarrow>
     list_all2 (entry_expired cfg now) reg (fst (expire_registry cfg now reg d)) \<and>
     denied (snd (expire_registry cfg now reg d)) = denied d \<and>
     (\<forall>p. files (snd (expire_registry cfg now reg d)) p =
        (if p \<in> (\<Union>en \<in> set reg. expired_files cfg now en) \<and> \<not> denied d p then None else files d p))"
proof (induction reg arbitrary: d)
  case Nil
  then show ?case by simp
next
  case (Cons en reg)
  then have inv: "entry_inv en" by simp
  note one = expire_entry_spec [OF inv, of cfg now d]
  have rest: "\<forall>en \<in> set reg. entry_inv en" using Cons.prems by simp
  note more = Cons.IH [OF this, of "snd (expire_entry cfg now (en, d))"]
  show ?case using one more by (simp add: split_def Let_def entry_expired_def)
qed

lemma distinct_concat_nth:
  "distinct (concat (map f xs)) \<Longrightarrow> i < length xs \<Longrightarrow> j < length xs \<Longrightarrow> i \<noteq> j \<Longrightarrow>
     set (f (xs ! i)) \<inter> set (f (xs ! j)) = {}"
proof (induction xs arbitrary: i j)
  case Nil
  then show ?case by simp
next
  case (Cons x xs)
  have disj: "set (f x) \<inter> set (f (xs ! k)) = {}" if "k < length xs" for k
    using Cons.prems(1) nth_mem [OF that] by auto
  show ?case
    using Cons disj by (cases i; cases j) (simp_all add: Int_commute)
qed

text \<open>The file of a chunk that stays is not among those that are removed.\<close>

lemma kept_file:
  assumes "distinct (chunk_files e)" "i < length (registry e)"
    and cm: "cm \<in> set (live_chunks (registry e ! i))" "fresh cfg now (mkey (registry e ! i)) cm"
  shows "filename cm \<notin> (\<Union>en \<in> set (registry e). expired_files cfg now en)"
proof
  assume "filename cm \<in> (\<Union>en \<in> set (registry e). expired_files cfg now en)"
  then obtain j where j: "j < length (registry e)" and "filename cm \<in> expired_files cfg now (registry e ! j)"
    by (auto simp: in_set_conv_nth [of _ "registry e"])
  then obtain cm' where cm': "cm' \<in> set (live_chunks (registry e ! j))"
    "\<not> fresh cfg now (mkey (registry e ! j)) cm'" "filename cm = filename cm'"
    by (auto simp: expired_files_def)
  show False
  proof (cases "i = j")
    case True
    have "distinct (map filename (live_chunks (registry e ! i)))"
      using assms(1,2) by (auto simp: chunk_files_def distinct_concat_iff)
    then have "inj_on filename (set (live_chunks (registry e ! i)))" by (simp add: distinct_map)
    with True cm cm' show False by (auto dest: inj_onD)
  next
    case False
    with distinct_concat_nth [of "\<lambda>en. map filename (live_chunks en)" "registry e" i j] assms(1,2) j cm(1) cm'(1,3)
    show False by (auto simp: chunk_files_def)
  qed
qed

text \<open>C14: a pass of the expiry thread drops exactly the chunks whose last timestamp is older than
  the maximal age of their metric: what a metric stores afterwards are the points of its other
  chunks, unchanged and in order, and those of its head block, which is never expired; the files
  of the dropped chunks are gone unless the system refuses to remove them. This needs the chunk
  files of the registry to be distinct.\<close>

theorem run_expiry_drops_old:
  assumes "engine_inv e" and "distinct (chunk_files e)" and "registry_find m (registry e) = Some i"
  shows "engine_inv (run_expiry cfg now e) \<and>
    metric_points mem (run_expiry cfg now e) m =
      concat (map (\<lambda>cm. chunk_points mem (store e) (filename cm))
        (filter (fresh cfg now m) (live_chunks (registry e ! i)))) @
      map stored_point (ram_points (registry e ! i)) \<and>
    (\<forall>cm \<in> set (live_chunks (registry e ! i)). \<not> fresh cfg now m cm \<longrightarrow> \<not> denied (store e) (filename cm) \<longrightarrow>
       files (store (run_expiry cfg now e)) (filename cm) = None)"
proof -
  let ?reg = "registry e" and ?e' = "run_expiry cfg now e"
  have e': "registry ?e' = fst (expire_registry cfg now ?reg (store e))"
    "store ?e' = snd (expire_registry cfg now ?reg (store e))"
    by (simp_all add: run_expiry_def split_def Let_def)
  have "\<forall>en \<in> set ?reg. entry_inv en" using assms(1) by (simp add: engine_inv_def)
  note spec = expire_registry_spec [OF this, of cfg now "store e", folded e']
  note i = registry_find_Some [OF assms(3)]
  have all: "list_all2 (entry_expired cfg now) ?reg (registry ?e')" using spec by blast
  then have keys: "map mkey (registry ?e') = map mkey ?reg"
    by (induction rule: list_all2_induct) (simp_all add: entry_expired_def)
  have inv: "engine_inv ?e'"
    using all keys assms(1) by (auto simp: engine_inv_def entry_expired_def list_all2_conv_all_nth in_set_conv_nth)
  have find: "registry_find m (registry ?e') = Some i"
    using registry_find_distinct [of "registry ?e'" i] keys assms(1) i list_all2_lengthD [OF all]
    by (metis engine_inv_def nth_map)
  have entry: "entry_expired cfg now (?reg ! i) (registry ?e' ! i)" using list_all2_nthD [OF all] i by blast
  have same: "chunkread mem (filename cm) (store ?e') = chunkread mem (filename cm) (store e)"
    if "cm \<in> set (filter (fresh cfg now m) (live_chunks (?reg ! i)))" for cm
    using that kept_file [OF assms(2), of i cm cfg now] i spec by (intro chunkread_frame) auto
  have "concat (map (\<lambda>cm. chunk_points mem (store ?e') (filename cm)) (live_chunks (registry ?e' ! i))) =
      concat (map (\<lambda>cm. chunk_points mem (store e) (filename cm)) (filter (fresh cfg now m) (live_chunks (?reg ! i))))"
    using entry i same by (intro arg_cong [of _ _ concat] map_cong) (auto simp: entry_expired_def intro!: chunk_points_frame)
  then have "metric_points mem ?e' m =
      concat (map (\<lambda>cm. chunk_points mem (store e) (filename cm)) (filter (fresh cfg now m) (live_chunks (?reg ! i)))) @
      map stored_point (ram_points (?reg ! i))"
    using find entry by (simp add: metric_points_def entry_points_def entry_expired_def)
  moreover have "files (store ?e') (filename cm) = None"
    if "cm \<in> set (live_chunks (?reg ! i))" "\<not> fresh cfg now m cm" "\<not> denied (store e) (filename cm)" for cm
  proof -
    have "filename cm \<in> expired_files cfg now (?reg ! i)" using that i by (auto simp: expired_files_def)
    then have "filename cm \<in> (\<Union>en \<in> set ?reg. expired_files cfg now en)" using i nth_mem by blast
    with spec that(3) show ?thesis by auto
  qed
  ultimately show ?thesis using inv by blast
qed

definition aged_engine :: engine where
  "aged_engine =
     \<lparr>registry = [\<lparr>mkey = ''cpu'', mhead = Some sample_cpu_head,
        chunks = [\<lparr>start_ts = 800, end_ts = 900, filename = ''data/cpu/cpu_800.chunk''\<rparr>,
                  \<lparr>start_ts = 901, end_ts = 990, filename = ''data/cpu/cpu_901.chunk''\<rparr>],
        chunkCount = 2, chunkCapacity = 4\<rparr>],
      store = sample_disk\<lparr>files := [''data/cpu/cpu_800.chunk'' \<mapsto> [1]]\<rparr>\<rparr>"

theorem run_expiry_drops_old_witness:
  "files (store (run_expiry \<lparr>rules = [\<lparr>rmetric = ''cpu'', max_age_seconds = 60\<rparr>], rule_count = 1\<rparr> 1000 aged_engine))
     ''data/cpu/cpu_800.chunk'' = None"
proof -
  let ?cfg = "\<lparr>rules = [\<lparr>rmetric = ''cpu'', max_age_seconds = 60\<rparr>], rule_count = 1\<rparr>"
  have inv: "engine_inv aged_engine"
    by (simp add: engine_inv_def entry_inv_def aged_engine_def head_inv_def sample_cpu_head_def HEAD_CAPACITY_def)
  have live: "live_chunks (registry aged_engine ! 0) = chunks (registry aged_engine ! 0)"
    by (simp add: live_chunks_def aged_engine_def)
  have dist: "distinct (chunk_files aged_engine)"
    by (simp add: chunk_files_def live_chunks_def aged_engine_def)
  have find: "registry_find ''cpu'' (registry aged_engine) = Some 0" by (simp add: aged_engine_def)
  from run_expiry_drops_old [OF inv dist find, of ?cfg 1000] show ?thesis
    by (simp add: live fresh_def retention_get_def)
      (simp add: aged_engine_def sample_disk_def)
qed

end
