(* ===== verification/Downsample.thy ===== *)
theory Downsample
  imports Query "HOL-Library.Signed_Division"
begin

text \<open>
  Downsampling, \<^verbatim>\<open>src/downsample.c\<close>: for every raw chunk older than an hour a coarse chunk
  with one point per minute, the average of the raw points of that minute, is written to the
  directory of the metric with the suffix \<open>_1m\<close>, and a marker file keeps the next pass from
  doing it again. The thread that runs the pass is in \<^verbatim>\<open>Background\<close>, the lock in \<^verbatim>\<open>Locks\<close>;
  the clock is an argument.

  Timestamps are compared and added as the integers they denote; a sum outside the range of
  \<open>long\<close> is \<open>UB SignedOverflow\<close>. The output arrays have \<open>max_buckets\<close> cells; a store behind them
  is \<open>UB HeapOverflow\<close>.
\<close>

section \<open>Paths and dispatch\<close>

definition downsample_coarse_dir :: "string \<Rightarrow> string \<Rightarrow> nat \<Rightarrow> string" where
  "downsample_coarse_dir dataDir metric outsz = bounded outsz (dataDir @ ''/'' @ metric @ ''_1m'')"

definition done_marker_path :: "string \<Rightarrow> u32 \<Rightarrow> nat \<Rightarrow> string" where
  "done_marker_path coarseDir cid outsz = bounded outsz (coarseDir @ ''/'' @ show_int (uint cid) @ ''.done'')"

definition marker_exists :: "string \<Rightarrow> disk \<Rightarrow> bool" where
  "marker_exists path d \<longleftrightarrow> files d path \<noteq> None \<or> dirs d path"

definition create_marker :: "string \<Rightarrow> disk \<Rightarrow> disk" where
  "create_marker path d = (case fopen_wb path d of None \<Rightarrow> d | Some d \<Rightarrow> d)"

definition long_ok :: "int \<Rightarrow> bool" where
  "long_ok n \<longleftrightarrow> long_min \<le> n \<and> n \<le> long_max"

text \<open>The dispatch compares the length of the interval; its subtraction may overflow.\<close>

definition downsample_should_use :: "string \<Rightarrow> string \<Rightarrow> long \<Rightarrow> long \<Rightarrow> int \<Rightarrow> disk \<Rightarrow> bool c_result" where
  "downsample_should_use dataDir metric s e bucket_seconds d =
     (if \<not> long_ok (sint e - sint s) then UB SignedOverflow
      else if sint e - sint s < 3600 then Ret False
      else if bucket_seconds < 60 then Ret False
      else Ret (dirs d (downsample_coarse_dir dataDir metric 512)))"

section \<open>One coarse chunk\<close>

definition decompress_all :: "allocator \<Rightarrow> string \<Rightarrow> disk \<Rightarrow> point list option" where
  "decompress_all mem filepath d =
     (case chunkread mem filepath d of
        None \<Rightarrow> None
      | Some (header, payload) \<Rightarrow>
          let n = sint (point_count header) in
          if n < 0 \<or> \<not> mem (16 * nat n) then None else Some (decode_points header payload))"

text \<open>The open bucket, its sum and number of points, and the output arrays up to \<open>out_n\<close>.\<close>

record coarse =
  bucket_start :: int
  bucket_end :: int
  bucket_sum :: cdouble
  bucket_count :: int
  coarse_out :: "(int \<times> cdouble) list"

definition emit_bucket :: "int \<Rightarrow> coarse \<Rightarrow> coarse c_result" where
  "emit_bucket max_buckets st =
     (if bucket_count st > 0 then
        if int (length (coarse_out st)) \<ge> max_buckets then UB HeapOverflow
        else Ret (st\<lparr>coarse_out := coarse_out st @
                       [(bucket_start st, d_div (bucket_sum st) (d_of_int (bucket_count st)))],
                     bucket_sum := 0, bucket_count := 0\<rparr>)
      else Ret st)"

text \<open>The \<open>while\<close> loop that closes the buckets before the timestamp \<open>t\<close>.\<close>

function close_buckets :: "int \<Rightarrow> int \<Rightarrow> coarse \<Rightarrow> coarse c_result" where
  "close_buckets max_buckets t st =
     (if t \<ge> bucket_end st then
        (case emit_bucket max_buckets st of
           UB u \<Rightarrow> UB u
         | Ret st \<Rightarrow>
             if bucket_end st + 60 > long_max then UB SignedOverflow
             else close_buckets max_buckets t
                    (st\<lparr>bucket_start := bucket_end st, bucket_end := bucket_end st + 60\<rparr>))
      else Ret st)"
  by pat_completeness auto
termination
  by (relation "measure (\<lambda>(m, t, st). nat (t + 1 - bucket_end st))")
    (auto simp: emit_bucket_def split: if_splits)

declare close_buckets.simps [simp del]

primrec coarse_loop :: "int \<Rightarrow> point list \<Rightarrow> coarse \<Rightarrow> coarse c_result" where
  "coarse_loop max_buckets [] st = Ret st"
| "coarse_loop max_buckets (p # pts) st =
     (case close_buckets max_buckets (sint (fst p)) st of
        UB u \<Rightarrow> UB u
      | Ret st \<Rightarrow>
          coarse_loop max_buckets pts
            (st\<lparr>bucket_sum := bucket_sum st + snd p, bucket_count := bucket_count st + 1\<rparr>))"

definition write_coarse_chunk :: "allocator \<Rightarrow> string \<Rightarrow> string \<Rightarrow> point list \<Rightarrow> disk \<Rightarrow> disk c_result" where
  "write_coarse_chunk mem coarseDir metricName pts d =
     (if pts = [] then Ret d
      else
        let first = sint (fst (hd pts)); final = sint (fst (last pts));
            range = final - first + 60
        in if \<not> long_ok (final - first) \<or> \<not> long_ok range then UB SignedOverflow
           else
             let max_buckets = sint (of_int (range sdiv 60) :: u32) + 1 in
             if max_buckets \<ge> 2 ^ 31 then UB SignedOverflow
             else if max_buckets < 0 \<or> \<not> mem (8 * nat max_buckets) then Ret d
             else
               let start = (first sdiv 60) * 60 in
               if start + 60 > long_max then UB SignedOverflow
               else
                 case coarse_loop max_buckets pts
                        \<lparr>bucket_start = start, bucket_end = start + 60, bucket_sum = 0,
                         bucket_count = 0, coarse_out = []\<rparr> of
                   UB u \<Rightarrow> UB u
                 | Ret st \<Rightarrow>
                     case emit_bucket max_buckets st of
                       UB u \<Rightarrow> UB u
                     | Ret st \<Rightarrow>
                         if coarse_out st = [] then Ret d
                         else
                           let out_ts = map (of_int \<circ> fst) (coarse_out st);
                               cid = ucast (hd out_ts :: u64);
                               filepath = bounded 512 (coarseDir @ ''/'' @ metricName @ ''_'' @
                                            show_int (uint (cid :: u32)) @ ''.chunk'')
                           in Ret (snd (flushtochunk cid filepath out_ts (map snd (coarse_out st))
                                          (length (coarse_out st)) d)))"

section \<open>One pass\<close>

text \<open>One chunk of the list, with the flag \<open>made_dir\<close>.\<close>

definition downsample_chunk ::
    "allocator \<Rightarrow> long \<Rightarrow> string \<Rightarrow> string \<Rightarrow> ChunkMetadata \<Rightarrow> bool \<times> disk \<Rightarrow> (bool \<times> disk) c_result" where
  "downsample_chunk mem cutoff coarseDir key cm st =
     (let (made_dir, d) = st in
      if sint (end_ts cm) \<ge> sint cutoff then Ret st
      else
        let cid = ucast (start_ts cm) :: u32;
            marker = done_marker_path coarseDir cid 512
        in if marker_exists marker d then Ret st
           else
             let d = (if \<not> made_dir then mkdir coarseDir d else d);
                 made_dir = True
             in case decompress_all mem (filename cm) d of
                  None \<Rightarrow> Ret (made_dir, d)
                | Some pts \<Rightarrow>
                    if pts = [] then Ret (made_dir, d)
                    else
                      case write_coarse_chunk mem coarseDir key pts d of
                        UB u \<Rightarrow> UB u
                      | Ret d \<Rightarrow> Ret (made_dir, create_marker marker d))"

primrec downsample_chunks ::
    "allocator \<Rightarrow> long \<Rightarrow> string \<Rightarrow> string \<Rightarrow> ChunkMetadata list \<Rightarrow> bool \<times> disk \<Rightarrow> (bool \<times> disk) c_result" where
  "downsample_chunks mem cutoff coarseDir key [] st = Ret st"
| "downsample_chunks mem cutoff coarseDir key (cm # cms) st =
     (case downsample_chunk mem cutoff coarseDir key cm st of
        UB u \<Rightarrow> UB u
      | Ret st \<Rightarrow> downsample_chunks mem cutoff coarseDir key cms st)"

definition downsample_metric :: "allocator \<Rightarrow> long \<Rightarrow> string \<Rightarrow> metric_registry \<Rightarrow> disk \<Rightarrow> disk c_result" where
  "downsample_metric mem now dataDir entry d =
     (case downsample_chunks mem (now - 3600) (downsample_coarse_dir dataDir (mkey entry) 512) (mkey entry)
             (live_chunks entry) (False, d) of
        UB u \<Rightarrow> UB u
      | Ret (made_dir, d) \<Rightarrow> Ret d)"

primrec downsample_entries ::
    "allocator \<Rightarrow> long \<Rightarrow> string \<Rightarrow> metric_registry list \<Rightarrow> disk \<Rightarrow> disk c_result" where
  "downsample_entries mem now dataDir [] d = Ret d"
| "downsample_entries mem now dataDir (en # reg) d =
     (case downsample_metric mem now dataDir en d of
        UB u \<Rightarrow> UB u
      | Ret d \<Rightarrow> downsample_entries mem now dataDir reg d)"

definition downsample_run_now :: "allocator \<Rightarrow> long \<Rightarrow> string \<Rightarrow> engine \<Rightarrow> engine c_result" where
  "downsample_run_now mem now dataDir e =
     (case downsample_entries mem now dataDir (registry e) (store e) of
        UB u \<Rightarrow> UB u
      | Ret d \<Rightarrow> Ret (e\<lparr>store := d\<rparr>))"

section \<open>The averages of the minutes\<close>

text \<open>What downsampling is to compute: the average of the values of every minute with points.\<close>

definition minute :: "point \<Rightarrow> int" where
  "minute p = sint (fst p) div 60"

definition average :: "cdouble list \<Rightarrow> cdouble" where
  "average vs = d_div (foldl (+) 0 vs) (d_of_int (int (length vs)))"

definition minute_average :: "point list \<Rightarrow> int \<Rightarrow> int \<times> cdouble" where
  "minute_average pts k = (60 * k, average (map snd (filter (\<lambda>p. minute p = k) pts)))"

definition minute_averages :: "point list \<Rightarrow> (int \<times> cdouble) list" where
  "minute_averages pts = map (minute_average pts) (remdups_adj (map minute pts))"

text \<open>The state in minute \<open>k\<close> with the points \<open>g\<close> of it seen, and \<open>out\<close> written.\<close>

definition coarse_state :: "int \<Rightarrow> point list \<Rightarrow> (int \<times> cdouble) list \<Rightarrow> coarse" where
  "coarse_state k g out =
     \<lparr>bucket_start = 60 * k, bucket_end = 60 * k + 60, bucket_sum = foldl (+) 0 (map snd g),
      bucket_count = int (length g), coarse_out = out\<rparr>"

definition emitted :: "int \<Rightarrow> point list \<Rightarrow> (int \<times> cdouble) list" where
  "emitted k g = (if g = [] then [] else [(60 * k, average (map snd g))])"

lemma emit_bucket_state:
  assumes "int (length (out @ emitted k g)) \<le> m"
  shows "emit_bucket m (coarse_state k g out) = Ret (coarse_state k [] (out @ emitted k g))"
  using assms by (cases "g = []") (auto simp: emit_bucket_def coarse_state_def emitted_def average_def)

lemma coarse_state_simps [simp]:
  "bucket_end (coarse_state k g out) = 60 * k + 60" "coarse_out (coarse_state k g out) = out"
  "coarse_state k [] out\<lparr>bucket_start := 60 * k + 60, bucket_end := 60 * k + 60 + 60\<rparr> = coarse_state (k + 1) [] out"
  "(coarse_state k g out)\<lparr>bucket_sum := bucket_sum (coarse_state k g out) + snd p,
     bucket_count := bucket_count (coarse_state k g out) + 1\<rparr> = coarse_state k (g @ [p]) out"
  by (simp_all add: coarse_state_def)

text \<open>A timestamp of the open minute closes nothing; a later one emits the bucket and moves on.\<close>

lemma close_buckets_stay: "t < 60 * k + 60 \<Longrightarrow> close_buckets m t (coarse_state k g out) = Ret (coarse_state k g out)"
  by (simp add: close_buckets.simps)

lemma close_buckets_move:
  assumes "60 * (k + 1) \<le> t" "t + 60 \<le> long_max" and "int (length (out @ emitted k g)) \<le> m"
  shows "close_buckets m t (coarse_state k g out) = close_buckets m t (coarse_state (k + 1) [] (out @ emitted k g))"
  using assms(1,2) emit_bucket_state [OF assms(3)] coarse_state_simps(3) [of k "out @ emitted k g"]
  by (simp add: close_buckets.simps [of m t "coarse_state k g out"])

lemma minute_start:
  assumes "k \<le> t div (60 :: int)"
  shows "60 * k \<le> t"
proof -
  have "60 * (t div 60) \<le> t" using mult_div_mod_eq [of 60 t] pos_mod_sign [of 60 t] by linarith
  with assms show ?thesis by linarith
qed

lemma close_empty_buckets:
  assumes "60 * k \<le> t" and "t + 60 \<le> long_max" and "int (length out) \<le> m"
  shows "close_buckets m t (coarse_state k [] out) = Ret (coarse_state (t div 60) [] out)"
  using assms(1)
proof (induction "nat (t div 60 - k)" arbitrary: k)
  case 0
  then have "t div 60 = k" by linarith
  moreover from this have "t < 60 * k + 60" by linarith
  ultimately show ?case by (simp add: close_buckets_stay)
next
  case (Suc n)
  from Suc(2) have "k + 1 \<le> t div 60" by linarith
  then have ge: "60 * (k + 1) \<le> t" by (rule minute_start)
  have "n = nat (t div 60 - (k + 1))" using Suc(2) by linarith
  from Suc(1) [OF this ge] have "close_buckets m t (coarse_state (k + 1) [] out) = Ret (coarse_state (t div 60) [] out)" .
  moreover have "close_buckets m t (coarse_state k [] out) = close_buckets m t (coarse_state (k + 1) [] out)"
    using close_buckets_move [OF ge assms(2), of out "[]" m] assms(3) by (simp only: emitted_def append_Nil2 simp_thms if_True)
  ultimately show ?case by (rule trans [rotated])
qed

lemma close_buckets_state:
  assumes "60 * k \<le> t" "t + 60 \<le> long_max" and "int (length (out @ emitted k g)) \<le> m"
  shows "close_buckets m t (coarse_state k g out) =
    Ret (if t div 60 = k then coarse_state k g out else coarse_state (t div 60) [] (out @ emitted k g))"
proof (cases "t div 60 = k")
  case True
  then have "t < 60 * k + 60" by linarith
  with True show ?thesis by (simp add: close_buckets_stay)
next
  case False
  have "k \<le> t div 60" using assms(1) by linarith
  with False have "k + 1 \<le> t div 60" by linarith
  then have ge: "60 * (k + 1) \<le> t" by (rule minute_start)
  have "close_buckets m t (coarse_state k g out) = Ret (coarse_state (t div 60) [] (out @ emitted k g))"
    by (rule trans [OF close_buckets_move [OF ge assms(2,3)] close_empty_buckets [OF ge assms(2,3)]])
  with False show ?thesis by (simp only: if_False)
qed

lemma remdups_adj_block:
  "g \<noteq> [] \<Longrightarrow> \<forall>q \<in> set g. f q = k \<Longrightarrow> \<forall>q \<in> set qs. f q \<noteq> k \<Longrightarrow>
     remdups_adj (map f (g @ qs)) = k # remdups_adj (map f qs)"
proof (induction g)
  case Nil
  then show ?case by simp
next
  case (Cons q g)
  then show ?case by (cases g; cases qs) auto
qed

lemma minute_averages_block:
  assumes "\<forall>q \<in> set g. minute q = k" "\<forall>q \<in> set qs. minute q \<noteq> k"
  shows "minute_averages (g @ qs) = emitted k g @ minute_averages qs"
proof (cases "g = []")
  case True
  then show ?thesis by (simp add: emitted_def)
next
  case False
  have "filter (\<lambda>q. minute q = k) qs = []" "filter (\<lambda>q. minute q = k) g = g"
    using assms by (auto simp: filter_empty_conv)
  then have first: "minute_average (g @ qs) k = (60 * k, average (map snd g))"
    by (simp add: minute_average_def)
  have "minute_average (g @ qs) j = minute_average qs j" if "j \<in> set (map minute qs)" for j
  proof -
    have "j \<noteq> k" using that assms(2) by auto
    then have "filter (\<lambda>q. minute q = j) g = []" using assms(1) by (auto simp: filter_empty_conv)
    then show ?thesis by (simp add: minute_average_def)
  qed
  then have "map (minute_average (g @ qs)) (remdups_adj (map minute qs)) =
      map (minute_average qs) (remdups_adj (map minute qs))" by (intro map_cong) auto
  then show ?thesis
    using first False remdups_adj_block [OF False assms] by (simp add: minute_averages_def emitted_def)
qed

lemma minute_averages_single: "\<forall>q \<in> set g. minute q = k \<Longrightarrow> minute_averages g = emitted k g"
  using minute_averages_block [of g k "[]"] by (simp add: minute_averages_def)

lemma emitted_length: "length (emitted k g) \<le> length (minute_averages (g @ qs))"
  by (cases g) (auto simp: emitted_def minute_averages_def Suc_le_eq)

lemma coarse_loop_averages:
  assumes "sorted (map (sint \<circ> fst) pts)" "\<forall>p \<in> set pts. 60 * k \<le> sint (fst p) \<and> sint (fst p) + 60 \<le> long_max"
    and "\<forall>q \<in> set g. minute q = k" and "int (length (out @ minute_averages (g @ pts))) \<le> m"
  shows "\<exists>st st'. coarse_loop m pts (coarse_state k g out) = Ret st \<and> emit_bucket m st = Ret st' \<and>
    coarse_out st' = out @ minute_averages (g @ pts)"
  using assms
proof (induction pts arbitrary: k g out)
  case Nil
  then have avg: "minute_averages g = emitted k g" by (simp add: minute_averages_single)
  with Nil(4) emit_bucket_state [of out k g m] show ?case by simp
next
  case (Cons p pts)
  have ge: "60 * k \<le> sint (fst p)" and small: "sint (fst p) + 60 \<le> long_max" using Cons.prems(2) by simp_all
  have later: "\<forall>q \<in> set pts. sint (fst p) \<le> sint (fst q)" using Cons.prems(1) by simp
  have room: "int (length (out @ emitted k g)) \<le> m"
    using Cons.prems(4) emitted_length [of k g "p # pts"] by simp
  note close = close_buckets_state [OF ge small room]
  show ?case
  proof (cases "minute p = k")
    case True
    have "coarse_loop m (p # pts) (coarse_state k g out) = coarse_loop m pts (coarse_state k (g @ [p]) out)"
      using True close by (simp add: minute_def)
    moreover have "sorted (map (sint \<circ> fst) pts)" using Cons.prems(1) by (simp add: comp_def)
    ultimately show ?thesis using Cons.IH [of k "g @ [p]" out] Cons.prems True by simp
  next
    case False
    have "\<forall>q \<in> set (p # pts). minute q \<noteq> k"
    proof
      fix q assume "q \<in> set (p # pts)"
      then have "minute p \<le> minute q" using later by (auto simp: minute_def zdiv_mono1)
      moreover have "k \<le> minute p" using ge by (simp add: minute_def)
      ultimately show "minute q \<noteq> k" using False by linarith
    qed
    note split = minute_averages_block [OF Cons.prems(3) this]
    have step: "coarse_loop m (p # pts) (coarse_state k g out) =
        coarse_loop m pts (coarse_state (minute p) [p] (out @ emitted k g))"
      using close False coarse_state_simps(4) [of "minute p" "[]"] by (simp add: minute_def)
    have "\<forall>q \<in> set pts. 60 * minute p \<le> sint (fst q) \<and> sint (fst q) + 60 \<le> long_max"
    proof
      fix q assume q: "q \<in> set pts"
      have "60 * minute p \<le> sint (fst p)" by (simp add: minute_def minute_start)
      with q later Cons.prems(2) show "60 * minute p \<le> sint (fst q) \<and> sint (fst q) + 60 \<le> long_max" by force
    qed
    moreover have "sorted (map (sint \<circ> fst) pts)" using Cons.prems(1) by (simp add: comp_def)
    moreover have "int (length ((out @ emitted k g) @ minute_averages ([p] @ pts))) \<le> m"
      using Cons.prems(4) unfolding split by simp
    moreover have "\<forall>q \<in> set [p]. minute q = minute p" by simp
    ultimately have "\<exists>st st'. coarse_loop m pts (coarse_state (minute p) [p] (out @ emitted k g)) = Ret st \<and>
        emit_bucket m st = Ret st' \<and> coarse_out st' = (out @ emitted k g) @ minute_averages ([p] @ pts)"
      by (intro Cons.IH)
    then show ?thesis unfolding step split append_assoc append_Cons append_Nil .
  qed
qed

text \<open>Sorted points have at most one more minute than the distance of the last from the first.\<close>

lemma length_minutes:
  "sorted (map f (p # pts)) \<Longrightarrow>
     int (length (remdups_adj (map f (p # pts)))) \<le> f (last (p # pts)) - f p + (1 :: int)"
proof (induction pts arbitrary: p)
  case Nil
  then show ?case by simp
next
  case (Cons q pts)
  then have "int (length (remdups_adj (map f (q # pts)))) \<le> f (last (q # pts)) - f q + 1" by simp
  moreover have "f p \<le> f q" using Cons.prems by simp
  ultimately show ?case by (cases "f p = f q") simp_all
qed


section \<open>The coarse chunk\<close>

definition coarse_points :: "point list \<Rightarrow> point list" where
  "coarse_points pts = map (\<lambda>(t, a). (of_int t, a)) (minute_averages pts)"

definition coarse_path :: "string \<Rightarrow> string \<Rightarrow> point list \<Rightarrow> string" where
  "coarse_path dir name pts =
     bounded 512 (dir @ ''/'' @ name @ ''_'' @ show_int (uint (ucast (fst (hd (coarse_points pts))) :: u32)) @ ''.chunk'')"

text \<open>Points of a chunk that is downsampled: in order, with timestamps of the epoch and a distance
  that counts as minutes in an \<open>int\<close>.\<close>

definition coarse_ready :: "point list \<Rightarrow> bool" where
  "coarse_ready pts \<longleftrightarrow> pts \<noteq> [] \<and> sorted (map (sint \<circ> fst) pts) \<and> 0 \<le> sint (fst (hd pts)) \<and>
     sint (fst (last pts)) - sint (fst (hd pts)) < 60 * (2 ^ 31 - 3) \<and> sint (fst (last pts)) + 60 \<le> long_max"

lemma sorted_last: "sorted (map f pts) \<Longrightarrow> p \<in> set pts \<Longrightarrow> f p \<le> f (last pts)"
  by (induction pts) (auto simp: last_map)

lemma sorted_first: "sorted (map f pts) \<Longrightarrow> p \<in> set pts \<Longrightarrow> f (hd pts) \<le> f p"
  by (cases pts) auto

lemma minute_averages_length:
  assumes "coarse_ready pts"
  shows "int (length (minute_averages pts)) \<le> (sint (fst (last pts)) - sint (fst (hd pts)) + 60) div 60 + 1"
proof -
  obtain p qs where pts: "pts = p # qs" using assms by (cases pts) (auto simp: coarse_ready_def)
  have "sorted (map minute pts)"
    using assms by (auto simp: coarse_ready_def sorted_map minute_def intro: zdiv_mono1 elim!: sorted_wrt_mono_rel [rotated])
  from length_minutes [OF this [unfolded pts]]
  have "int (length (minute_averages pts)) \<le> minute (last pts) - minute (hd pts) + 1"
    by (simp add: pts minute_averages_def)
  also have "\<dots> \<le> (sint (fst (last pts)) - sint (fst (hd pts)) + 60) div 60 + 1"
    unfolding minute_def by linarith
  finally show ?thesis .
qed

lemma minute_averages_hd:
  assumes "pts \<noteq> []"
  shows "minute_averages pts \<noteq> []"
  using assms by (cases pts) (simp_all add: minute_averages_def)

lemma write_coarse_chunk_Ret:
  assumes ready: "coarse_ready pts" and mem: "\<And>k. mem k"
  shows "write_coarse_chunk mem dir name pts d =
    Ret (snd (flushtochunk (ucast (fst (hd (coarse_points pts)))) (coarse_path dir name pts)
      (map fst (coarse_points pts)) (map snd (coarse_points pts)) (length (coarse_points pts)) d))"
proof -
  define F where "F = sint (fst (hd pts))"
  define L where "L = sint (fst (last pts))"
  define M where "M = (L - F + 60) div 60 + 1"
  have ne: "pts \<noteq> []" and sorted: "sorted (map (sint \<circ> fst) pts)" and F: "0 \<le> F" and dist: "L - F < 60 * (2 ^ 31 - 3)"
    and L: "L + 60 \<le> long_max" using ready by (simp_all add: coarse_ready_def F_def L_def)
  have FL: "F \<le> L" using sorted_last [OF sorted, of "hd pts"] ne by (simp add: F_def L_def)
  have ok: "long_ok (L - F)" "long_ok (L - F + 60)"
    using F L FL by (simp_all add: long_ok_def long_min_def)
  have div: "(L - F + 60) sdiv 60 = (L - F + 60) div 60" "F sdiv 60 = F div 60"
    using F FL by (simp_all add: signed_divide_int_def sgn_if)
  have "L - F < 128849018700" using dist by simp
  then have "M < 2147483648" unfolding M_def by linarith
  moreover have "0 \<le> M" using FL unfolding M_def by linarith
  ultimately have M: "0 \<le> M" "M < 2 ^ 31" by simp_all
  then have word: "sint (of_int ((L - F + 60) sdiv 60) :: u32) + 1 = M"
    using FL by (simp add: div M_def sint_sbintrunc' signed_take_bit_int_eq_self)
  have start: "F sdiv 60 * 60 = 60 * (F div 60)" by (simp add: div)
  have "60 * (F div 60) \<le> F" by (simp add: minute_start)
  with L FL have top: "\<not> 60 * (F div 60) + 60 > long_max" by linarith
  have bounds: "\<forall>p \<in> set pts. 60 * (F div 60) \<le> sint (fst p) \<and> sint (fst p) + 60 \<le> long_max"
  proof
    fix p assume p: "p \<in> set pts"
    have "F \<le> sint (fst p)" "sint (fst p) \<le> L"
      using sorted_first [OF sorted p] sorted_last [OF sorted p] by (simp_all add: F_def L_def)
    then show "60 * (F div 60) \<le> sint (fst p) \<and> sint (fst p) + 60 \<le> long_max"
      using \<open>60 * (F div 60) \<le> F\<close> L by linarith
  qed
  have "int (length ([] @ minute_averages ([] @ pts))) \<le> M"
    using minute_averages_length [OF ready] by (simp add: M_def F_def L_def)
  from coarse_loop_averages [OF sorted bounds _ this] obtain st st' where
    loop: "coarse_loop M pts (coarse_state (F div 60) [] []) = Ret st" "emit_bucket M st = Ret st'"
    "coarse_out st' = minute_averages pts" by auto
  have init: "\<lparr>bucket_start = 60 * (F div 60), bucket_end = 60 * (F div 60) + 60, bucket_sum = 0,
      bucket_count = 0, coarse_out = []\<rparr> = coarse_state (F div 60) [] []"
    by (simp add: coarse_state_def)
  have out: "map (of_int \<circ> fst) (minute_averages pts) = map fst (coarse_points pts)"
    "map snd (minute_averages pts) = map snd (coarse_points pts)"
    "length (minute_averages pts) = length (coarse_points pts)"
    "hd (map fst (coarse_points pts)) = fst (hd (coarse_points pts))"
    using minute_averages_hd [OF ne] by (simp_all add: coarse_points_def split_def hd_map)
  have guards: "\<not> M \<ge> 2 ^ 31" "\<not> (M < 0 \<or> \<not> mem (8 * nat M))" using M mem by simp_all
  show ?thesis
    unfolding write_coarse_chunk_def Let_def F_def [symmetric] L_def [symmetric] word start init loop
    using ne ok guards top loop minute_averages_hd [OF ne] by (simp add: out coarse_path_def)
qed

lemma zip_stored: "zip (map fst pts) (map (\<lambda>p. val_image (snd p)) pts) = map stored_point pts"
  by (induction pts) (simp_all add: stored_point_def)


text \<open>Three points of two minutes: the coarse chunk holds the averages 2 and 5.\<close>

definition minute_points :: "point list" where
  "minute_points = [(120, d_of_int 1), (150, d_of_int 3), (200, d_of_int 5)]"

lemma minute_points_coarse: "coarse_points minute_points = [(120, d_of_int 2), (180, d_of_int 5)]"
  by code_simp


section \<open>Markers\<close>

lemma create_marker_exists: "fopen_wb path d = Some d1 \<Longrightarrow> marker_exists path (create_marker path d)"
  using fopen_wb_Some [of path d d1] by (simp add: create_marker_def marker_exists_def)

lemma create_marker_frame: "q \<noteq> path \<Longrightarrow> files (create_marker path d) q = files d q"
  by (auto simp: create_marker_def dest: fopen_wb_Some split: option.split)

lemma downsample_chunk_marked:
  "marker_exists (done_marker_path dir (ucast (start_ts cm)) 512) d \<Longrightarrow>
     downsample_chunk mem cutoff dir key cm (made, d) = Ret (made, d)"
  by (simp add: downsample_chunk_def Let_def)

lemma chunkread_mkdir: "chunkread mem p (mkdir dir d) = chunkread mem p d"
  by (rule chunkread_frame) simp_all

lemma flushtochunk_denied:
  assumes "0 < n" "n \<le> length ts" "n \<le> length vs" and "denied d p"
  shows "flushtochunk cid p ts vs n d = (-1, d)"
  using flushtochunk_chunkwrite [OF assms(1-3)] assms(4) by (simp add: chunkwrite_open_fails fopen_wb_def)

text \<open>C40: the marker of a chunk says that its coarse chunk was written, but it is created whatever
  became of the coarse chunk. When the system refuses the coarse file and accepts the marker, the
  pass ends normally with the marker in place and no coarse data, and no later pass will look at
  the chunk again: its minutes are missing from the coarse data for good.\<close>

theorem downsample_marker_despite_failure:
  fixes dir and cm
  defines "marker \<equiv> done_marker_path dir (ucast (start_ts cm)) 512"
  assumes "sint (end_ts cm) < sint cutoff" and "\<not> marker_exists marker d"
    and "decompress_all mem (filename cm) d = Some pts" and "coarse_ready pts" and "\<And>k. mem k"
    and "denied d (coarse_path dir key pts)" and "fopen_wb marker (mkdir dir d) = Some d1"
    and "coarse_path dir key pts \<noteq> marker"
  shows "\<exists>d'. downsample_chunk mem cutoff dir key cm (False, d) = Ret (True, d') \<and>
    files d' (coarse_path dir key pts) = files d (coarse_path dir key pts) \<and>
    (\<forall>mem cutoff made. downsample_chunk mem cutoff dir key cm (made, d') = Ret (made, d'))"
proof -
  let ?d = "mkdir dir d" and ?cs = "coarse_points pts"
  have "0 < length ?cs"
    using assms(5) minute_averages_hd [of pts] by (simp add: coarse_points_def coarse_ready_def)
  then have "flushtochunk cid (coarse_path dir key pts) (map fst ?cs) (map snd ?cs) (length ?cs) ?d = (-1, ?d)" for cid
    using assms(7) by (intro flushtochunk_denied) simp_all
  then have written: "write_coarse_chunk mem dir key pts ?d = Ret ?d"
    using write_coarse_chunk_Ret [OF assms(5,6), where dir = dir and name = key and d = ?d] by simp
  have read: "decompress_all mem (filename cm) ?d = Some pts"
    using assms(4) by (simp add: decompress_all_def chunkread_mkdir)
  have "pts \<noteq> []" using assms(5) by (simp add: coarse_ready_def)
  with assms(2,3) written read have "downsample_chunk mem cutoff dir key cm (False, d) = Ret (True, create_marker marker ?d)"
    by (simp add: downsample_chunk_def Let_def marker_def)
  moreover have "files (create_marker marker ?d) (coarse_path dir key pts) = files d (coarse_path dir key pts)"
    using create_marker_frame [OF assms(9)] by simp
  moreover have "downsample_chunk mem' cutoff' dir key cm (made, create_marker marker ?d) = Ret (made, create_marker marker ?d)"
    for mem' cutoff' made
    using create_marker_exists [OF assms(8)] unfolding marker_def by (rule downsample_chunk_marked)
  ultimately show ?thesis by blast
qed

definition refused_disk :: disk where
  "refused_disk = (snd (flushtochunk 120 ''data/cpu_120.chunk'' (map fst minute_points) (map snd minute_points)
     (length minute_points) sample_disk))\<lparr>denied := \<lambda>p. p = ''data/cpu_1m/cpu_120.chunk''\<rparr>"

lemma refused_disk_read: "decompress_all (\<lambda>_. True) ''data/cpu_120.chunk'' refused_disk = Some minute_points"
proof -
  let ?n = "length minute_points" and ?ts = "map fst minute_points" and ?vs = "map snd minute_points"
  let ?d = "snd (flushtochunk 120 ''data/cpu_120.chunk'' ?ts ?vs ?n sample_disk)"
  have opened: "fopen_wb ''data/cpu_120.chunk'' sample_disk =
      Some (sample_disk\<lparr>files := (files sample_disk)(''data/cpu_120.chunk'' \<mapsto> [])\<rparr>)"
    by (simp add: fopen_wb_def parent_exists_def dirname_def sample_disk_def)
  have n: "0 < ?n" "?n \<le> 50000" "?n \<le> 2 ^ 27" by (simp_all add: minute_points_def)
  have ok: "fst (flushtochunk 120 ''data/cpu_120.chunk'' ?ts ?vs ?n sample_disk) = 0"
    by (rule flushtochunk_succeeds [OF n(1,3) _ _ opened]) (simp_all add: sample_disk_def minute_points_def)
  have fit: "points_fit (zip (take ?n ?ts) (take ?n ?vs))"
    by (simp add: zip_map_fst_snd minute_points_def points_fit_def ts_code_defs tsencoderinit_def)
  have usable: "\<not> denied sample_disk ''data/cpu_120.chunk''" by (simp add: sample_disk_def)
  obtain h pl where read: "chunkread (\<lambda>_. True) ''data/cpu_120.chunk'' ?d = Some (h, pl)"
    "decode_points h pl = zip (take ?n ?ts) (map val_image (take ?n ?vs))" "unat (point_count h) = ?n"
    using flushtochunk_stored [where mem = "\<lambda>_. True", OF n(1,2) _ _ fit _ usable ok] by auto
  have den: "denied ?d = denied sample_disk" using flushtochunk_frame(4) [where q = "[]"] by simp
  have "chunkread (\<lambda>_. True) ''data/cpu_120.chunk'' refused_disk = chunkread (\<lambda>_. True) ''data/cpu_120.chunk'' ?d"
    by (simp add: chunkread_def fopen_rb_def refused_disk_def den) (simp add: sample_disk_def)
  moreover have "point_count h = 3" using read(3) by (simp add: minute_points_def word_unat_eq_iff)
  moreover have "decode_points h pl = map stored_point minute_points"
    using read(2) zip_stored [of minute_points] by (simp add: comp_def)
  moreover have "map stored_point minute_points = minute_points" by code_simp
  ultimately show ?thesis using read(1) by (simp add: decompress_all_def)
qed

theorem downsample_marker_despite_failure_witness:
  "\<exists>d'. downsample_chunk (\<lambda>_. True) 4000 ''data/cpu_1m'' ''cpu''
       \<lparr>start_ts = 120, end_ts = 200, filename = ''data/cpu_120.chunk''\<rparr> (False, refused_disk) = Ret (True, d') \<and>
     files d' ''data/cpu_1m/cpu_120.chunk'' = None"
proof -
  let ?cm = "\<lparr>start_ts = 120, end_ts = 200, filename = ''data/cpu_120.chunk''\<rparr>"
  let ?marker = "done_marker_path ''data/cpu_1m'' (ucast (start_ts ?cm)) 512"
  have marker: "?marker = ''data/cpu_1m/120.done''" by code_simp
  have path: "coarse_path ''data/cpu_1m'' ''cpu'' minute_points = ''data/cpu_1m/cpu_120.chunk''"
    unfolding coarse_path_def minute_points_coarse by code_simp
  have "q \<noteq> ''data/cpu_120.chunk'' \<Longrightarrow> files refused_disk q = files sample_disk q" for q
    unfolding refused_disk_def by (simp add: flushtochunk_frame)
  then have none: "files refused_disk ''data/cpu_1m/120.done'' = None" "files refused_disk ''data/cpu_1m/cpu_120.chunk'' = None"
    "files refused_disk ''data/cpu_1m'' = None" by (simp_all add: sample_disk_def)
  have dirs: "dirs refused_disk = dirs sample_disk"
    using flushtochunk_frame(3) [where q = "[]"] by (simp add: refused_disk_def)
  have den: "denied refused_disk = (\<lambda>p. p = ''data/cpu_1m/cpu_120.chunk'')" by (simp add: refused_disk_def)
  have ready: "coarse_ready minute_points" by (simp add: coarse_ready_def minute_points_def long_max_def)
  have fresh: "\<not> marker_exists ?marker refused_disk"
    unfolding marker by (simp add: marker_exists_def none dirs sample_disk_def)
  have refuse: "denied refused_disk (coarse_path ''data/cpu_1m'' ''cpu'' minute_points)"
    unfolding path by (simp add: den)
  have "dirs (mkdir ''data/cpu_1m'' refused_disk) ''data/cpu_1m''"
    "\<not> dirs (mkdir ''data/cpu_1m'' refused_disk) ''data/cpu_1m/120.done''"
    by (simp_all add: mkdir_def none dirs sample_disk_def den parent_exists_def dirname_def)
  then obtain d1 where opened: "fopen_wb ?marker (mkdir ''data/cpu_1m'' refused_disk) = Some d1"
    unfolding marker by (simp add: fopen_wb_def parent_exists_def dirname_def den)
  have old: "sint (end_ts ?cm) < sint (4000 :: long)" by simp
  have read: "decompress_all (\<lambda>_. True) (filename ?cm) refused_disk = Some minute_points"
    by (simp add: refused_disk_read)
  have other: "coarse_path ''data/cpu_1m'' ''cpu'' minute_points \<noteq> ?marker" unfolding path marker by simp
  from downsample_marker_despite_failure [OF old fresh read ready _ refuse opened other] show ?thesis
    by (auto simp: path none)
qed

end
