(* ===== verification/Aggregate.thy ===== *)
theory Aggregate
  imports Downsample
begin

text \<open>
  Aggregation over a time range, \<open>Head_AGG\<close> of \<^verbatim>\<open>src/registry.c\<close> with the functions it is
  made of: the growing array of points, the collection from chunk files and from the head block,
  the sort and the bucket loop. The order in which \<open>readdir\<close> lists a directory is up to the
  system and is an argument, \<open>ls\<close>; \<open>qsort\<close> is a stable sort, one of the orders the C standard
  allows.

  \<open>bucketSeconds\<close> is the \<open>int\<close> of the code as an integer. Both callers refuse a bucket that is not
  positive, and the loop over the buckets is only described for positive ones.
\<close>

section \<open>The array of points\<close>

text \<open>The first \<open>n\<close> cells of the array, the capacity the code believes in and the cells allocated.\<close>

record point_array =
  pts :: "point list"
  pcap :: nat
  palloc :: nat

definition no_points :: point_array where
  "no_points = \<lparr>pts = [], pcap = 0, palloc = 0\<rparr>"

definition int_max :: int where
  "int_max = 2 ^ 31 - 1"

definition store_point :: "point \<Rightarrow> point_array \<Rightarrow> (int \<times> point_array) c_result" where
  "store_point p arr =
     (if palloc arr = 0 then UB NullDeref
      else if length (pts arr) \<ge> palloc arr then UB HeapOverflow
      else Ret (0, arr\<lparr>pts := pts arr @ [p]\<rparr>))"

definition append_point :: "allocator \<Rightarrow> point \<Rightarrow> point_array \<Rightarrow> (int \<times> point_array) c_result" where
  "append_point mem p arr =
     (if pcap arr = 0 then
        let arr = arr\<lparr>pcap := 1024\<rparr>
        in if \<not> mem (16 * 1024) then Ret (-1, arr\<lparr>palloc := 0\<rparr>)
           else store_point p (arr\<lparr>palloc := 1024\<rparr>)
      else if length (pts arr) \<ge> pcap arr then
        if int (pcap arr) * 2 > int_max then UB SignedOverflow
        else
          let arr = arr\<lparr>pcap := pcap arr * 2\<rparr>
          in if \<not> mem (16 * pcap arr) then Ret (-1, arr)
             else store_point p (arr\<lparr>palloc := pcap arr\<rparr>)
      else store_point p arr)"

text \<open>The points of \<open>[s, e)\<close> go into the array until one does not fit.\<close>

definition in_range :: "long \<Rightarrow> long \<Rightarrow> point \<Rightarrow> bool" where
  "in_range s e p \<longleftrightarrow> sint (fst p) \<ge> sint s \<and> sint (fst p) < sint e"

primrec collect_points ::
    "allocator \<Rightarrow> long \<Rightarrow> long \<Rightarrow> point list \<Rightarrow> point_array \<Rightarrow> (int \<times> point_array) c_result" where
  "collect_points mem s e [] arr = Ret (0, arr)"
| "collect_points mem s e (p # ps) arr =
     (if in_range s e p then
        (case append_point mem p arr of
           UB u \<Rightarrow> UB u
         | Ret (res, arr) \<Rightarrow> if res \<noteq> 0 then Ret (-1, arr) else collect_points mem s e ps arr)
      else collect_points mem s e ps arr)"

definition collect_points_from_chunk ::
    "allocator \<Rightarrow> disk \<Rightarrow> string \<Rightarrow> long \<Rightarrow> long \<Rightarrow> point_array \<Rightarrow> (int \<times> point_array) c_result" where
  "collect_points_from_chunk mem d filepath s e arr =
     (case chunkread mem filepath d of
        None \<Rightarrow> Ret (-1, arr)
      | Some (header, payload) \<Rightarrow> collect_points mem s e (decode_points header payload) arr)"

definition collect_points_from_head ::
    "allocator \<Rightarrow> HeadBlock \<Rightarrow> long \<Rightarrow> long \<Rightarrow> point_array \<Rightarrow> (int \<times> point_array) c_result" where
  "collect_points_from_head mem head s e arr = collect_points mem s e (head_points head) arr"

text \<open>\<open>qsort\<close> with \<open>cmp_point_ts\<close>, which compares the timestamps.\<close>

definition cmp_point_ts :: "point \<Rightarrow> point \<Rightarrow> int" where
  "cmp_point_ts pa pb =
     (if sint (fst pa) < sint (fst pb) then -1 else if sint (fst pa) > sint (fst pb) then 1 else 0)"

primrec insert_point :: "point \<Rightarrow> point list \<Rightarrow> point list" where
  "insert_point p [] = [p]"
| "insert_point p (q # qs) = (if cmp_point_ts p q \<le> 0 then p # q # qs else q # insert_point p qs)"

definition sort_points :: "point list \<Rightarrow> point list" where
  "sort_points ps = foldr insert_point ps []"

section \<open>Buckets\<close>

text \<open>The locals of the scan of one bucket; the last two live on from bucket to bucket.\<close>

record bucket_acc =
  bcount :: int
  bsum :: cdouble
  minv :: cdouble
  maxv :: cdouble
  distinctCount :: int
  prevTS :: int

definition scan_point :: "point \<Rightarrow> bucket_acc \<Rightarrow> bucket_acc" where
  "scan_point p acc =
     (let v = snd p;
          acc = (if bcount acc = 0 then acc\<lparr>minv := v, maxv := v\<rparr>
                 else
                   let acc = (if v < minv acc then acc\<lparr>minv := v\<rparr> else acc)
                   in if v > maxv acc then acc\<lparr>maxv := v\<rparr> else acc);
          acc = acc\<lparr>bsum := bsum acc + v\<rparr>;
          acc = acc\<lparr>bcount := bcount acc + 1\<rparr>;
          acc = (if sint (fst p) \<noteq> prevTS acc then acc\<lparr>distinctCount := distinctCount acc + 1\<rparr> else acc)
      in acc\<lparr>prevTS := sint (fst p)\<rparr>)"

primrec scan_bucket :: "int \<Rightarrow> int \<Rightarrow> point list \<Rightarrow> bucket_acc \<Rightarrow> bucket_acc" where
  "scan_bucket bstart bend [] acc = acc"
| "scan_bucket bstart bend (p # ps) acc =
     (if sint (fst p) < bstart then scan_bucket bstart bend ps acc
      else if sint (fst p) \<ge> bend then acc
      else scan_bucket bstart bend ps (scan_point p acc))"

definition agg_result :: "string \<Rightarrow> bucket_acc \<Rightarrow> cdouble option" where
  "agg_result func acc =
     (if func = ''avg'' then Some (d_div (bsum acc) (d_of_int (bcount acc)))
      else if func = ''min'' then Some (minv acc)
      else if func = ''max'' then Some (maxv acc)
      else if func = ''sum'' then Some (bsum acc)
      else if func = ''count'' then Some (d_of_int (bcount acc))
      else if func = ''Dcount'' then Some (d_of_int (distinctCount acc))
      else None)"

definition agg_line :: "string \<Rightarrow> int \<Rightarrow> int \<Rightarrow> int \<Rightarrow> cdouble \<Rightarrow> string" where
  "agg_line func bstart bend count result =
     bounded 128 (show_int bstart @ ''-'' @ show_int bend @ '' '' @
       (if func = ''count'' then show_int count else fmt_f 6 result) @ newline)"

text \<open>The output and the locals of the loop over the buckets.\<close>

record agg_state =
  out_text :: string
  out_cap :: int
  buckets :: int
  agg_distinct :: int
  agg_prev :: int

text \<open>One bucket: \<open>Inl\<close> is a return out of the function.\<close>

definition agg_bucket ::
    "allocator \<Rightarrow> string \<Rightarrow> point list \<Rightarrow> int \<Rightarrow> int \<Rightarrow> agg_state \<Rightarrow> (string option + agg_state) c_result" where
  "agg_bucket mem func ps bstart bend st =
     (let acc = scan_bucket bstart bend ps
                  \<lparr>bcount = 0, bsum = 0, minv = 0, maxv = 0,
                   distinctCount = agg_distinct st, prevTS = agg_prev st\<rparr>;
          st = st\<lparr>agg_distinct := distinctCount acc, agg_prev := prevTS acc\<rparr>
      in if bcount acc = 0 then Ret (Inr st)
         else
           case agg_result func acc of
             None \<Rightarrow> Ret (Inl (if mem 64 then Some (bounded 64 (''ERR invalid func'' @ newline)) else None))
           | Some result \<Rightarrow>
               let line = agg_line func bstart bend (bcount acc) result;
                   need = int (length line);
                   out_len = int (length (out_text st));
                   grow = (out_len + need + 64 > out_cap st);
                   cap = (if grow then (out_len + need + 64) * 2 else out_cap st)
               in if out_len + need + 64 > int_max \<or> cap > int_max then UB SignedOverflow
                  else if grow \<and> \<not> mem (nat cap) then Ret (Inl None)
                  else if out_len + need + 1 > cap then UB HeapOverflow
                  else Ret (Inr (st\<lparr>out_text := out_text st @ line, out_cap := cap, buckets := buckets st + 1\<rparr>)))"

function agg_loop ::
    "allocator \<Rightarrow> string \<Rightarrow> point list \<Rightarrow> int \<Rightarrow> int \<Rightarrow> int \<Rightarrow> agg_state \<Rightarrow> (string option + agg_state) c_result" where
  "agg_loop mem func ps e bucketSeconds bstart st =
     (if bstart < e \<and> 0 < bucketSeconds then
        if bstart + bucketSeconds > long_max then UB SignedOverflow
        else
          (case agg_bucket mem func ps bstart (bstart + bucketSeconds) st of
             UB u \<Rightarrow> UB u
           | Ret (Inl out) \<Rightarrow> Ret (Inl out)
           | Ret (Inr st) \<Rightarrow> agg_loop mem func ps e bucketSeconds (bstart + bucketSeconds) st)
      else Ret (Inr st))"
  by pat_completeness auto
termination
  by (relation "measure (\<lambda>(mem, func, ps, e, b, bstart, st). nat (e - bstart))") auto

declare agg_loop.simps [simp del]

definition agg_points ::
    "allocator \<Rightarrow> point list \<Rightarrow> long \<Rightarrow> long \<Rightarrow> int \<Rightarrow> string \<Rightarrow> string option c_result" where
  "agg_points mem ps s e bucketSeconds func =
     (if \<not> mem 2048 then Ret None
      else
        let ps = sort_points ps in
        case agg_loop mem func ps (sint e) bucketSeconds (sint s)
               \<lparr>out_text = [], out_cap = 2048, buckets = 0, agg_distinct = 0, agg_prev = 0\<rparr> of
          UB u \<Rightarrow> UB u
        | Ret (Inl out) \<Rightarrow> Ret out
        | Ret (Inr st) \<Rightarrow>
            let footer = bounded 64 (''('' @ show_int (buckets st) @ '' buckets)'' @ newline);
                need = int (length footer);
                out_len = int (length (out_text st));
                grow = (out_len + need + 1 > out_cap st);
                cap = (if grow then out_len + need + 1 else out_cap st)
            in if out_len + need + 1 > int_max then UB SignedOverflow
               else if grow \<and> \<not> mem (nat cap) then Ret None
               else if out_len + need + 1 > cap then UB HeapOverflow
               else Ret (Some (out_text st @ footer)))"

section \<open>Head_AGG\<close>

definition strstr :: "string \<Rightarrow> string \<Rightarrow> bool" where
  "strstr s needle = list_ex (\<lambda>i. take (length needle) (drop i s) = needle) [0..<Suc (length s)]"

definition malloc_text :: "allocator \<Rightarrow> nat \<Rightarrow> string \<Rightarrow> string option" where
  "malloc_text mem n s = (if mem n then Some (bounded n s) else None)"

text \<open>The files of the coarse directory; the result of the collection is not looked at.\<close>

primrec collect_coarse ::
    "allocator \<Rightarrow> disk \<Rightarrow> string \<Rightarrow> long \<Rightarrow> long \<Rightarrow> string list \<Rightarrow> point_array \<Rightarrow> point_array c_result" where
  "collect_coarse mem d coarseDir s e [] arr = Ret arr"
| "collect_coarse mem d coarseDir s e (name # names) arr =
     (if \<not> strstr name ''.chunk'' then collect_coarse mem d coarseDir s e names arr
      else
        case collect_points_from_chunk mem d (bounded 768 (coarseDir @ ''/'' @ name)) s e arr of
          UB u \<Rightarrow> UB u
        | Ret (res, arr) \<Rightarrow> collect_coarse mem d coarseDir s e names arr)"

text \<open>The chunks of the registry: the flag says that one could not be read.\<close>

primrec collect_raw ::
    "allocator \<Rightarrow> disk \<Rightarrow> long \<Rightarrow> long \<Rightarrow> ChunkMetadata list \<Rightarrow> point_array \<Rightarrow> (bool \<times> point_array) c_result" where
  "collect_raw mem d s e [] arr = Ret (False, arr)"
| "collect_raw mem d s e (cm # cms) arr =
     (if sint (start_ts cm) < sint e \<and> sint (end_ts cm) \<ge> sint s then
        (case collect_points_from_chunk mem d (filename cm) s e arr of
           UB u \<Rightarrow> UB u
         | Ret (res, arr) \<Rightarrow> if res \<noteq> 0 then Ret (True, arr) else collect_raw mem d s e cms arr)
      else collect_raw mem d s e cms arr)"

definition use_coarse :: "string \<Rightarrow> string \<Rightarrow> long \<Rightarrow> long \<Rightarrow> int \<Rightarrow> disk \<Rightarrow> bool c_result" where
  "use_coarse g_dataDir metricName s e bucketSeconds d =
     (if g_dataDir \<noteq> [] then downsample_should_use g_dataDir metricName s e bucketSeconds d else Ret False)"

definition collect_disk ::
    "allocator \<Rightarrow> (disk \<Rightarrow> string \<Rightarrow> string list option) \<Rightarrow> string \<Rightarrow> string \<Rightarrow> long \<Rightarrow> long \<Rightarrow> int \<Rightarrow>
     metric_registry \<Rightarrow> disk \<Rightarrow> (bool \<times> point_array) c_result" where
  "collect_disk mem ls g_dataDir metricName s e bucketSeconds entry d =
     (case use_coarse g_dataDir metricName s e bucketSeconds d of
        UB u \<Rightarrow> UB u
      | Ret True \<Rightarrow>
          let coarseDir = downsample_coarse_dir g_dataDir metricName 512
          in (case ls d coarseDir of
                None \<Rightarrow> Ret (False, no_points)
              | Some names \<Rightarrow>
                  (case collect_coarse mem d coarseDir s e names no_points of
                     UB u \<Rightarrow> UB u
                   | Ret arr \<Rightarrow> Ret (False, arr)))
      | Ret False \<Rightarrow> collect_raw mem d s e (live_chunks entry) no_points)"

definition Head_AGG ::
    "allocator \<Rightarrow> (disk \<Rightarrow> string \<Rightarrow> string list option) \<Rightarrow> string \<Rightarrow>
     string \<Rightarrow> long \<Rightarrow> long \<Rightarrow> int \<Rightarrow> string \<Rightarrow> engine \<Rightarrow> string option c_result" where
  "Head_AGG mem ls g_dataDir metricName s e bucketSeconds func eng =
     (if bucketSeconds \<le> 0 \<or> sint s \<ge> sint e
      then Ret (malloc_text mem 64 (''ERR invalid range or bucket'' @ newline))
      else
        case registry_find metricName (registry eng) of
          None \<Rightarrow> Ret (malloc_text mem 32 (''(0 buckets)'' @ newline))
        | Some i \<Rightarrow>
            let entry = registry eng ! i in
            (case collect_disk mem ls g_dataDir metricName s e bucketSeconds entry (store eng) of
               UB u \<Rightarrow> UB u
             | Ret (True, arr) \<Rightarrow> Ret (malloc_text mem 64 (''ERR disk read'' @ newline))
             | Ret (False, arr) \<Rightarrow>
                 (case mhead entry of
                    None \<Rightarrow> UB NullDeref
                  | Some head \<Rightarrow>
                      (case collect_points_from_head mem head s e arr of
                         UB u \<Rightarrow> UB u
                       | Ret (res, arr) \<Rightarrow>
                           if res \<noteq> 0 then Ret (malloc_text mem 64 (''ERR no memory'' @ newline))
                           else if pts arr = [] then Ret (malloc_text mem 32 (''(0 buckets)'' @ newline))
                           else agg_points mem (sort_points (pts arr)) s e bucketSeconds func))))"

text \<open>\<open>Head_AGG_EVAL\<close> repeats the body of \<open>Head_AGG\<close> word for word; nothing calls it.\<close>

definition Head_AGG_EVAL ::
    "allocator \<Rightarrow> (disk \<Rightarrow> string \<Rightarrow> string list option) \<Rightarrow> string \<Rightarrow>
     string \<Rightarrow> long \<Rightarrow> long \<Rightarrow> int \<Rightarrow> string \<Rightarrow> engine \<Rightarrow> string option c_result" where
  "Head_AGG_EVAL mem ls g_dataDir metricName s e bucketSeconds func eng =
     Head_AGG mem ls g_dataDir metricName s e bucketSeconds func eng"

section \<open>The sort\<close>

lemma sort_points_sort_key: "sort_points ps = sort_key (\<lambda>p. sint (fst p)) ps"
proof -
  have "insert_point p qs = insort_key (\<lambda>p. sint (fst p)) p qs" for p qs
    by (induction qs) (auto simp: cmp_point_ts_def)
  then have "insert_point = insort_key (\<lambda>p. sint (fst p))" by (intro ext)
  then show ?thesis by (simp add: sort_points_def sort_key_def)
qed

lemma sort_points_sorted [simp]: "sorted (map (\<lambda>p. sint (fst p)) (sort_points ps))"
  by (simp add: sort_points_sort_key)

lemma sort_points_id: "sorted (map (\<lambda>p. sint (fst p)) ps) \<Longrightarrow> sort_points ps = ps"
proof (induction ps)
  case Nil
  then show ?case by (simp add: sort_points_def)
next
  case (Cons p ps)
  then show ?case by (simp add: sort_points_sort_key insort_is_Cons)
qed

section \<open>What a bucket is to hold\<close>

text \<open>The reference: the values of the points of a bucket and their aggregate. \<open>Dcount\<close> is what the
  code computes under that name: the changes of the timestamp up to the end of the bucket.\<close>

definition bucket_points :: "point list \<Rightarrow> int \<Rightarrow> int \<Rightarrow> point list" where
  "bucket_points ps bs be = filter (\<lambda>p. bs \<le> sint (fst p) \<and> sint (fst p) < be) ps"

primrec changes :: "int \<Rightarrow> int list \<Rightarrow> int" where
  "changes x [] = 0"
| "changes x (y # ys) = (if y \<noteq> x then 1 else 0) + changes y ys"

definition stamps_before :: "point list \<Rightarrow> int \<Rightarrow> int list" where
  "stamps_before ps t = filter (\<lambda>x. x < t) (map (\<lambda>p. sint (fst p)) ps)"

definition lesser :: "cdouble \<Rightarrow> cdouble \<Rightarrow> cdouble" where
  "lesser m v = (if v < m then v else m)"

definition greater :: "cdouble \<Rightarrow> cdouble \<Rightarrow> cdouble" where
  "greater m v = (if v > m then v else m)"

definition aggregate :: "string \<Rightarrow> point list \<Rightarrow> int \<Rightarrow> int \<Rightarrow> cdouble" where
  "aggregate func ps bs be =
     (let vs = map snd (bucket_points ps bs be) in
      if func = ''avg'' then average vs
      else if func = ''min'' then foldl lesser (hd vs) (tl vs)
      else if func = ''max'' then foldl greater (hd vs) (tl vs)
      else if func = ''sum'' then foldl (+) 0 vs
      else if func = ''count'' then d_of_int (int (length vs))
      else d_of_int (changes 0 (stamps_before ps be)))"

definition agg_funcs :: "string set" where
  "agg_funcs = {''avg'', ''min'', ''max'', ''sum'', ''count'', ''Dcount''}"

definition bucket_starts :: "int \<Rightarrow> int \<Rightarrow> int \<Rightarrow> int list" where
  "bucket_starts s e b = map (\<lambda>k. s + int k * b) [0..<nat ((e - s + b - 1) div b)]"

definition full_buckets :: "point list \<Rightarrow> int \<Rightarrow> int \<Rightarrow> int \<Rightarrow> int list" where
  "full_buckets ps s e b = filter (\<lambda>bs. bucket_points ps bs (bs + b) \<noteq> []) (bucket_starts s e b)"

definition bucket_line :: "string \<Rightarrow> point list \<Rightarrow> int \<Rightarrow> int \<Rightarrow> string" where
  "bucket_line func ps b bs =
     agg_line func bs (bs + b) (int (length (bucket_points ps bs (bs + b)))) (aggregate func ps bs (bs + b))"

definition agg_text :: "string \<Rightarrow> point list \<Rightarrow> int \<Rightarrow> int \<Rightarrow> int \<Rightarrow> string" where
  "agg_text func ps s e b =
     concat (map (bucket_line func ps b) (full_buckets ps s e b)) @
     ''('' @ show_int (int (length (full_buckets ps s e b))) @ '' buckets)'' @ newline"

lemma bucket_starts_empty: "e \<le> s \<Longrightarrow> 0 < b \<Longrightarrow> bucket_starts s e b = []"
  using zdiv_mono1 [of "e - s + b - 1" "b - 1" b] by (simp add: bucket_starts_def)

lemma bucket_starts_Cons:
  assumes "s < e" "0 < b"
  shows "bucket_starts s e b = s # bucket_starts (s + b) e b"
proof -
  have "(e - s + b - 1) div b = (e - s - 1) div b + 1"
    using assms(2) div_add_self2 [of b "e - s - 1"] by (simp add: algebra_simps)
  moreover have "0 \<le> (e - s - 1) div b" using assms by (simp add: pos_imp_zdiv_nonneg_iff)
  ultimately have "nat ((e - s + b - 1) div b) = Suc (nat ((e - (s + b) + b - 1) div b))"
    by (simp add: nat_add_distrib)
  then show ?thesis
    by (simp add: bucket_starts_def upt_conv_Cons map_Suc_upt [symmetric] comp_def algebra_simps del: upt_Suc)
qed

section \<open>The scan of a bucket\<close>

lemma scan_bucket_fold:
  "sorted (map (\<lambda>p. sint (fst p)) ps) \<Longrightarrow> scan_bucket bs be ps acc = fold scan_point (bucket_points ps bs be) acc"
proof (induction ps arbitrary: acc)
  case Nil
  then show ?case by (simp add: bucket_points_def)
next
  case (Cons p ps)
  show ?case
  proof (cases "sint (fst p) \<ge> be")
    case True
    with Cons.prems have "bucket_points (p # ps) bs be = []"
      by (auto simp: bucket_points_def filter_empty_conv)
    with True Cons show ?thesis by (auto simp: bucket_points_def)
  next
    case False
    with Cons show ?thesis by (auto simp: bucket_points_def)
  qed
qed

lemma scan_point_simps:
  "bcount (scan_point p acc) = bcount acc + 1" "bsum (scan_point p acc) = bsum acc + snd p"
  "prevTS (scan_point p acc) = sint (fst p)"
  "distinctCount (scan_point p acc) = distinctCount acc + (if sint (fst p) \<noteq> prevTS acc then 1 else 0)"
  "bcount acc > 0 \<Longrightarrow> minv (scan_point p acc) = lesser (minv acc) (snd p)"
  "bcount acc > 0 \<Longrightarrow> maxv (scan_point p acc) = greater (maxv acc) (snd p)"
  "bcount acc = 0 \<Longrightarrow> minv (scan_point p acc) = snd p"
  "bcount acc = 0 \<Longrightarrow> maxv (scan_point p acc) = snd p"
  by (auto simp: scan_point_def Let_def lesser_def greater_def)

lemma fold_scan_point:
  "bcount (fold scan_point ps acc) = bcount acc + int (length ps)"
  "bsum (fold scan_point ps acc) = foldl (+) (bsum acc) (map snd ps)"
  "prevTS (fold scan_point ps acc) = last (prevTS acc # map (\<lambda>p. sint (fst p)) ps)"
  "distinctCount (fold scan_point ps acc) =
     distinctCount acc + changes (prevTS acc) (map (\<lambda>p. sint (fst p)) ps)"
  by (induction ps arbitrary: acc) (auto simp: scan_point_simps(1-4))

lemma fold_scan_extreme:
  "bcount acc > 0 \<Longrightarrow> minv (fold scan_point ps acc) = foldl lesser (minv acc) (map snd ps) \<and>
     maxv (fold scan_point ps acc) = foldl greater (maxv acc) (map snd ps)"
proof (induction ps arbitrary: acc)
  case Nil
  then show ?case by simp
next
  case (Cons p ps)
  then have "bcount (scan_point p acc) > 0" by (simp add: scan_point_simps)
  from Cons.IH [OF this] Cons.prems show ?case by (simp add: scan_point_simps)
qed

lemma fold_scan_first:
  assumes "bcount acc = 0" "ps \<noteq> []"
  shows "minv (fold scan_point ps acc) = foldl lesser (snd (hd ps)) (map snd (tl ps))"
    and "maxv (fold scan_point ps acc) = foldl greater (snd (hd ps)) (map snd (tl ps))"
proof -
  obtain p qs where ps: "ps = p # qs" using assms(2) by (cases ps) auto
  have "bcount (scan_point p acc) > 0" using assms(1) by (simp add: scan_point_simps)
  from fold_scan_extreme [OF this, of qs] assms(1)
  show "minv (fold scan_point ps acc) = foldl lesser (snd (hd ps)) (map snd (tl ps))"
    "maxv (fold scan_point ps acc) = foldl greater (snd (hd ps)) (map snd (tl ps))"
    by (simp_all add: ps scan_point_simps)
qed

lemma changes_append: "changes x (xs @ ys) = changes x xs + changes (last (x # xs)) ys"
  by (induction xs arbitrary: x) auto

text \<open>Sorted timestamps before the end of a bucket are those before its start and its own.\<close>

lemma stamps_before_bucket:
  assumes "sorted (map (\<lambda>p. sint (fst p)) ps)" "bs \<le> be"
  shows "stamps_before ps be = stamps_before ps bs @ map (\<lambda>p. sint (fst p)) (bucket_points ps bs be)"
  using assms
proof (induction ps)
  case Nil
  then show ?case by (simp add: stamps_before_def bucket_points_def)
next
  case (Cons p ps)
  show ?case
  proof (cases "sint (fst p) < bs")
    case True
    with Cons show ?thesis by (simp add: stamps_before_def bucket_points_def)
  next
    case False
    with Cons.prems(1) have "stamps_before (p # ps) bs = []"
      by (auto simp: stamps_before_def filter_empty_conv)
    with False Cons show ?thesis by (auto simp: stamps_before_def bucket_points_def)
  qed
qed

section \<open>The loop over the buckets\<close>

text \<open>The state before the bucket that starts at \<open>bs\<close>.\<close>

definition agg_at :: "point list \<Rightarrow> int \<Rightarrow> string \<Rightarrow> int \<Rightarrow> int \<Rightarrow> agg_state" where
  "agg_at ps bs out cap n =
     \<lparr>out_text = out, out_cap = cap, buckets = n, agg_distinct = changes 0 (stamps_before ps bs),
      agg_prev = last (0 # stamps_before ps bs)\<rparr>"

lemma agg_line_length: "int (length (agg_line func bs be n v)) \<le> 127"
  using length_bounded [of 128] by (simp add: agg_line_def less_Suc_eq_le numeral_eq_Suc)

text \<open>What the scan leaves in its locals.\<close>

definition scanned :: "point list \<Rightarrow> int \<Rightarrow> int \<Rightarrow> bucket_acc" where
  "scanned ps bs be =
     scan_bucket bs be ps \<lparr>bcount = 0, bsum = 0, minv = 0, maxv = 0,
       distinctCount = changes 0 (stamps_before ps bs), prevTS = last (0 # stamps_before ps bs)\<rparr>"

lemma scanned_spec:
  assumes "sorted (map (\<lambda>p. sint (fst p)) ps)" "bs \<le> be"
  shows "bcount (scanned ps bs be) = int (length (bucket_points ps bs be))"
    and "distinctCount (scanned ps bs be) = changes 0 (stamps_before ps be)"
    and "prevTS (scanned ps bs be) = last (0 # stamps_before ps be)"
    and "func \<in> agg_funcs \<Longrightarrow> bucket_points ps bs be \<noteq> [] \<Longrightarrow>
      agg_result func (scanned ps bs be) = Some (aggregate func ps bs be)"
proof -
  show count: "bcount (scanned ps bs be) = int (length (bucket_points ps bs be))"
    by (simp add: scanned_def scan_bucket_fold [OF assms(1)] fold_scan_point)
  show distinct: "distinctCount (scanned ps bs be) = changes 0 (stamps_before ps be)"
    by (simp add: scanned_def scan_bucket_fold [OF assms(1)] fold_scan_point
        stamps_before_bucket [OF assms] changes_append)
  show "prevTS (scanned ps bs be) = last (0 # stamps_before ps be)"
    by (simp add: scanned_def scan_bucket_fold [OF assms(1)] fold_scan_point stamps_before_bucket [OF assms])
  assume func: "func \<in> agg_funcs" and ne: "bucket_points ps bs be \<noteq> []"
  have sum: "bsum (scanned ps bs be) = foldl (+) 0 (map snd (bucket_points ps bs be))"
    by (simp add: scanned_def scan_bucket_fold [OF assms(1)] fold_scan_point)
  have extreme: "minv (scanned ps bs be) = foldl lesser (hd (map snd (bucket_points ps bs be))) (tl (map snd (bucket_points ps bs be)))"
    "maxv (scanned ps bs be) = foldl greater (hd (map snd (bucket_points ps bs be))) (tl (map snd (bucket_points ps bs be)))"
    using ne by (simp_all add: scanned_def scan_bucket_fold [OF assms(1)] fold_scan_first hd_map map_tl)
  show "agg_result func (scanned ps bs be) = Some (aggregate func ps bs be)"
    using func unfolding agg_result_def aggregate_def Let_def
    by (auto simp: agg_funcs_def count distinct sum extreme average_def)
qed

lemma agg_bucket_empty:
  assumes "sorted (map (\<lambda>p. sint (fst p)) ps)" "bs \<le> be" "bucket_points ps bs be = []"
  shows "agg_bucket mem func ps bs be (agg_at ps bs out cap n) = Ret (Inr (agg_at ps be out cap n))"
  using scanned_spec(1-3) [OF assms(1,2)] assms(3)
  by (simp add: agg_bucket_def agg_at_def scanned_def Let_def)

lemma agg_bucket_full:
  assumes sorted: "sorted (map (\<lambda>p. sint (fst p)) ps)" "bs \<le> be" and ne: "bucket_points ps bs be \<noteq> []"
    and func: "func \<in> agg_funcs" and mem: "\<And>k. mem k"
    and room: "int (length out) + 64 \<le> cap" "cap \<le> int_max" "int (length out) \<le> 1016000000 - 127"
  defines "line \<equiv> agg_line func bs be (int (length (bucket_points ps bs be))) (aggregate func ps bs be)"
  shows "\<exists>cap'. agg_bucket mem func ps bs be (agg_at ps bs out cap n) =
      Ret (Inr (agg_at ps be (out @ line) cap' (n + 1))) \<and>
    int (length (out @ line)) + 64 \<le> cap' \<and> cap' \<le> int_max"
proof -
  define cap' where "cap' = (if int (length out) + int (length line) + 64 > cap
    then (int (length out) + int (length line) + 64) * 2 else cap)"
  have line: "int (length line) \<le> 127" unfolding line_def by (rule agg_line_length)
  then have cap': "int (length out) + int (length line) + 64 \<le> cap'" "cap' \<le> int_max"
    using room by (auto simp: cap'_def int_max_def)
  note spec = scanned_spec(1-3) [OF sorted] scanned_spec(4) [OF sorted func ne]
  have acc: "scan_bucket bs be ps \<lparr>bcount = 0, bsum = 0, minv = 0, maxv = 0,
      distinctCount = agg_distinct (agg_at ps bs out cap n), prevTS = agg_prev (agg_at ps bs out cap n)\<rparr> =
      scanned ps bs be" by (simp only: scanned_def agg_at_def agg_state.simps)
  have some: "(int (length (bucket_points ps bs be)) = 0) = False" using ne by simp
  have fits: "(int (length out) + int (length line) + 64 > int_max \<or> cap' > int_max) = False"
    "(int (length out) + int (length line) + 1 > cap') = False" using cap' by auto
  have "out_cap (agg_at ps bs out cap n\<lparr>agg_distinct := x, agg_prev := y\<rparr>) = cap"
    "out_text (agg_at ps bs out cap n\<lparr>agg_distinct := x, agg_prev := y\<rparr>) = out" for x y
    by (simp_all add: agg_at_def)
  then have "agg_bucket mem func ps bs be (agg_at ps bs out cap n) = Ret (Inr (agg_at ps be (out @ line) cap' (n + 1)))"
    unfolding agg_bucket_def acc Let_def spec some if_False option.case line_def [symmetric]
    by (simp only: cap'_def [symmetric] fits if_False mem not_True_eq_False simp_thms)
      (simp add: agg_at_def)
  with cap' show ?thesis by auto
qed

definition points_from :: "point list \<Rightarrow> int \<Rightarrow> nat" where
  "points_from ps t = length (filter (\<lambda>p. t \<le> sint (fst p)) ps)"

lemma points_from_bucket:
  assumes "bs \<le> be"
  shows "points_from ps be + length (bucket_points ps bs be) \<le> points_from ps bs"
  using assms by (induction ps) (auto simp: points_from_def bucket_points_def)

lemma full_buckets_Cons:
  assumes "bs < e" "0 < b"
  shows "full_buckets ps bs e b =
    (if bucket_points ps bs (bs + b) = [] then full_buckets ps (bs + b) e b else bs # full_buckets ps (bs + b) e b)"
  by (simp add: full_buckets_def bucket_starts_Cons [OF assms])

lemma agg_loop_text:
  assumes sorted: "sorted (map (\<lambda>p. sint (fst p)) ps)" and func: "func \<in> agg_funcs" and mem: "\<And>k. mem k"
    and b: "0 < b" "e + b \<le> long_max"
  defines "out_of \<equiv> \<lambda>bs. concat (map (bucket_line func ps b) (full_buckets ps bs e b))"
  assumes "int (length out) + 64 \<le> cap" "cap \<le> int_max" "int (length out) + 127 * int (points_from ps bs) \<le> 1016000000"
  shows "\<exists>bs' cap'. agg_loop mem func ps e b bs (agg_at ps bs out cap n) =
      Ret (Inr (agg_at ps bs' (out @ out_of bs) cap' (n + int (length (full_buckets ps bs e b))))) \<and>
    int (length (out @ out_of bs)) + 64 \<le> cap' \<and> cap' \<le> int_max"
  using assms(7-)
proof (induction "nat (e - bs)" arbitrary: bs out cap n rule: less_induct)
  case less
  show ?case
  proof (cases "bs < e")
    case False
    then have "full_buckets ps bs e b = []" by (simp add: full_buckets_def bucket_starts_empty b(1))
    with less.prems False show ?thesis by (auto simp: agg_loop.simps out_of_def)
  next
    case True
    have smaller: "nat (e - (bs + b)) < nat (e - bs)" using True b(1) by simp
    have le: "bs \<le> bs + b" using b(1) by simp
    have ok: "\<not> bs + b > long_max" using True b(2) by simp
    note buckets = full_buckets_Cons [OF True b(1), of ps]
    note step = agg_loop.simps [of mem func ps e b bs]
    show ?thesis
    proof (cases "bucket_points ps bs (bs + b) = []")
      case empty: True
      have "int (length out) + 127 * int (points_from ps (bs + b)) \<le> 1016000000"
        using points_from_bucket [OF le, of ps] less.prems(3) by linarith
      from less.hyps [OF smaller less.prems(1,2) this, of n] show ?thesis
        using True b(1) ok by (simp add: step agg_bucket_empty [OF sorted le empty] buckets empty out_of_def)
    next
      case full: False
      then have "1 \<le> length (bucket_points ps bs (bs + b))" by (simp add: Suc_le_eq)
      then have more: "points_from ps (bs + b) + 1 \<le> points_from ps bs"
        using points_from_bucket [OF le, of ps] by linarith
      let ?line = "bucket_line func ps b bs"
      have "int (length out) \<le> 1016000000 - 127" using less.prems(3) more by linarith
      from agg_bucket_full [where mem = mem, OF sorted le full func mem less.prems(1,2) this, of n] obtain cap1 where
        bucket: "agg_bucket mem func ps bs (bs + b) (agg_at ps bs out cap n) =
          Ret (Inr (agg_at ps (bs + b) (out @ ?line) cap1 (n + 1)))"
        and cap1: "int (length (out @ ?line)) + 64 \<le> cap1" "cap1 \<le> int_max"
        unfolding bucket_line_def by blast
      have "int (length ?line) \<le> 127" unfolding bucket_line_def by (rule agg_line_length)
      then have "int (length (out @ ?line)) + 127 * int (points_from ps (bs + b)) \<le> 1016000000"
        using less.prems(3) more by simp
      from less.hyps [OF smaller cap1 this, of "n + 1"] show ?thesis
        using True b(1) ok full by (simp add: step bucket buckets out_of_def add.assoc)
    qed
  qed
qed

lemma full_buckets_count: "0 < b \<Longrightarrow> length (full_buckets ps s e b) \<le> points_from ps s"
proof (induction "nat (e - s)" arbitrary: s rule: less_induct)
  case less
  show ?case
  proof (cases "s < e")
    case False
    with less.prems show ?thesis by (simp add: full_buckets_def bucket_starts_empty)
  next
    case True
    have "nat (e - (s + b)) < nat (e - s)" "s \<le> s + b" using True less.prems by simp_all
    with less.hyps [of "s + b"] less.prems points_from_bucket [of s "s + b" ps] show ?thesis
      by (cases "bucket_points ps s (s + b)") (auto simp: full_buckets_Cons [OF True less.prems])
  qed
qed

lemma show_int_length_small: "0 \<le> n \<Longrightarrow> n \<le> long_max \<Longrightarrow> length (show_int n) < 32"
  using show_long_length [of "of_int n :: long"]
  by (simp add: sint_sbintrunc' signed_take_bit_int_eq_self long_max_def)

lemma agg_points_reference:
  assumes func: "func \<in> agg_funcs" and mem: "\<And>k. mem k" and b: "0 < b" "sint e + b \<le> long_max"
    and len: "length ps \<le> 8000000" and from_s: "\<forall>p \<in> set ps. sint s \<le> sint (fst p)"
  shows "agg_points mem ps s e b func = Ret (Some (agg_text func (sort_points ps) (sint s) (sint e) b))"
proof -
  let ?ps = "sort_points ps" and ?full = "full_buckets (sort_points ps) (sint s) (sint e) b"
  let ?out = "concat (map (bucket_line func ?ps b) ?full)"
  have "length ?ps = length ps" "set ?ps = set ps" by (simp_all add: sort_points_sort_key)
  then have few: "points_from ?ps (sint s) \<le> 8000000"
    using len length_filter_le [of "\<lambda>p. sint s \<le> sint (fst p)" ?ps] by (simp add: points_from_def)
  have "stamps_before ?ps (sint s) = []"
    using from_s \<open>set ?ps = set ps\<close> by (force simp: stamps_before_def filter_empty_conv)
  then have init: "\<lparr>out_text = [], out_cap = 2048, buckets = 0, agg_distinct = 0, agg_prev = 0\<rparr> =
      agg_at ?ps (sint s) [] 2048 0" by (simp add: agg_at_def)
  have start: "int (length []) + 64 \<le> (2048 :: int)" "(2048 :: int) \<le> int_max"
    "int (length []) + 127 * int (points_from ?ps (sint s)) \<le> 1016000000"
    using few by (simp_all add: int_max_def)
  from agg_loop_text [where mem = mem, OF sort_points_sorted func mem b start, of 0] obtain bs' cap' where
    loop: "agg_loop mem func ?ps (sint e) b (sint s) (agg_at ?ps (sint s) [] 2048 0) =
      Ret (Inr (agg_at ?ps bs' ?out cap' (int (length ?full))))"
    and cap': "int (length ?out) + 64 \<le> cap'" "cap' \<le> int_max" by auto
  let ?footer = "''('' @ show_int (int (length ?full)) @ '' buckets)'' @ newline"
  have "int (length ?full) \<le> long_max"
    using full_buckets_count [OF b(1), of ?ps "sint s" "sint e"] few by (simp add: long_max_def)
  then have "length ?footer < 64"
    using show_int_length_small [of "int (length ?full)"] by (simp add: newline_def)
  then have footer: "bounded 64 ?footer = ?footer" "int (length ?footer) \<le> 63" by simp_all
  have fits: "(int (length ?out) + int (length ?footer) + 1 > cap') = False"
    "(int (length ?out) + int (length ?footer) + 1 > int_max) = False"
    using cap' footer(2) by auto
  have final: "out_cap (agg_at ?ps bs' ?out cap' (int (length ?full))) = cap'"
    "out_text (agg_at ?ps bs' ?out cap' (int (length ?full))) = ?out"
    "buckets (agg_at ?ps bs' ?out cap' (int (length ?full))) = int (length ?full)" by (simp_all add: agg_at_def)
  show ?thesis
    unfolding agg_points_def Let_def init loop
    by (simp only: c_result.case sum.case final footer(1) fits if_False mem not_True_eq_False simp_thms agg_text_def append_assoc)
qed

section \<open>Termination of the bucket loop\<close>

text \<open>The loop as it is written, without a condition on \<open>bucketSeconds\<close>, for a number of iterations.\<close>

primrec agg_fuel ::
    "nat \<Rightarrow> allocator \<Rightarrow> string \<Rightarrow> point list \<Rightarrow> int \<Rightarrow> int \<Rightarrow> int \<Rightarrow> agg_state \<Rightarrow>
     (string option + agg_state) c_result option" where
  "agg_fuel 0 mem func ps e bucketSeconds bstart st = None"
| "agg_fuel (Suc n) mem func ps e bucketSeconds bstart st =
     (if bstart < e then
        if bstart + bucketSeconds > long_max then Some (UB SignedOverflow)
        else
          (case agg_bucket mem func ps bstart (bstart + bucketSeconds) st of
             UB u \<Rightarrow> Some (UB u)
           | Ret (Inl out) \<Rightarrow> Some (Ret (Inl out))
           | Ret (Inr st) \<Rightarrow> agg_fuel n mem func ps e bucketSeconds (bstart + bucketSeconds) st)
      else Some (Ret (Inr st)))"



section \<open>Collecting the points\<close>

text \<open>The capacity is that of the allocated array, or nothing was allocated yet.\<close>

definition array_ok :: "point_array \<Rightarrow> bool" where
  "array_ok arr \<longleftrightarrow> (pcap arr = 0 \<and> pts arr = []) \<or>
     (pcap arr = palloc arr \<and> 0 < palloc arr \<and> length (pts arr) \<le> pcap arr)"

text \<open>An append to a sound array, with its error code or with an overflow of the capacity.\<close>

definition appended :: "point_array \<Rightarrow> point list \<Rightarrow> (int \<times> point_array) c_result \<Rightarrow> bool" where
  "appended arr ps r \<longleftrightarrow> r = UB SignedOverflow \<or> (\<exists>arr'. r = Ret (-1, arr')) \<or>
     (\<exists>arr'. r = Ret (0, arr') \<and> array_ok arr' \<and> pts arr' = pts arr @ ps)"

lemma append_point_appended: "array_ok arr \<Longrightarrow> appended arr [p] (append_point mem p arr)"
  by (auto simp: appended_def append_point_def store_point_def array_ok_def Let_def)

lemma append_point_Ret:
  assumes "array_ok arr" "\<And>k. mem k" "length (pts arr) < 2 ^ 30"
  shows "\<exists>arr'. append_point mem p arr = Ret (0, arr') \<and> array_ok arr' \<and> pts arr' = pts arr @ [p]"
  using assms by (auto simp: append_point_def store_point_def array_ok_def int_max_def Let_def)

lemma collect_points_appended:
  "array_ok arr \<Longrightarrow> appended arr (filter (in_range s e) ps) (collect_points mem s e ps arr)"
proof (induction ps arbitrary: arr)
  case Nil
  then show ?case by (simp add: appended_def)
next
  case (Cons p ps)
  show ?case
  proof (cases "in_range s e p")
    case False
    with Cons show ?thesis by simp
  next
    case True
    consider "append_point mem p arr = UB SignedOverflow" | arr' where "append_point mem p arr = Ret (-1, arr')"
      | arr' where "append_point mem p arr = Ret (0, arr')" "array_ok arr'" "pts arr' = pts arr @ [p]"
      using append_point_appended [OF Cons.prems, of p mem] by (auto simp: appended_def)
    then show ?thesis
    proof cases
      case 1
      then show ?thesis using True by (simp add: appended_def)
    next
      case 2
      then show ?thesis using True by (simp add: appended_def)
    next
      case (3 arr')
      then show ?thesis using True Cons.IH [OF 3(2)] by (simp add: appended_def)
    qed
  qed
qed

lemma collect_points_Ret:
  "array_ok arr \<Longrightarrow> (\<And>k. mem k) \<Longrightarrow> length (pts arr) + length ps \<le> 2 ^ 30 \<Longrightarrow>
     \<exists>arr'. collect_points mem s e ps arr = Ret (0, arr') \<and> array_ok arr' \<and>
       pts arr' = pts arr @ filter (in_range s e) ps"
proof (induction ps arbitrary: arr)
  case Nil
  then show ?case by simp
next
  case (Cons p ps)
  show ?case
  proof (cases "in_range s e p")
    case False
    with Cons show ?thesis by simp
  next
    case True
    have "length (pts arr) < 2 ^ 30" using Cons.prems(3) by simp
    from append_point_Ret [where mem = mem, OF Cons.prems(1,2) this, of p] obtain arr1 where
      arr1: "append_point mem p arr = Ret (0, arr1)" "array_ok arr1" "pts arr1 = pts arr @ [p]" by blast
    have "length (pts arr1) + length ps \<le> 2 ^ 30" using Cons.prems(3) arr1(3) by simp
    from Cons.IH [OF arr1(2) Cons.prems(2) this] arr1 True show ?thesis by auto
  qed
qed

text \<open>The points of the chunks of the registry that meet the range.\<close>

definition meets :: "long \<Rightarrow> long \<Rightarrow> ChunkMetadata \<Rightarrow> bool" where
  "meets s e cm \<longleftrightarrow> sint (start_ts cm) < sint e \<and> sint (end_ts cm) \<ge> sint s"

definition raw_points :: "allocator \<Rightarrow> disk \<Rightarrow> long \<Rightarrow> long \<Rightarrow> ChunkMetadata list \<Rightarrow> point list" where
  "raw_points mem d s e cms = concat (map (\<lambda>cm. chunk_points mem d (filename cm)) (filter (meets s e) cms))"

lemma raw_points_Cons:
  "raw_points mem d s e (cm # cms) =
     (if meets s e cm then chunk_points mem d (filename cm) else []) @ raw_points mem d s e cms"
  by (simp add: raw_points_def)

lemma collect_raw_safe:
  "array_ok arr \<Longrightarrow> collect_raw mem d s e cms arr = UB SignedOverflow \<or>
     (\<exists>arr'. collect_raw mem d s e cms arr = Ret (True, arr')) \<or>
     (\<exists>arr'. collect_raw mem d s e cms arr = Ret (False, arr') \<and> array_ok arr')"
proof (induction cms arbitrary: arr)
  case Nil
  then show ?case by simp
next
  case (Cons cm cms)
  show ?case
  proof (cases "meets s e cm \<and> chunkread mem (filename cm) d \<noteq> None")
    case False
    then consider "\<not> meets s e cm" | "meets s e cm" "chunkread mem (filename cm) d = None" by blast
    then show ?thesis
    proof cases
      case 1
      then have "collect_raw mem d s e (cm # cms) arr = collect_raw mem d s e cms arr" by (auto simp: meets_def)
      with Cons show ?thesis by simp
    next
      case 2
      then show ?thesis by (simp add: meets_def collect_points_from_chunk_def)
    qed
  next
    case True
    then obtain h payload where hp: "chunkread mem (filename cm) d = Some (h, payload)" by force
    note one = collect_points_appended [OF Cons.prems, of s e "decode_points h payload" mem]
    consider "collect_points mem s e (decode_points h payload) arr = UB SignedOverflow"
      | arr' where "collect_points mem s e (decode_points h payload) arr = Ret (-1, arr')"
      | arr' where "collect_points mem s e (decode_points h payload) arr = Ret (0, arr')" "array_ok arr'"
      using one by (auto simp: appended_def)
    then show ?thesis
    proof cases
      case 1
      then show ?thesis using True hp by (simp add: meets_def collect_points_from_chunk_def)
    next
      case 2
      then show ?thesis using True hp by (simp add: meets_def collect_points_from_chunk_def)
    next
      case (3 arr')
      then show ?thesis using True hp Cons.IH [OF 3(2)] by (simp add: meets_def collect_points_from_chunk_def)
    qed
  qed
qed

lemma collect_raw_Ret:
  assumes "\<And>k. mem k" and "\<forall>cm \<in> set cms. meets s e cm \<longrightarrow> chunkread mem (filename cm) d \<noteq> None"
    and "array_ok arr" "length (pts arr) + length (raw_points mem d s e cms) \<le> 2 ^ 30"
  shows "\<exists>arr'. collect_raw mem d s e cms arr = Ret (False, arr') \<and> array_ok arr' \<and>
    pts arr' = pts arr @ filter (in_range s e) (raw_points mem d s e cms)"
  using assms(2-)
proof (induction cms arbitrary: arr)
  case Nil
  then show ?case by (simp add: raw_points_def)
next
  case (Cons cm cms)
  show ?case
  proof (cases "meets s e cm")
    case False
    with Cons show ?thesis by (auto simp: raw_points_Cons meets_def)
  next
    case True
    with Cons.prems(1) obtain h payload where hp: "chunkread mem (filename cm) d = Some (h, payload)" by force
    then have points: "chunk_points mem d (filename cm) = decode_points h payload" by (simp add: chunk_points_def)
    have "length (pts arr) + length (decode_points h payload) \<le> 2 ^ 30"
      using Cons.prems(3) True by (simp add: raw_points_Cons points)
    from collect_points_Ret [where mem = mem, OF Cons.prems(2) assms(1) this, of s e] obtain arr1 where
      arr1: "collect_points mem s e (decode_points h payload) arr = Ret (0, arr1)" "array_ok arr1"
        "pts arr1 = pts arr @ filter (in_range s e) (decode_points h payload)" by blast
    have "length (pts arr1) \<le> length (pts arr) + length (decode_points h payload)" by (simp add: arr1(3))
    then have "length (pts arr1) + length (raw_points mem d s e cms) \<le> 2 ^ 30"
      using Cons.prems(3) True by (simp add: raw_points_Cons points)
    moreover have "\<forall>cm \<in> set cms. meets s e cm \<longrightarrow> chunkread mem (filename cm) d \<noteq> None"
      using Cons.prems(1) by simp
    ultimately obtain arr' where "collect_raw mem d s e cms arr1 = Ret (False, arr')" "array_ok arr'"
      "pts arr' = pts arr1 @ filter (in_range s e) (raw_points mem d s e cms)"
      using Cons.IH [OF _ arr1(2)] by blast
    with True hp arr1 show ?thesis
      by (simp add: meets_def collect_points_from_chunk_def raw_points_Cons points)
  qed
qed

section \<open>Memory safety of an aggregation\<close>

lemma agg_bucket_safe:
  assumes "int (length (out_text st)) + 64 \<le> out_cap st"
  shows "agg_bucket mem func ps bs be st = UB SignedOverflow \<or>
    (\<exists>out. agg_bucket mem func ps bs be st = Ret (Inl out)) \<or>
    (\<exists>st'. agg_bucket mem func ps bs be st = Ret (Inr st') \<and> int (length (out_text st')) + 64 \<le> out_cap st')"
  using assms by (auto simp: agg_bucket_def Let_def split: option.split)

lemma agg_loop_safe:
  "int (length (out_text st)) + 64 \<le> out_cap st \<Longrightarrow>
    agg_loop mem func ps e b bs st = UB SignedOverflow \<or>
    (\<exists>out. agg_loop mem func ps e b bs st = Ret (Inl out)) \<or>
    (\<exists>st'. agg_loop mem func ps e b bs st = Ret (Inr st') \<and> int (length (out_text st')) + 64 \<le> out_cap st')"
proof (induction "nat (e - bs)" arbitrary: bs st rule: less_induct)
  case less
  note step = agg_loop.simps [of mem func ps e b bs st]
  show ?case
  proof (cases "bs < e \<and> 0 < b \<and> \<not> bs + b > long_max")
    case False
    with less.prems show ?thesis by (auto simp: step)
  next
    case True
    then have smaller: "nat (e - (bs + b)) < nat (e - bs)" by simp
    consider "agg_bucket mem func ps bs (bs + b) st = UB SignedOverflow"
      | out where "agg_bucket mem func ps bs (bs + b) st = Ret (Inl out)"
      | st' where "agg_bucket mem func ps bs (bs + b) st = Ret (Inr st')" "int (length (out_text st')) + 64 \<le> out_cap st'"
      using agg_bucket_safe [OF less.prems, of mem func ps bs "bs + b"] by blast
    then show ?thesis
    proof cases
      case (3 st')
      with less.hyps [OF smaller 3(2)] True show ?thesis by (simp add: step)
    qed (use True in \<open>simp_all add: step\<close>)
  qed
qed

lemma agg_points_safe: "agg_points mem ps s e b func = UB u \<Longrightarrow> u = SignedOverflow"
proof -
  assume ub: "agg_points mem ps s e b func = UB u"
  let ?st = "\<lparr>out_text = [], out_cap = 2048, buckets = 0, agg_distinct = 0, agg_prev = 0\<rparr>"
  let ?loop = "agg_loop mem func (sort_points ps) (sint e) b (sint s) ?st"
  have start: "int (length (out_text ?st)) + 64 \<le> out_cap ?st" by simp
  consider "?loop = UB SignedOverflow" | out where "?loop = Ret (Inl out)"
    | st' where "?loop = Ret (Inr st')" "int (length (out_text st')) + 64 \<le> out_cap st'"
    using agg_loop_safe [OF start, of mem func "sort_points ps" "sint e" b "sint s"] by blast
  then show "u = SignedOverflow"
  proof cases
    case (3 st')
    let ?footer = "bounded 64 (''('' @ show_int (buckets st') @ '' buckets)'' @ newline)"
    have "length ?footer < 64" by (rule length_bounded) simp
    with ub 3 show ?thesis by (auto simp: agg_points_def Let_def split: if_splits)
  qed (use ub in \<open>auto simp: agg_points_def Let_def split: if_splits\<close>)
qed

lemma Head_AGG_found:
  assumes "registry_find m (registry eng) = Some i" "mhead (registry eng ! i) = Some h" "0 < b" "sint s < sint e"
  shows "Head_AGG mem ls g_dataDir m s e b func eng =
      (case collect_disk mem ls g_dataDir m s e b (registry eng ! i) (store eng) of
         UB u \<Rightarrow> UB u
       | Ret (True, arr) \<Rightarrow> Ret (malloc_text mem 64 (''ERR disk read'' @ newline))
       | Ret (False, arr) \<Rightarrow>
           (case collect_points mem s e (head_points h) arr of
              UB u \<Rightarrow> UB u
            | Ret (res, arr) \<Rightarrow>
                if res \<noteq> 0 then Ret (malloc_text mem 64 (''ERR no memory'' @ newline))
                else if pts arr = [] then Ret (malloc_text mem 32 (''(0 buckets)'' @ newline))
                else agg_points mem (sort_points (pts arr)) s e b func))"
proof (cases "collect_disk mem ls g_dataDir m s e b (registry eng ! i) (store eng)")
  case (UB u)
  with assms show ?thesis by (simp add: Head_AGG_def)
next
  case (Ret x)
  with assms show ?thesis
    by (cases x; cases "fst x") (simp_all add: Head_AGG_def collect_points_from_head_def)
qed



section \<open>What an aggregation answers\<close>

text \<open>The answer for the points that were collected, in the order of their timestamps.\<close>

definition agg_answer :: "string \<Rightarrow> long \<Rightarrow> long \<Rightarrow> int \<Rightarrow> point list \<Rightarrow> string" where
  "agg_answer func s e b ps =
     agg_text func (sort_key (\<lambda>p. sint (fst p)) (filter (in_range s e) ps)) (sint s) (sint e) b"

lemma show_int_0: "show_int 0 = ''0''"
  by code_simp

lemma agg_answer_none: "filter (in_range s e) ps = [] \<Longrightarrow> agg_answer func s e b ps = ''(0 buckets)'' @ newline"
  by (simp add: agg_answer_def agg_text_def full_buckets_def bucket_points_def show_int_0)

lemma Head_AGG_answer:
  assumes find: "registry_find m (registry eng) = Some i" "mhead (registry eng ! i) = Some h"
    and b: "0 < b" "sint s < sint e" "sint e + b \<le> long_max"
    and func: "func \<in> agg_funcs" and mem: "\<And>k. mem k"
    and disk: "collect_disk mem ls g_dataDir m s e b (registry eng ! i) (store eng) = Ret (False, arr)"
    and arr: "array_ok arr" "pts arr = filter (in_range s e) ps" "length ps + length (head_points h) \<le> 8000000"
  shows "Head_AGG mem ls g_dataDir m s e b func eng = Ret (Some (agg_answer func s e b (ps @ head_points h)))"
proof -
  have "length (pts arr) \<le> length ps" by (simp add: arr(2))
  with arr(3) have "length (pts arr) + length (head_points h) \<le> 2 ^ 30" by simp
  from collect_points_Ret [where mem = mem, OF arr(1) mem this, of s e] obtain arr' where
    head: "collect_points mem s e (head_points h) arr = Ret (0, arr')"
    and pts: "pts arr' = filter (in_range s e) (ps @ head_points h)" by (auto simp: arr(2))
  note agg = Head_AGG_found [OF find b(1,2), of mem ls g_dataDir func]
  show ?thesis
  proof (cases "pts arr' = []")
    case True
    then have "agg_answer func s e b (ps @ head_points h) = ''(0 buckets)'' @ newline"
      using pts by (intro agg_answer_none) simp
    then show ?thesis by (simp add: agg disk head True malloc_text_def mem newline_def)
  next
    case False
    have few: "length (sort_points (pts arr')) \<le> 8000000"
      using arr(3) length_filter_le [of "in_range s e" "ps @ head_points h"]
      by (simp add: pts sort_points_sort_key)
    have "\<forall>p \<in> set (sort_points (pts arr')). sint s \<le> sint (fst p)"
      by (auto simp: pts sort_points_sort_key in_range_def)
    from agg_points_reference [where mem = mem, OF func mem b(1,3) few this]
    have "agg_points mem (sort_points (pts arr')) s e b func = Ret (Some (agg_answer func s e b (ps @ head_points h)))"
      by (simp add: sort_points_id agg_answer_def pts sort_points_sort_key [symmetric])
    with False show ?thesis by (simp add: agg disk head)
  qed
qed

lemma aggregate_raw:
  assumes "registry_find m (registry eng) = Some i" and "mhead (registry eng ! i) = Some h"
    and "0 < b" "sint s < sint e" "sint e + b \<le> long_max"
    and "func \<in> agg_funcs" and "\<And>k. mem k"
    and "use_coarse g_dataDir m s e b (store eng) = Ret False"
    and "\<forall>cm \<in> set (live_chunks (registry eng ! i)). meets s e cm \<longrightarrow> chunkread mem (filename cm) (store eng) \<noteq> None"
    and "length (raw_points mem (store eng) s e (live_chunks (registry eng ! i))) + length (head_points h) \<le> 8000000"
  shows "Head_AGG mem ls g_dataDir m s e b func eng =
    Ret (Some (agg_answer func s e b
      (raw_points mem (store eng) s e (live_chunks (registry eng ! i)) @ head_points h)))"
proof -
  let ?cms = "live_chunks (registry eng ! i)"
  have "array_ok no_points" "length (pts no_points) + length (raw_points mem (store eng) s e ?cms) \<le> 2 ^ 30"
    using assms(10) by (simp_all add: array_ok_def no_points_def)
  from collect_raw_Ret [where mem = mem, OF assms(7,9) this] obtain arr where
    raw: "collect_raw mem (store eng) s e ?cms no_points = Ret (False, arr)" "array_ok arr"
    "pts arr = filter (in_range s e) (raw_points mem (store eng) s e ?cms)" by (auto simp: no_points_def)
  have "collect_disk mem ls g_dataDir m s e b (registry eng ! i) (store eng) = Ret (False, arr)"
    by (simp add: collect_disk_def assms(8) raw(1))
  from Head_AGG_answer [where mem = mem, OF assms(1-7) this raw(2,3) assms(10)] show ?thesis .
qed

text \<open>C7: over the chunks of the registry an aggregation answers what its definition promises: the
  points of the half-open range, from the chunks that meet it and from the head block, sorted by
  time, cut into buckets from the start of the range, and for every bucket that has points a line
  with its bounds and the average, minimum, maximum, sum or number of its values, then the number
  of such buckets. Dcount answers the changes of the timestamp from the start of the range to the
  end of the bucket: it goes on counting from bucket to bucket. This needs the chunk files that
  meet the range to be readable and the end of the last bucket to fit a long.\<close>

theorem Head_AGG_reference:
  assumes "registry_find m (registry eng) = Some i" and "mhead (registry eng ! i) = Some h"
    and "0 < b" "sint s < sint e" "sint e + b \<le> long_max"
    and "func \<in> agg_funcs" and "\<And>k. mem k"
    and "use_coarse g_dataDir m s e b (store eng) = Ret False"
    and "\<forall>cm \<in> set (live_chunks (registry eng ! i)). meets s e cm \<longrightarrow> chunkread mem (filename cm) (store eng) \<noteq> None"
    and "length (raw_points mem (store eng) s e (live_chunks (registry eng ! i))) + length (head_points h) \<le> 8000000"
  shows "Head_AGG mem ls g_dataDir m s e b func eng =
    Ret (Some (agg_answer func s e b
      (raw_points mem (store eng) s e (live_chunks (registry eng ! i)) @ head_points h)))"
  using assms by (rule aggregate_raw)

theorem Head_AGG_reference_witness:
  "Head_AGG (\<lambda>_. True) (\<lambda>_ _. None) [] ''cpu'' 100 160 60 ''avg'' sample_engine =
     Ret (Some (''100-160 25.750000'' @ newline @ ''(1 buckets)'' @ newline))"
proof -
  let ?h = "\<lparr>timestamps = [100, 110], hvalues = [CDouble 0x4049000000000000, CDouble 0x3FF8000000000000],
    hsize = 2, lastTimestamp = 110\<rparr>"
  have find: "registry_find ''cpu'' (registry sample_engine) = Some 0"
    and head: "mhead (registry sample_engine ! 0) = Some ?h"
    and live: "live_chunks (registry sample_engine ! 0) = []"
    by (simp_all add: sample_engine_def live_chunks_def)
  have range: "(0 :: int) < 60" "sint (100 :: long) < sint (160 :: long)" "sint (160 :: long) + 60 \<le> long_max"
    by (simp_all add: long_max_def)
  have avg: "''avg'' \<in> agg_funcs" by (simp add: agg_funcs_def)
  have raw: "use_coarse [] ''cpu'' 100 160 60 (store sample_engine) = Ret False" by (simp add: use_coarse_def)
  have points: "raw_points (\<lambda>_. True) (store sample_engine) 100 160 [] @ head_points ?h =
      [(100, CDouble 0x4049000000000000), (110, CDouble 0x3FF8000000000000)]"
    by (simp add: raw_points_def head_points_def)
  have small: "length (raw_points (\<lambda>_. True) (store sample_engine) 100 160 []) + length (head_points ?h) \<le> 8000000"
    by (simp add: raw_points_def head_points_def)
  have answer: "agg_answer ''avg'' 100 160 60 [(100, CDouble 0x4049000000000000), (110, CDouble 0x3FF8000000000000)] =
      ''100-160 25.750000'' @ newline @ ''(1 buckets)'' @ newline" by code_simp
  have "\<forall>cm \<in> set (live_chunks (registry sample_engine ! 0)). meets 100 160 cm \<longrightarrow>
      chunkread (\<lambda>_. True) (filename cm) (store sample_engine) \<noteq> None" by (simp add: live)
  from Head_AGG_reference [OF find head range avg _ raw this] small show ?thesis
    unfolding live points answer by simp
qed

text \<open>The points of the coarse files in a directory; a file that is no chunk has none.\<close>

definition coarse_file_points :: "allocator \<Rightarrow> disk \<Rightarrow> string \<Rightarrow> string list \<Rightarrow> point list" where
  "coarse_file_points mem d dir names =
     concat (map (\<lambda>name. chunk_points mem d (bounded 768 (dir @ ''/'' @ name)))
       (filter (\<lambda>name. strstr name ''.chunk'') names))"

lemma coarse_file_points_Cons:
  "coarse_file_points mem d dir (name # names) =
     (if strstr name ''.chunk'' then chunk_points mem d (bounded 768 (dir @ ''/'' @ name)) else []) @
     coarse_file_points mem d dir names"
  by (simp add: coarse_file_points_def)

lemma collect_coarse_Ret:
  "(\<And>k. mem k) \<Longrightarrow> array_ok arr \<Longrightarrow> length (pts arr) + length (coarse_file_points mem d dir names) \<le> 2 ^ 30 \<Longrightarrow>
     \<exists>arr'. collect_coarse mem d dir s e names arr = Ret arr' \<and> array_ok arr' \<and>
       pts arr' = pts arr @ filter (in_range s e) (coarse_file_points mem d dir names)"
proof (induction names arbitrary: arr)
  case Nil
  then show ?case by (simp add: coarse_file_points_def)
next
  case (Cons name names)
  let ?path = "bounded 768 (dir @ ''/'' @ name)"
  consider "\<not> strstr name ''.chunk''" | "strstr name ''.chunk''" "chunkread mem ?path d = None"
    | h payload where "strstr name ''.chunk''" "chunkread mem ?path d = Some (h, payload)" by fastforce
  then show ?case
  proof cases
    case 1
    with Cons show ?thesis by (simp add: coarse_file_points_Cons)
  next
    case 2
    then have same: "coarse_file_points mem d dir (name # names) = coarse_file_points mem d dir names"
      "collect_coarse mem d dir s e (name # names) arr = collect_coarse mem d dir s e names arr"
      by (simp_all add: coarse_file_points_Cons collect_points_from_chunk_def chunk_points_def)
    from Cons.IH [OF Cons.prems(1,2) Cons.prems(3) [unfolded same]] show ?thesis unfolding same .
  next
    case (3 h payload)
    then have points: "chunk_points mem d ?path = decode_points h payload" by (simp add: chunk_points_def)
    have "length (pts arr) + length (decode_points h payload) \<le> 2 ^ 30"
      using Cons.prems(3) 3(1) points by (simp add: coarse_file_points_Cons)
    from collect_points_Ret [where mem = mem, OF Cons.prems(2,1) this, of s e] obtain arr1 where
      arr1: "collect_points mem s e (decode_points h payload) arr = Ret (0, arr1)" "array_ok arr1"
        "pts arr1 = pts arr @ filter (in_range s e) (decode_points h payload)" by blast
    have "length (pts arr1) \<le> length (pts arr) + length (decode_points h payload)" by (simp add: arr1(3))
    then have "length (pts arr1) + length (coarse_file_points mem d dir names) \<le> 2 ^ 30"
      using Cons.prems(3) 3(1) points by (simp add: coarse_file_points_Cons)
    from Cons.IH [OF Cons.prems(1) arr1(2) this] 3 arr1 points show ?thesis
      by (auto simp: coarse_file_points_Cons collect_points_from_chunk_def)
  qed
qed

text \<open>A coarse directory with a chunk of the point 1.0 at 60, beside a head block.\<close>

definition coarse_engine :: engine where
  "coarse_engine = sample_engine\<lparr>store := sample_disk\<lparr>
     files := [''data/cpu_1m/cpu_60.chunk'' \<mapsto>
       [60,0,0,0, 0,0,0,0, 60,0,0,0,0,0,0,0, 60,0,0,0,0,0,0,0, 16,0,0,0, 1,0,0,0,
        0,0,0,0,0,0,0,60, 0x3F,0xF0,0,0,0,0,0,0]],
     dirs := \<lambda>p. p = ''data/cpu_1m''\<rparr>\<rparr>"

lemma coarse_engine_points:
  "chunk_points (\<lambda>n. n < 10000) (store coarse_engine) ''data/cpu_1m/cpu_60.chunk'' = [(60, CDouble 0x3FF0000000000000)]"
  by code_simp

lemma coarse_engine_simps:
  "registry_find ''cpu'' (registry coarse_engine) = Some 0"
  "mhead (registry coarse_engine ! 0) = Some \<lparr>timestamps = [100, 110],
     hvalues = [CDouble 0x4049000000000000, CDouble 0x3FF8000000000000], hsize = 2, lastTimestamp = 110\<rparr>"
  "downsample_coarse_dir ''data'' ''cpu'' 512 = ''data/cpu_1m''"
  "use_coarse ''data'' ''cpu'' 0 3600 60 (store coarse_engine) = Ret True"
  "bounded 768 (''data/cpu_1m'' @ ''/'' @ ''cpu_60.chunk'') = ''data/cpu_1m/cpu_60.chunk''"
  by (simp_all add: coarse_engine_def sample_engine_def downsample_coarse_dir_def use_coarse_def
      downsample_should_use_def long_ok_def long_max_def long_min_def)

lemma strstr_chunk: "strstr ''cpu_60.chunk'' ''.chunk''"
  by code_simp

text \<open>C38: once the coarse directory of a metric exists, a query over an hour or more in buckets of a
  minute or more is answered from the files of that directory and the head block alone. The chunks
  of the registry do not occur in the answer, although downsampling only covers those older than
  an hour: what was flushed since is missing, and so is everything of a coarse file that cannot be
  read.\<close>

theorem Head_AGG_coarse_reference:
  assumes "registry_find m (registry eng) = Some i" and "mhead (registry eng ! i) = Some h"
    and "0 < b" "sint s < sint e" "sint e + b \<le> long_max"
    and "func \<in> agg_funcs" and "\<And>k. mem k"
    and "use_coarse g_dataDir m s e b (store eng) = Ret True"
    and "ls (store eng) (downsample_coarse_dir g_dataDir m 512) = Some names"
    and "length (coarse_file_points mem (store eng) (downsample_coarse_dir g_dataDir m 512) names) +
      length (head_points h) \<le> 8000000"
  shows "Head_AGG mem ls g_dataDir m s e b func eng =
    Ret (Some (agg_answer func s e b
      (coarse_file_points mem (store eng) (downsample_coarse_dir g_dataDir m 512) names @ head_points h)))"
proof -
  let ?dir = "downsample_coarse_dir g_dataDir m 512"
  have "array_ok no_points" "length (pts no_points) + length (coarse_file_points mem (store eng) ?dir names) \<le> 2 ^ 30"
    using assms(10) by (simp_all add: array_ok_def no_points_def)
  from collect_coarse_Ret [where mem = mem, OF assms(7) this] obtain arr where
    coarse: "collect_coarse mem (store eng) ?dir s e names no_points = Ret arr" "array_ok arr"
    "pts arr = filter (in_range s e) (coarse_file_points mem (store eng) ?dir names)" by (auto simp: no_points_def)
  have "collect_disk mem ls g_dataDir m s e b (registry eng ! i) (store eng) = Ret (False, arr)"
    by (simp add: collect_disk_def assms(8,9) coarse(1))
  from Head_AGG_answer [where mem = mem, OF assms(1-7) this coarse(2,3) assms(10)] show ?thesis .
qed

theorem Head_AGG_coarse_reference_witness:
  "Head_AGG (\<lambda>_. True) (\<lambda>_ _. Some [''60.done'', ''cpu_60.chunk'']) ''data'' ''cpu'' 0 3600 60 ''count'' coarse_engine =
     Ret (Some (''60-120 3'' @ newline @ ''(1 buckets)'' @ newline))"
proof -
  let ?ls = "\<lambda>_ :: disk. \<lambda>_ :: string. Some [''60.done'', ''cpu_60.chunk'']"
  let ?pts = "[(60, CDouble 0x3FF0000000000000), (100, CDouble 0x4049000000000000), (110, CDouble 0x3FF8000000000000)]"
  have range: "(0 :: int) < 60" "sint (0 :: long) < sint (3600 :: long)" "sint (3600 :: long) + 60 \<le> long_max"
    by (simp_all add: long_max_def)
  have count: "''count'' \<in> agg_funcs" by (simp add: agg_funcs_def)
  have "chunk_points (\<lambda>_. True) (store coarse_engine) ''data/cpu_1m/cpu_60.chunk'' = [(60, CDouble 0x3FF0000000000000)]"
    by code_simp
  moreover have "\<not> strstr ''60.done'' ''.chunk''" by code_simp
  ultimately have points: "coarse_file_points (\<lambda>_. True) (store coarse_engine) (downsample_coarse_dir ''data'' ''cpu'' 512)
      [''60.done'', ''cpu_60.chunk''] = [(60, CDouble 0x3FF0000000000000)]"
    unfolding coarse_engine_simps(3) coarse_file_points_Cons
    by (simp only: strstr_chunk coarse_engine_simps(5)) (simp add: coarse_file_points_def)
  have answer: "agg_answer ''count'' 0 3600 60 ?pts = ''60-120 3'' @ newline @ ''(1 buckets)'' @ newline" by code_simp
  have head: "head_points \<lparr>timestamps = [100, 110], hvalues = [CDouble 0x4049000000000000, CDouble 0x3FF8000000000000],
      hsize = 2, lastTimestamp = 110\<rparr> = [(100, CDouble 0x4049000000000000), (110, CDouble 0x3FF8000000000000)]"
    by (simp add: head_points_def)
  from Head_AGG_coarse_reference [where mem = "\<lambda>_. True" and ls = ?ls, OF coarse_engine_simps(1,2) range count _
      coarse_engine_simps(4) refl] answer
  show ?thesis unfolding points head by simp
qed

text \<open>The result of the collection from a coarse file is ignored, so that an allocation that
  fails there is not the end of the query: the array stays NULL with the capacity it was to have,
  and the next point of the range, here one of the head block, is stored through NULL.\<close>

theorem Head_AGG_coarse_no_memory:
  assumes "registry_find m (registry eng) = Some i" and "mhead (registry eng ! i) = Some h"
    and "0 < b" "sint s < sint e" and "\<not> mem 16384"
    and "use_coarse g_dataDir m s e b (store eng) = Ret True"
    and "ls (store eng) (downsample_coarse_dir g_dataDir m 512) = Some [name]" and "strstr name ''.chunk''"
    and "p \<in> set (chunk_points mem (store eng) (bounded 768 (downsample_coarse_dir g_dataDir m 512 @ ''/'' @ name)))"
      "in_range s e p"
    and "q \<in> set (head_points h)" "in_range s e q"
  shows "Head_AGG mem ls g_dataDir m s e b func eng = UB NullDeref"
proof -
  let ?path = "bounded 768 (downsample_coarse_dir g_dataDir m 512 @ ''/'' @ name)"
  let ?broken = "\<lparr>pts = [], pcap = 1024, palloc = 0\<rparr>"
  have first: "p \<in> set ps \<Longrightarrow> in_range s e p \<Longrightarrow> collect_points mem s e ps no_points = Ret (-1, ?broken)" for p ps
    using assms(5) by (induction ps) (auto simp: append_point_def no_points_def Let_def)
  have again: "q \<in> set ps \<Longrightarrow> in_range s e q \<Longrightarrow> collect_points mem s e ps ?broken = UB NullDeref" for q ps
    by (induction ps) (auto simp: append_point_def store_point_def)
  have "chunk_points mem (store eng) ?path \<noteq> []" using assms(9) by auto
  then obtain hd payload where hp: "chunkread mem ?path (store eng) = Some (hd, payload)"
    by (cases "chunkread mem ?path (store eng)") (auto simp: chunk_points_def)
  then have "p \<in> set (decode_points hd payload)" using assms(9) by (simp add: chunk_points_def)
  from first [OF this assms(10)] hp
  have "collect_disk mem ls g_dataDir m s e b (registry eng ! i) (store eng) = Ret (False, ?broken)"
    by (simp add: collect_disk_def assms(6-8) collect_points_from_chunk_def Let_def)
  with again [OF assms(11,12)] show ?thesis
    by (simp add: Head_AGG_found [OF assms(1-4), of mem ls g_dataDir func])
qed

theorem Head_AGG_coarse_no_memory_witness:
  "Head_AGG (\<lambda>n. n < 10000) (\<lambda>_ _. Some [''cpu_60.chunk'']) ''data'' ''cpu'' 0 3600 60 ''avg'' coarse_engine = UB NullDeref"
proof (rule Head_AGG_coarse_no_memory [OF coarse_engine_simps(1,2) _ _ _ coarse_engine_simps(4) refl strstr_chunk])
  show "(60, CDouble 0x3FF0000000000000) \<in> set (chunk_points (\<lambda>n. n < 10000) (store coarse_engine)
      (bounded 768 (downsample_coarse_dir ''data'' ''cpu'' 512 @ ''/'' @ ''cpu_60.chunk'')))"
    unfolding coarse_engine_simps(3,5) coarse_engine_points by simp
  show "(100, CDouble 0x4049000000000000) \<in> set (head_points \<lparr>timestamps = [100, 110],
      hvalues = [CDouble 0x4049000000000000, CDouble 0x3FF8000000000000], hsize = 2, lastTimestamp = 110\<rparr>)"
    by (simp add: head_points_def)
qed (simp_all add: in_range_def)

end
