(* ===== verification/Strtod.thy ===== *)
theory Strtod
  imports C_Text
begin

text \<open>
  \<open>strtod\<close> of the C library in the locale the program runs in (it never calls \<open>setlocale\<close>):
  leading white space, a sign, then a decimal or hexadecimal number with optional fraction and
  exponent, or an infinity or NaN, rounded to nearest with ties to even. A text that is none of
  these converts to zero. The payload glibc reads from \<open>nan(...)\<close> is left out.
\<close>

section \<open>Rounding a ratio\<close>

text \<open>Sixty-four exact bits of \<open>n / d\<close> and a sticky bit below them, rounded once.\<close>

definition d_of_ratio :: "bool \<Rightarrow> int \<Rightarrow> int \<Rightarrow> cdouble" where
  "d_of_ratio neg n d =
     (let k = 64 + bitlen d; num = n * 2 ^ nat k;
          q = 2 * (num div d) + (if num mod d = 0 then 0 else 1)
      in d_round neg q (- k - 1))"

definition d_of_decimal :: "bool \<Rightarrow> int \<Rightarrow> int \<Rightarrow> cdouble" where
  "d_of_decimal neg m ex =
     (if ex \<ge> 0 then d_round neg (m * 10 ^ nat ex) 0 else d_of_ratio neg m (10 ^ nat (- ex)))"

section \<open>Scanning\<close>

definition lower :: "char \<Rightarrow> char" where
  "lower c = (let n = (of_char c :: nat) in if 65 \<le> n \<and> n \<le> 90 then char_of (n + 32) else c)"

definition has_prefix :: "string \<Rightarrow> string \<Rightarrow> bool" where
  "has_prefix w s \<longleftrightarrow> map lower (take (length w) s) = w"

definition is_hex :: "char \<Rightarrow> bool" where
  "is_hex c \<longleftrightarrow> is_digit c \<or> (let n = (of_char (lower c) :: nat) in 97 \<le> n \<and> n \<le> 102)"

definition hex_val :: "char \<Rightarrow> int" where
  "hex_val c = (if is_digit c then digit_val c else int (of_char (lower c)) - 87)"

text \<open>A sign in front of a text.\<close>

definition scan_sign :: "string \<Rightarrow> bool \<times> string" where
  "scan_sign s =
     (case s of
        [] \<Rightarrow> (False, [])
      | c # cs \<Rightarrow> if c = CHR ''-'' then (True, cs) else if c = CHR ''+'' then (False, cs) else (False, s))"

text \<open>Digits, and a fraction where a point follows: all digits, and how many are behind the point.\<close>

definition scan_digits :: "(char \<Rightarrow> bool) \<Rightarrow> string \<Rightarrow> string \<times> nat \<times> string" where
  "scan_digits digit s =
     (let whole = takeWhile digit s; rest = dropWhile digit s in
      case rest of
        [] \<Rightarrow> (whole, 0, [])
      | c # cs \<Rightarrow>
          if c = CHR ''.'' then
            let frac = takeWhile digit cs in (whole @ frac, length frac, dropWhile digit cs)
          else (whole, 0, rest))"

text \<open>The exponent behind the letter \<open>e\<close> or \<open>p\<close>; without digits it is not one.\<close>

definition scan_exponent :: "char \<Rightarrow> string \<Rightarrow> int" where
  "scan_exponent letter s =
     (case s of
        [] \<Rightarrow> 0
      | c # cs \<Rightarrow>
          if lower c = letter then
            let (neg, cs) = scan_sign cs; n = digits_val (takeWhile is_digit cs) in if neg then - n else n
          else 0)"

definition strtod :: "string \<Rightarrow> cdouble" where
  "strtod s =
     (let (neg, s) = scan_sign (dropWhile is_space s) in
      if has_prefix ''inf'' s then d_inf neg
      else if has_prefix ''nan'' s then CDouble (if neg then 0xFFF8000000000000 else 0x7FF8000000000000)
      else if has_prefix ''0x'' s \<and> fst (scan_digits is_hex (drop 2 s)) \<noteq> [] then
        let (digits, k, rest) = scan_digits is_hex (drop 2 s) in
        d_round neg (foldl (\<lambda>a c. 16 * a + hex_val c) 0 digits) (scan_exponent CHR ''p'' rest - 4 * int k)
      else
        let (digits, k, rest) = scan_digits is_digit s in
        if digits = [] then d_round False 0 0
        else d_of_decimal neg (digits_val digits) (scan_exponent CHR ''e'' rest - int k))"

section \<open>Printed integers\<close>

lemma digit_not_letter:
  assumes "is_digit c"
  shows "\<not> has_prefix ''inf'' (c # cs)" "\<not> has_prefix ''nan'' (c # cs)"
    and "has_prefix ''0x'' (c # cs) \<Longrightarrow> \<exists>d ds. cs = d # ds \<and> \<not> is_digit d"
proof -
  have "lower c = c" using assms by (simp add: lower_def is_digit_def Let_def)
  moreover have "c \<noteq> CHR ''i''" "c \<noteq> CHR ''n''" using assms by (auto simp: is_digit_def)
  ultimately show "\<not> has_prefix ''inf'' (c # cs)" "\<not> has_prefix ''nan'' (c # cs)"
    by (simp_all add: has_prefix_def)
  assume "has_prefix ''0x'' (c # cs)"
  then obtain d ds where d: "cs = d # ds" "lower d = CHR ''x''"
    by (cases cs) (auto simp: has_prefix_def)
  then have "\<not> is_digit d" by (auto simp: lower_def is_digit_def Let_def split: if_splits)
  with d show "\<exists>d ds. cs = d # ds \<and> \<not> is_digit d" by blast
qed

lemma scan_digits_show_dec:
  assumes "0 \<le> n"
  shows "scan_digits is_digit (show_dec n) = (show_dec n, 0, [])"
  using show_dec_digits [OF assms(1)] by (simp add: scan_digits_def dropWhile_eq_Nil_conv [THEN iffD2])

text \<open>A printed integer reads back as the nearest double.\<close>

lemma strtod_show_int: "strtod (show_int n) = d_of_int n"
proof -
  have *: "scan_sign (dropWhile is_space (show_int n)) = (n < 0, show_dec \<bar>n\<bar>)"
  proof (cases "n < 0")
    case True
    then show ?thesis by (simp add: show_int_def scan_sign_def is_space_def)
  next
    case False
    then obtain c cs where "show_dec n = c # cs" "is_digit c" using show_dec_Cons [of n] by auto
    with False digit_not_special [of c] show ?thesis by (simp add: show_int_def scan_sign_def)
  qed
  obtain c cs where c: "show_dec \<bar>n\<bar> = c # cs" "is_digit c" using show_dec_Cons [of "\<bar>n\<bar>"] by auto
  have "\<not> has_prefix ''0x'' (show_dec \<bar>n\<bar>)"
    using digit_not_letter(3) [OF c(2), of cs] show_dec_digits [of "\<bar>n\<bar>"] c(1) by auto
  moreover have "scan_digits is_digit (show_dec \<bar>n\<bar>) = (show_dec \<bar>n\<bar>, 0, [])"
    by (rule scan_digits_show_dec) simp
  ultimately show ?thesis
    using * digit_not_letter(1,2) [OF c(2), of cs] c(1) [symmetric]
    by (simp add: strtod_def d_of_decimal_def d_of_int_def scan_exponent_def)
qed

end
