(* ===== verification/Request.thy ===== *)
theory Request
  imports Aggregate Strtod
begin

text \<open>
  Requests: the tokenizer of \<^verbatim>\<open>src/parsor.c\<close>, the command parser \<open>getRequest\<close> and the dispatch
  \<open>ProcessRequest\<close> of \<^verbatim>\<open>src/request.c\<close>. A \<open>Request\<close> is allocated without being cleared: \<open>junk\<close> is
  what the memory held, and a command fills in its own fields only.
\<close>

section \<open>Tokens\<close>

definition is_delim :: "char \<Rightarrow> bool" where
  "is_delim c \<longleftrightarrow> c \<in> {CHR '' '', CHR 0x0D, CHR 0x0A}"

text \<open>The first token of a text and what is left behind it, as \<open>strtok\<close> finds them.\<close>

definition strtok :: "string \<Rightarrow> (string \<times> string) option" where
  "strtok s =
     (let s = dropWhile is_delim s in
      if s = [] then None else Some (takeWhile (\<lambda>c. \<not> is_delim c) s, tl (dropWhile (\<lambda>c. \<not> is_delim c) s)))"

lemma strtok_shorter: "strtok s = Some (tok, rest) \<Longrightarrow> length rest < length s"
proof -
  assume tok: "strtok s = Some (tok, rest)"
  then have "dropWhile is_delim s \<noteq> []"
    and rest: "rest = tl (dropWhile (\<lambda>c. \<not> is_delim c) (dropWhile is_delim s))"
    by (auto simp: strtok_def Let_def split: if_splits)
  then have "s \<noteq> []" by auto
  moreover have "length (dropWhile (\<lambda>c. \<not> is_delim c) (dropWhile is_delim s)) \<le> length s"
    by (meson length_dropWhile_le order.trans)
  ultimately show "length rest < length s" by (cases s) (simp_all add: rest)
qed

text \<open>The loop of \<open>parseString\<close>; the array grows by one pointer, every token is copied.\<close>

function parse_loop :: "allocator \<Rightarrow> string \<Rightarrow> string list \<Rightarrow> string list option" where
  "parse_loop mem s subStrings =
     (case strtok s of
        None \<Rightarrow> Some subStrings
      | Some (tok, rest) \<Rightarrow>
          if \<not> mem (8 * (length subStrings + 1)) then None
          else if \<not> mem (length tok + 1) then None
          else parse_loop mem rest (subStrings @ [tok]))"
  by pat_completeness auto
termination
  by (relation "measure (\<lambda>(mem, s, subStrings). length s)") (auto dest: strtok_shorter)

declare parse_loop.simps [simp del]

definition parseString :: "allocator \<Rightarrow> string \<Rightarrow> string list option" where
  "parseString mem buffer =
     (if \<not> mem 16 then None
      else if \<not> mem (length buffer + 1) then None
      else parse_loop mem buffer [])"

section \<open>Requests\<close>

datatype CommandType = PUT | GET | FLUSH | QUIT | STATS | AGG

record Request =
  rq_type :: CommandType
  rq_metric :: string
  rq_timestamp :: long
  rq_value :: cdouble
  rq_startTimeStamp :: long
  rq_endTimeStamp :: long
  rq_resultCount :: int
  rq_bucketSeconds :: int
  rq_func :: string

text \<open>
  The structure has 128 bytes and \<open>func\<close> is the last 16 of them, so that a longer name is copied
  past the end of the allocation. The first store into the structure comes before the test of the
  pointer, and \<open>free_parser\<close> reads the size of a parser that was not made.
\<close>

definition getRequest :: "allocator \<Rightarrow> Request \<Rightarrow> string \<Rightarrow> Request option c_result" where
  "getRequest mem junk buffer =
     (let p = parseString mem buffer in
      if \<not> mem 128 then UB NullDeref
      else
        let request = junk\<lparr>rq_resultCount := 0\<rparr> in
        case p of
          None \<Rightarrow> UB NullDeref
        | Some p \<Rightarrow>
            if length p = 0 then Ret None
            else if length p = 4 \<and> p ! 0 = ''PUT'' then
              Ret (Some (request\<lparr>rq_type := PUT, rq_metric := bounded 64 (p ! 1),
                rq_timestamp := of_int (strtol (p ! 2)), rq_value := strtod (p ! 3)\<rparr>))
            else if length p = 4 \<and> p ! 0 = ''GET'' then
              Ret (Some (request\<lparr>rq_type := GET, rq_metric := bounded 64 (p ! 1),
                rq_startTimeStamp := of_int (strtol (p ! 2)), rq_endTimeStamp := of_int (strtol (p ! 3))\<rparr>))
            else if length p = 2 \<and> p ! 0 = ''FLUSH'' then
              Ret (Some (request\<lparr>rq_type := FLUSH, rq_metric := bounded 64 (p ! 1)\<rparr>))
            else if length p = 2 \<and> p ! 0 = ''STATS'' then
              Ret (Some (request\<lparr>rq_type := STATS, rq_metric := bounded 64 (p ! 1)\<rparr>))
            else if length p = 1 \<and> p ! 0 = ''QUIT'' then
              Ret (Some (request\<lparr>rq_type := QUIT\<rparr>))
            else if length p = 6 \<and> p ! 0 = ''AGG'' then
              let request = request\<lparr>rq_type := AGG, rq_metric := bounded 64 (p ! 1),
                rq_startTimeStamp := of_int (strtol (p ! 2)), rq_endTimeStamp := of_int (strtol (p ! 3)),
                rq_bucketSeconds := atoi (p ! 4)\<rparr>
              in if length (p ! 5) \<ge> 16 then UB HeapOverflow else Ret (Some (request\<lparr>rq_func := p ! 5\<rparr>))
            else Ret None)"

section \<open>Handlers\<close>

definition handlePUT :: "allocator \<Rightarrow> long \<Rightarrow> Request \<Rightarrow> string \<Rightarrow> engine \<Rightarrow> (bool \<times> engine) c_result" where
  "handlePUT mem junk request dataDir e =
     Head_PUT mem junk (rq_metric request) (rq_timestamp request) (rq_value request) dataDir e"

definition handleGET :: "allocator \<Rightarrow> Request \<Rightarrow> engine \<Rightarrow> (string option \<times> Request) c_result" where
  "handleGET mem request e =
     (let request = request\<lparr>rq_resultCount := 0\<rparr> in
      case Head_GET mem (rq_metric request) (rq_startTimeStamp request) (rq_endTimeStamp request) e of
        UB u \<Rightarrow> UB u
      | Ret None \<Rightarrow> Ret (None, request)
      | Ret (Some (text, found)) \<Rightarrow> Ret (Some text, request\<lparr>rq_resultCount := found\<rparr>))"

definition handleSTATS :: "allocator \<Rightarrow> Request \<Rightarrow> engine \<Rightarrow> string option c_result" where
  "handleSTATS mem request e = Head_STATS mem (rq_metric request) e"

definition handleflush :: "allocator \<Rightarrow> long \<Rightarrow> Request \<Rightarrow> string \<Rightarrow> engine \<Rightarrow> (bool \<times> engine) c_result" where
  "handleflush mem junk request dataDir e = headflush mem junk (rq_metric request) dataDir e"

definition handleAGG ::
    "allocator \<Rightarrow> (disk \<Rightarrow> string \<Rightarrow> string list option) \<Rightarrow> string \<Rightarrow> Request \<Rightarrow> engine \<Rightarrow> string option c_result" where
  "handleAGG mem ls g_dataDir request e =
     (if rq_bucketSeconds request \<le> 0
      then Ret (malloc_text mem 64 (''ERR invalid bucket_seconds'' @ newline))
      else Head_AGG mem ls g_dataDir (rq_metric request) (rq_startTimeStamp request) (rq_endTimeStamp request)
             (rq_bucketSeconds request) (rq_func request) e)"

record Response =
  runFurther :: bool
  response_text :: "string option"

text \<open>The results of \<open>handlePUT\<close> and \<open>handleflush\<close> are dropped.\<close>

definition ProcessRequest ::
    "allocator \<Rightarrow> long \<Rightarrow> (disk \<Rightarrow> string \<Rightarrow> string list option) \<Rightarrow> string \<Rightarrow> Request \<Rightarrow> string \<Rightarrow> engine \<Rightarrow>
     (Response \<times> engine) c_result" where
  "ProcessRequest mem junk ls g_dataDir request dataDir e =
     (let response = \<lparr>runFurther = True, response_text = None\<rparr> in
      case rq_type request of
        PUT \<Rightarrow>
          (case handlePUT mem junk request dataDir e of
             UB u \<Rightarrow> UB u | Ret (res, e) \<Rightarrow> Ret (response, e))
      | QUIT \<Rightarrow> Ret (response\<lparr>runFurther := False\<rparr>, e)
      | GET \<Rightarrow>
          (case handleGET mem request e of
             UB u \<Rightarrow> UB u | Ret (text, request) \<Rightarrow> Ret (response\<lparr>response_text := text\<rparr>, e))
      | STATS \<Rightarrow>
          (case handleSTATS mem request e of
             UB u \<Rightarrow> UB u | Ret text \<Rightarrow> Ret (response\<lparr>response_text := text\<rparr>, e))
      | FLUSH \<Rightarrow>
          (case handleflush mem junk request dataDir e of
             UB u \<Rightarrow> UB u | Ret (res, e) \<Rightarrow> Ret (response, e))
      | AGG \<Rightarrow>
          (case handleAGG mem ls g_dataDir request e of
             UB u \<Rightarrow> UB u | Ret text \<Rightarrow> Ret (response\<lparr>response_text := text\<rparr>, e)))"

section \<open>Tokens of a line\<close>

text \<open>All tokens of a text, without the allocator.\<close>

function tokens :: "string \<Rightarrow> string list" where
  "tokens s = (case strtok s of None \<Rightarrow> [] | Some (tok, rest) \<Rightarrow> tok # tokens rest)"
  by pat_completeness auto
termination
  by (relation "measure length") (auto dest: strtok_shorter)

declare tokens.simps [simp del]

lemma parse_loop_tokens:
  "parse_loop mem s acc = Some ts \<Longrightarrow> ts = acc @ tokens s"
proof (induction "length s" arbitrary: s acc rule: less_induct)
  case less
  show ?case
  proof (cases "strtok s")
    case None
    with less.prems show ?thesis by (simp add: parse_loop.simps [of mem s] tokens.simps [of s])
  next
    case (Some tr)
    obtain tok rest where tr: "tr = (tok, rest)" by force
    with Some have "length rest < length s" by (simp add: strtok_shorter)
    from less.hyps [OF this, of "acc @ [tok]"] less.prems Some tr show ?thesis
      by (simp add: parse_loop.simps [of mem s] tokens.simps [of s] split: if_splits)
  qed
qed

lemma parse_loop_Some: "(\<And>k. mem k) \<Longrightarrow> parse_loop mem s acc = Some (acc @ tokens s)"
proof (induction "length s" arbitrary: s acc rule: less_induct)
  case less
  show ?case
  proof (cases "strtok s")
    case None
    then show ?thesis by (simp add: parse_loop.simps [of mem s] tokens.simps [of s])
  next
    case (Some tr)
    obtain tok rest where tr: "tr = (tok, rest)" by force
    with Some have "length rest < length s" by (simp add: strtok_shorter)
    from less.hyps [OF this less.prems, of "acc @ [tok]"] less.prems Some tr show ?thesis
      by (simp add: parse_loop.simps [of mem s] tokens.simps [of s])
  qed
qed

lemma parseString_Some: "(\<And>k. mem k) \<Longrightarrow> parseString mem s = Some (tokens s)"
  by (simp add: parseString_def parse_loop_Some)

lemma parseString_tokens: "parseString mem s = Some ts \<Longrightarrow> ts = tokens s"
  by (auto simp: parseString_def split: if_splits dest: parse_loop_tokens)

text \<open>A word is not empty and holds no delimiter; a line of words separated by blanks has them as tokens.\<close>

definition is_word :: "string \<Rightarrow> bool" where
  "is_word w \<longleftrightarrow> w \<noteq> [] \<and> (\<forall>c \<in> set w. \<not> is_delim c)"

lemma strtok_word: "is_word w \<Longrightarrow> is_delim d \<Longrightarrow> strtok (w @ d # s) = Some (w, s)"
  by (cases w) (simp_all add: is_word_def strtok_def takeWhile_tail dropWhile_append3)

lemma tokens_word: "is_word w \<Longrightarrow> is_delim d \<Longrightarrow> tokens (w @ d # s) = w # tokens s"
  by (simp add: tokens.simps [of "w @ d # s"] strtok_word)

lemma tokens_Nil [simp]: "tokens [] = []"
  by (simp add: tokens.simps strtok_def)

fun line_of :: "string list \<Rightarrow> string" where
  "line_of [] = newline"
| "line_of [w] = w @ newline"
| "line_of (w # ws) = w @ '' '' @ line_of ws"

lemma tokens_line_of: "\<forall>w \<in> set ws. is_word w \<Longrightarrow> tokens (line_of ws) = ws"
proof (induction ws rule: line_of.induct)
  case 1
  show ?case by (simp add: tokens.simps strtok_def newline_def is_delim_def)
next
  case (2 w)
  then show ?case using tokens_word [of w "CHR 0x0A" "[]"] by (simp add: newline_def is_delim_def)
next
  case (3 w v ws)
  then show ?case using tokens_word [of w "CHR '' ''" "line_of (v # ws)"] by (simp add: is_delim_def)
qed

section \<open>Commands\<close>

text \<open>The commands of the protocol, with integer values for PUT.\<close>

datatype command =
  CPut string long int
| CGet string long long
| CFlush string
| CStats string
| CQuit
| CAgg string long long int string

fun command_words :: "command \<Rightarrow> string list" where
  "command_words (CPut m t v) = [''PUT'', m, show_int (sint t), show_int v]"
| "command_words (CGet m s e) = [''GET'', m, show_int (sint s), show_int (sint e)]"
| "command_words (CFlush m) = [''FLUSH'', m]"
| "command_words (CStats m) = [''STATS'', m]"
| "command_words CQuit = [''QUIT'']"
| "command_words (CAgg m s e b f) = [''AGG'', m, show_int (sint s), show_int (sint e), show_int b, f]"

fun command_request :: "Request \<Rightarrow> command \<Rightarrow> Request" where
  "command_request r (CPut m t v) =
     r\<lparr>rq_type := PUT, rq_metric := m, rq_timestamp := t, rq_value := d_of_int v, rq_resultCount := 0\<rparr>"
| "command_request r (CGet m s e) =
     r\<lparr>rq_type := GET, rq_metric := m, rq_startTimeStamp := s, rq_endTimeStamp := e, rq_resultCount := 0\<rparr>"
| "command_request r (CFlush m) = r\<lparr>rq_type := FLUSH, rq_metric := m, rq_resultCount := 0\<rparr>"
| "command_request r (CStats m) = r\<lparr>rq_type := STATS, rq_metric := m, rq_resultCount := 0\<rparr>"
| "command_request r CQuit = r\<lparr>rq_type := QUIT, rq_resultCount := 0\<rparr>"
| "command_request r (CAgg m s e b f) =
     r\<lparr>rq_type := AGG, rq_metric := m, rq_startTimeStamp := s, rq_endTimeStamp := e, rq_resultCount := 0,
       rq_bucketSeconds := b, rq_func := f\<rparr>"

definition metric_name :: "string \<Rightarrow> bool" where
  "metric_name m \<longleftrightarrow> is_word m \<and> length m < 64"

fun command_ok :: "command \<Rightarrow> bool" where
  "command_ok (CPut m t v) \<longleftrightarrow> metric_name m"
| "command_ok (CGet m s e) \<longleftrightarrow> metric_name m"
| "command_ok (CFlush m) \<longleftrightarrow> metric_name m"
| "command_ok (CStats m) \<longleftrightarrow> metric_name m"
| "command_ok CQuit \<longleftrightarrow> True"
| "command_ok (CAgg m s e b f) \<longleftrightarrow> metric_name m \<and> - (2 ^ 31) \<le> b \<and> b < 2 ^ 31 \<and> is_word f \<and> length f < 16"

lemma is_digit_not_delim: "is_digit c \<Longrightarrow> \<not> is_delim c"
  by (auto simp: is_digit_def is_delim_def)

lemma is_word_show_int [simp]: "is_word (show_int n)"
proof -
  have "\<not> is_delim CHR ''-''" by (simp add: is_delim_def)
  moreover have "\<forall>c \<in> set (show_dec \<bar>n\<bar>). \<not> is_delim c"
    using show_dec_digits [of "\<bar>n\<bar>"] is_digit_not_delim by simp
  ultimately show ?thesis by (cases "n < 0") (simp_all add: is_word_def show_int_def)
qed

lemma is_word_commands [simp]:
  "is_word ''PUT''" "is_word ''GET''" "is_word ''FLUSH''" "is_word ''STATS''" "is_word ''QUIT''" "is_word ''AGG''"
  by (simp_all add: is_word_def is_delim_def)

lemma strtol_show_long [simp]: "of_int (strtol (show_int (sint t))) = (t :: long)"
proof -
  have "long_min \<le> sint t" "sint t \<le> long_max"
    using sint_greater_eq [of t] sint_less [of t] by (simp_all add: long_min_def long_max_def)
  then show ?thesis by (simp add: strtol_show_int)
qed

lemma atoi_show_int: "- (2 ^ 31) \<le> b \<Longrightarrow> b < 2 ^ 31 \<Longrightarrow> atoi (show_int b) = b"
  by (simp add: atoi_def strtol_show_int long_min_def long_max_def sint_sbintrunc' signed_take_bit_int_eq_self)


definition blank_request :: Request where
  "blank_request =
     \<lparr>rq_type = PUT, rq_metric = [], rq_timestamp = 0, rq_value = 0, rq_startTimeStamp = 0, rq_endTimeStamp = 0,
      rq_resultCount = 0, rq_bucketSeconds = 0, rq_func = []\<rparr>"



text \<open>What every request has.\<close>

lemma getRequest_metric:
  assumes "getRequest mem junk s = Ret (Some r)" and "rq_type r \<noteq> QUIT"
  shows "length (rq_metric r) < 64"
  using assms length_bounded [of 64] by (auto simp: getRequest_def Let_def split: if_splits option.splits)

lemma ProcessRequest_reads:
  assumes "ProcessRequest mem junk ls g r dataDir e = Ret (resp, e')" and "rq_type r \<notin> {PUT, FLUSH}"
  shows "e' = e"
  using assms
  by (cases "rq_type r") (auto simp: ProcessRequest_def split: c_result.splits prod.splits)

end
