(* ===== verification/Server.thy ===== *)
theory Server
  imports Request Retention Durability
begin

text \<open>
  The server, \<^verbatim>\<open>src/server.c\<close>: the command line, the connection loop that cuts the byte stream
  of a client into lines and answers each, and the rebuilding of the registry from the data
  directory at start-up. Accepting connections is in \<^verbatim>\<open>Lifecycle\<close>. Of a socket only the data is seen: what \<open>recv\<close> returned is a list of byte strings, in
  order, and what was handed to \<open>send\<close> is a list of texts; whether a \<open>send\<close> succeeds may depend on
  what was sent before. A byte of the stream is a \<open>char\<close>.
\<close>

section \<open>Command line\<close>

text \<open>The port, the data directory, which \<open>main\<close> keeps in 256 bytes, and the retention rules.\<close>

fun handleArguements ::
    "string list \<Rightarrow> int \<times> string \<times> RetentionConfig \<Rightarrow> (int \<times> string \<times> RetentionConfig) c_result" where
  "handleArguements [] st = Ret st"
| "handleArguements [a] st = Ret st"
| "handleArguements (a # b # rest) (portNumber, dataFilePath, cfg) =
     (if a = ''--port'' then handleArguements rest (atoi b, dataFilePath, cfg)
      else if a = ''--data'' then
        if length b \<ge> 256 then UB StackOverflow else handleArguements rest (portNumber, b, cfg)
      else if a = ''--retention'' then
        handleArguements rest (portNumber, dataFilePath, snd (retention_add_rule cfg b))
      else handleArguements (b # rest) (portNumber, dataFilePath, cfg))"

definition main_arguments :: "string list \<Rightarrow> (int \<times> string \<times> RetentionConfig) c_result" where
  "main_arguments argv = handleArguements argv (8088, ''./data'', \<lparr>rules = [], rule_count = 0\<rparr>)"

definition registry_init :: "string \<Rightarrow> string" where
  "registry_init dataDir = bounded 512 dataDir"

section \<open>One connection\<close>

text \<open>What surrounds a connection: the allocator, what fresh memory holds, \<open>readdir\<close>, the global
  data directory, the data directory of the thread, and \<open>send\<close>.\<close>

record env =
  env_mem :: allocator
  env_junk :: long
  env_request :: Request
  env_ls :: "disk \<Rightarrow> string \<Rightarrow> string list option"
  env_global :: string
  env_dataDir :: string
  env_send :: "string list \<Rightarrow> bool"

datatype line_outcome = Next | Quit | SendFailed

definition send_text :: "env \<Rightarrow> string \<Rightarrow> string list \<Rightarrow> string list" where
  "send_text env text sent = (if env_send env sent then sent @ [text] else sent)"

text \<open>One line with its newline: at most 1023 bytes of it, up to the first NUL, are parsed.\<close>

definition line_text :: "string \<Rightarrow> string" where
  "line_text raw = takeWhile (\<lambda>c. c \<noteq> CHR 0x00) (take 1023 raw)"

definition handle_line ::
    "env \<Rightarrow> string \<Rightarrow> string list \<Rightarrow> engine \<Rightarrow> (line_outcome \<times> string list \<times> engine) c_result" where
  "handle_line env raw sent e =
     (case getRequest (env_mem env) (env_request env) (line_text raw) of
        UB u \<Rightarrow> UB u
      | Ret None \<Rightarrow> Ret (Next, send_text env (''Invalid Command!'' @ newline) sent, e)
      | Ret (Some request) \<Rightarrow>
          (case ProcessRequest (env_mem env) (env_junk env) (env_ls env) (env_global env) request (env_dataDir env) e of
             UB u \<Rightarrow> UB u
           | Ret (response, e) \<Rightarrow>
               if \<not> runFurther response then Ret (Quit, send_text env (''quit'' @ newline) sent, e)
               else
                 let text = (case response_text response of None \<Rightarrow> ''ok'' | Some text \<Rightarrow> text) in
                 if env_send env sent then Ret (Next, sent @ [text], e) else Ret (SendFailed, sent, e)))"

definition is_nl :: "char \<Rightarrow> bool" where
  "is_nl c \<longleftrightarrow> c = CHR 0x0A"

text \<open>The lines of the buffer: how it ended, what is left of the buffer, what was sent.\<close>

function handle_lines ::
    "env \<Rightarrow> string \<Rightarrow> string list \<Rightarrow> engine \<Rightarrow> (line_outcome \<times> string \<times> string list \<times> engine) c_result" where
  "handle_lines env inbuf sent e =
     (let rest = dropWhile (\<lambda>c. \<not> is_nl c) inbuf in
      if rest = [] then Ret (Next, inbuf, sent, e)
      else
        case handle_line env (takeWhile (\<lambda>c. \<not> is_nl c) inbuf @ newline) sent e of
          UB u \<Rightarrow> UB u
        | Ret (out, sent, e) \<Rightarrow>
            if out = Next then handle_lines env (tl rest) sent e else Ret (out, tl rest, sent, e))"
  by pat_completeness auto
termination
proof (relation "measure (\<lambda>(env, inbuf, sent, e). length inbuf)", simp, goal_cases)
  case (1 env inbuf sent e rest x out y sent' e')
  have "length rest \<le> length inbuf" unfolding 1(1) by (rule length_dropWhile_le)
  with 1(2) show ?case by (cases rest) simp_all
qed

declare handle_lines.simps [simp del]

text \<open>One \<open>recv\<close>: the buffer of 8192 bytes takes the bytes and a NUL, or is thrown away.\<close>

definition recv_bytes ::
    "env \<Rightarrow> string \<Rightarrow> string \<Rightarrow> string list \<Rightarrow> engine \<Rightarrow> (line_outcome \<times> string \<times> string list \<times> engine) c_result" where
  "recv_bytes env tmp inbuf sent e =
     (if length inbuf + length tmp \<ge> 8192 - 1 then
        Ret (Next, [], send_text env (''ERR line too long'' @ newline) sent, e)
      else if length inbuf + length tmp + 1 > 8192 then UB StackOverflow
      else handle_lines env (inbuf @ tmp) sent e)"

text \<open>The loop of the thread; an empty \<open>recv\<close> or the end of the list is the end of the connection.\<close>

primrec client_loop ::
    "env \<Rightarrow> string list \<Rightarrow> string \<Rightarrow> string list \<Rightarrow> engine \<Rightarrow> (string list \<times> engine) c_result" where
  "client_loop env [] inbuf sent e = Ret (sent, e)"
| "client_loop env (tmp # recvs) inbuf sent e =
     (if tmp = [] then Ret (sent, e)
      else
        case recv_bytes env tmp inbuf sent e of
          UB u \<Rightarrow> UB u
        | Ret (out, inbuf, sent, e) \<Rightarrow>
            if out = Quit then Ret (sent, e) else client_loop env recvs inbuf sent e)"

definition handleClient :: "env \<Rightarrow> string list \<Rightarrow> engine \<Rightarrow> (string list \<times> engine) c_result" where
  "handleClient env recvs e = client_loop env recvs [] [] e"

section \<open>Start-up\<close>

text \<open>
  \<open>strncpy\<close> of the path copies 255 bytes and leaves the last byte of the field alone; the model
  takes it as NUL.
\<close>

definition loadChunkMetadata :: "allocator \<Rightarrow> string \<Rightarrow> string \<Rightarrow> engine \<Rightarrow> engine c_result" where
  "loadChunkMetadata mem metricName chunkPath e =
     (case registry_find metricName (registry e) of
        None \<Rightarrow> Ret e
      | Some i \<Rightarrow>
          (case chunkread mem chunkPath (store e) of
             None \<Rightarrow> Ret e
           | Some (header, payload) \<Rightarrow>
               let entry = registry e ! i;
                   full = (int (chunkCount entry) \<ge> chunkCapacity entry);
                   cap = (if full then (if chunkCapacity entry = 0 then 4
                                        else sint (of_int (chunkCapacity entry * 2) :: 16 word))
                          else chunkCapacity entry)
               in if full \<and> cap < 0 then UB NullDeref
                  else if int (chunkCount entry) \<ge> cap then UB HeapOverflow
                  else
                    Ret (e\<lparr>registry := (registry e)[i := entry\<lparr>chunkCapacity := cap,
                           chunks := store_at (chunks entry) (chunkCount entry)
                             \<lparr>start_ts = startts header, end_ts = endts header, filename = bounded 256 chunkPath\<rparr>,
                           chunkCount := chunkCount entry + 1\<rparr>]\<rparr>)))"

primrec load_chunks :: "allocator \<Rightarrow> string \<Rightarrow> string \<Rightarrow> string list \<Rightarrow> engine \<Rightarrow> engine c_result" where
  "load_chunks mem metricName metric_path [] e = Ret e"
| "load_chunks mem metricName metric_path (name # names) e =
     (if strstr name ''.chunk'' then
        (case loadChunkMetadata mem metricName (bounded 1024 (metric_path @ ''/'' @ name)) e of
           UB u \<Rightarrow> UB u
         | Ret e \<Rightarrow> load_chunks mem metricName metric_path names e)
      else load_chunks mem metricName metric_path names e)"

text \<open>One entry of the data directory.\<close>

definition load_metric ::
    "allocator \<Rightarrow> long \<Rightarrow> (disk \<Rightarrow> string \<Rightarrow> string list option) \<Rightarrow> string \<Rightarrow> string \<Rightarrow> engine \<Rightarrow> engine c_result" where
  "load_metric mem junk ls dataFilePath name e =
     (if name = ''.'' \<or> name = ''..'' then Ret e
      else
        let metric_path = bounded 512 (dataFilePath @ ''/'' @ name) in
        if \<not> dirs (store e) metric_path then Ret e
        else
          case getMetricFromHashTable mem junk name True (registry e) of
            UB u \<Rightarrow> UB u
          | Ret (_, reg) \<Rightarrow>
              let e = e\<lparr>registry := reg\<rparr> in
              case ls (store e) metric_path of
                None \<Rightarrow> Ret e
              | Some names \<Rightarrow>
                  (case load_chunks mem name metric_path names e of
                     UB u \<Rightarrow> UB u
                   | Ret e \<Rightarrow>
                       (case getMetricFromHashTable mem junk name False (registry e) of
                          UB u \<Rightarrow> UB u
                        | Ret (None, _) \<Rightarrow> Ret e
                        | Ret (Some i, _) \<Rightarrow>
                            Ret (set_head e i (wal_replay dataFilePath name (store e) (head_at e i))))))"

primrec load_metrics ::
    "allocator \<Rightarrow> long \<Rightarrow> (disk \<Rightarrow> string \<Rightarrow> string list option) \<Rightarrow> string \<Rightarrow> string list \<Rightarrow> engine \<Rightarrow> engine c_result" where
  "load_metrics mem junk ls dataFilePath [] e = Ret e"
| "load_metrics mem junk ls dataFilePath (name # names) e =
     (case load_metric mem junk ls dataFilePath name e of
        UB u \<Rightarrow> UB u
      | Ret e \<Rightarrow> load_metrics mem junk ls dataFilePath names e)"

definition loadRegistry ::
    "allocator \<Rightarrow> long \<Rightarrow> (disk \<Rightarrow> string \<Rightarrow> string list option) \<Rightarrow> string \<Rightarrow> engine \<Rightarrow> engine c_result" where
  "loadRegistry mem junk ls dataFilePath e =
     (case ls (store e) dataFilePath of
        None \<Rightarrow> Ret e
      | Some names \<Rightarrow> load_metrics mem junk ls dataFilePath names e)"

section \<open>Framing\<close>

text \<open>No line of the text is longer than 7166 bytes, with \<open>n\<close> bytes of the first one seen.\<close>

primrec short_lines :: "nat \<Rightarrow> string \<Rightarrow> bool" where
  "short_lines n [] \<longleftrightarrow> True"
| "short_lines n (c # cs) \<longleftrightarrow> (if is_nl c then short_lines 0 cs else n < 7166 \<and> short_lines (Suc n) cs)"

lemma short_lines_mono: "short_lines n s \<Longrightarrow> k \<le> n \<Longrightarrow> short_lines k s"
  by (induction s arbitrary: n k) (auto split: if_splits)

lemma short_lines_after: "short_lines n (s @ c # t) \<Longrightarrow> is_nl c \<Longrightarrow> short_lines 0 t"
  by (induction s arbitrary: n) (auto split: if_splits intro: short_lines_mono)

lemma short_lines_length: "short_lines n (s @ t) \<Longrightarrow> \<forall>c \<in> set s. \<not> is_nl c \<Longrightarrow> s \<noteq> [] \<Longrightarrow> n + length s \<le> 7166"
proof (induction s arbitrary: n)
  case Nil
  then show ?case by simp
next
  case (Cons c s)
  then have "n < 7166" "short_lines (Suc n) (s @ t)" by simp_all
  with Cons.IH [of "Suc n"] Cons.prems(2) show ?case by (cases "s = []") auto
qed

lemma handle_lines_none: "\<forall>c \<in> set s. \<not> is_nl c \<Longrightarrow> handle_lines env s sent e = Ret (Next, s, sent, e)"
  by (simp add: handle_lines.simps [of env s] dropWhile_eq_Nil_conv [THEN iffD2])

lemma handle_lines_first:
  assumes "\<forall>c \<in> set w. \<not> is_nl c" "is_nl c"
  shows "handle_lines env (w @ c # s) sent e =
    (case handle_line env (w @ newline) sent e of
       UB u \<Rightarrow> UB u
     | Ret (out, sent, e) \<Rightarrow> if out = Next then handle_lines env s sent e else Ret (out, s, sent, e))"
proof -
  have "dropWhile (\<lambda>c. \<not> is_nl c) (w @ c # s) = c # s" "takeWhile (\<lambda>c. \<not> is_nl c) (w @ c # s) = w"
    using assms by (simp_all add: dropWhile_append2 takeWhile_append2)
  then show ?thesis
    unfolding handle_lines.simps [of env "w @ c # s"] by (simp only: Let_def list.sel list.distinct if_False)
qed

lemma split_line:
  obtains (none) "\<forall>c \<in> set s. \<not> is_nl c"
    | (line) w c t where "s = w @ c # t" "is_nl c" "\<forall>c \<in> set w. \<not> is_nl c"
  by (cases "\<exists>c \<in> set s. is_nl c") (auto dest!: split_list_first_prop)

text \<open>Lines that came in two parts of the stream are answered like those of the whole.\<close>

definition then_lines ::
    "env \<Rightarrow> string \<Rightarrow> (line_outcome \<times> string \<times> string list \<times> engine) c_result \<Rightarrow>
     (line_outcome \<times> string \<times> string list \<times> engine) c_result" where
  "then_lines env t r =
     (case r of
        UB u \<Rightarrow> UB u
      | Ret (out, rest, sent, e) \<Rightarrow>
          if out = Next then handle_lines env (rest @ t) sent e else Ret (out, rest @ t, sent, e))"

lemma handle_lines_append: "handle_lines env (s @ t) sent e = then_lines env t (handle_lines env s sent e)"
proof (induction "length s" arbitrary: s sent e rule: less_induct)
  case less
  show ?case
  proof (cases s rule: split_line)
    case none
    then show ?thesis by (simp add: handle_lines_none then_lines_def)
  next
    case (line w c u)
    note parts = handle_lines_first [OF line(3,2), of env u] handle_lines_first [OF line(3,2), of env "u @ t"]
    show ?thesis
    proof (cases "handle_line env (w @ newline) sent e")
      case (UB x)
      then show ?thesis by (simp add: line(1) parts then_lines_def)
    next
      case (Ret r)
      obtain out sent' e' where r: "r = (out, sent', e')" by (cases r)
      have "length u < length s" by (simp add: line(1))
      from less.hyps [OF this, of sent' e'] show ?thesis
        by (simp add: line(1) parts Ret r) (simp add: then_lines_def)
    qed
  qed
qed

text \<open>When every \<open>send\<close> succeeds, what is left of the buffer is an unfinished line.\<close>

lemma handle_line_sends: "(\<And>s. env_send env s) \<Longrightarrow> handle_line env raw sent e = Ret (out, sent', e') \<Longrightarrow>
    out \<noteq> SendFailed \<and> (\<exists>text. sent' = sent @ [text])"
  by (auto simp: handle_line_def send_text_def Let_def split: c_result.splits option.splits if_splits)

lemma handle_lines_rest:
  "(\<And>s. env_send env s) \<Longrightarrow> handle_lines env s sent e = Ret (out, rest, sent', e') \<Longrightarrow>
     out \<noteq> SendFailed \<and> (out = Next \<longrightarrow> (\<forall>c \<in> set rest. \<not> is_nl c) \<and> (\<forall>t. short_lines 0 (s @ t) \<longrightarrow> short_lines 0 (rest @ t)))"
proof (induction "length s" arbitrary: s sent e rule: less_induct)
  case less
  show ?case
  proof (cases s rule: split_line)
    case none
    with less.prems(2) show ?thesis by (auto simp: handle_lines_none)
  next
    case (line w c u)
    note part = handle_lines_first [OF line(3,2), of env u sent e]
    obtain out1 sent1 e1 where one: "handle_line env (w @ newline) sent e = Ret (out1, sent1, e1)"
      using less.prems(2) by (auto simp: line(1) part split: c_result.splits)
    note ok = handle_line_sends [OF less.prems(1) one]
    show ?thesis
    proof (cases "out1 = Next")
      case False
      then show ?thesis using less.prems(2) ok by (auto simp: line(1) part one)
    next
      case True
      then have "handle_lines env u sent1 e1 = Ret (out, rest, sent', e')"
        using less.prems(2) by (simp add: line(1) part one)
      moreover have "length u < length s" by (simp add: line(1))
      ultimately have "out \<noteq> SendFailed \<and> (out = Next \<longrightarrow> (\<forall>c \<in> set rest. \<not> is_nl c) \<and>
          (\<forall>t. short_lines 0 (u @ t) \<longrightarrow> short_lines 0 (rest @ t)))"
        using less.hyps less.prems(1) by blast
      moreover have "short_lines 0 (s @ t) \<Longrightarrow> short_lines 0 (u @ t)" for t
        using short_lines_after [of 0 w c "u @ t"] line(2) by (simp add: line(1))
      ultimately show ?thesis by blast
    qed
  qed
qed

definition stream_answers :: "env \<Rightarrow> string \<Rightarrow> string list \<Rightarrow> engine \<Rightarrow> (string list \<times> engine) c_result" where
  "stream_answers env s sent e =
     (case handle_lines env s sent e of UB u \<Rightarrow> UB u | Ret (out, rest, sent, e) \<Rightarrow> Ret (sent, e))"

lemma client_loop_stream:
  assumes "\<And>s. env_send env s"
  shows "\<forall>t \<in> set recvs. t \<noteq> [] \<and> length t \<le> 1024 \<Longrightarrow> \<forall>c \<in> set inbuf. \<not> is_nl c \<Longrightarrow>
    short_lines 0 (inbuf @ concat recvs) \<Longrightarrow>
    client_loop env recvs inbuf sent e = stream_answers env (inbuf @ concat recvs) sent e"
proof (induction recvs arbitrary: inbuf sent e)
  case Nil
  then show ?case by (simp add: stream_answers_def handle_lines_none)
next
  case (Cons tmp recvs)
  have tmp: "tmp \<noteq> []" "length tmp \<le> 1024" using Cons.prems(1) by simp_all
  have "length inbuf \<le> 7166"
    using short_lines_length [of 0 inbuf "concat (tmp # recvs)"] Cons.prems(2,3) by (cases "inbuf = []") simp_all
  with tmp have recv: "recv_bytes env tmp inbuf sent e = handle_lines env (inbuf @ tmp) sent e"
    by (simp add: recv_bytes_def)
  have whole: "handle_lines env (inbuf @ concat (tmp # recvs)) sent e =
      then_lines env (concat recvs) (handle_lines env (inbuf @ tmp) sent e)"
    using handle_lines_append [of env "inbuf @ tmp" "concat recvs"] by simp
  show ?case
  proof (cases "handle_lines env (inbuf @ tmp) sent e")
    case (UB u)
    then show ?thesis using tmp(1) by (simp add: recv stream_answers_def whole [simplified] then_lines_def)
  next
    case (Ret r)
    obtain out rest sent' e' where r: "r = (out, rest, sent', e')" by (cases r)
    note left = handle_lines_rest [OF assms Ret [unfolded r]]
    show ?thesis
    proof (cases "out = Next")
      case False
      then have "out = Quit" using left by (cases out) simp_all
      with Ret r tmp(1) show ?thesis by (simp add: recv stream_answers_def whole [simplified] then_lines_def)
    next
      case True
      then have "client_loop env recvs rest sent' e' = stream_answers env (rest @ concat recvs) sent' e'"
        using Cons.prems left by (intro Cons.IH) auto
      with Ret r True tmp(1) show ?thesis by (simp add: recv stream_answers_def whole [simplified] then_lines_def)
    qed
  qed
qed

text \<open>C8: how the network cuts the byte stream of a client does not matter: as long as no line,
  finished or not, is longer than 7166 bytes, the connection answers and changes the engine exactly
  as if the whole stream had been cut into lines at once, whatever the sizes of the pieces that
  recv returned. Every piece has at most the 1024 bytes that are asked for.\<close>

theorem handleClient_framing:
  assumes "\<And>s. env_send env s" and "\<forall>t \<in> set recvs. t \<noteq> [] \<and> length t \<le> 1024"
    and "short_lines 0 (concat recvs)"
  shows "handleClient env recvs e = stream_answers env (concat recvs) [] e"
  using client_loop_stream [OF assms(1,2), of "[]" "[]" e] assms(3) by (simp add: handleClient_def)

text \<open>An environment in which everything succeeds.\<close>

definition sample_env :: env where
  "sample_env =
     \<lparr>env_mem = \<lambda>_. True, env_junk = 0, env_request = blank_request, env_ls = \<lambda>_ _. None,
      env_global = ''data'', env_dataDir = ''data'', env_send = \<lambda>_. True\<rparr>"

lemma sample_send [simp]: "env_send sample_env s"
  by (simp add: sample_env_def)

lemma sample_line_foo:
  "handle_line sample_env (''FOO'' @ newline) sent e = Ret (Next, sent @ [''Invalid Command!'' @ newline], e)"
proof -
  have "getRequest (\<lambda>_. True) blank_request (line_text (''FOO'' @ newline)) = Ret None" by code_simp
  then show ?thesis by (simp add: handle_line_def sample_env_def send_text_def)
qed

lemma sample_line_quit:
  "handle_line sample_env (''QUIT'' @ newline) sent e = Ret (Quit, sent @ [''quit'' @ newline], e)"
proof -
  have "getRequest (\<lambda>_. True) blank_request (line_text (''QUIT'' @ newline)) =
      Ret (Some (blank_request\<lparr>rq_type := QUIT\<rparr>))" by code_simp
  then show ?thesis by (simp add: handle_line_def sample_env_def send_text_def ProcessRequest_def)
qed

lemma sample_lines:
  "handle_lines sample_env (''FOO'' @ CHR 0x0A # s) sent e =
     handle_lines sample_env s (sent @ [''Invalid Command!'' @ newline]) e"
  "handle_lines sample_env (''QUIT'' @ CHR 0x0A # s) sent e = Ret (Quit, s, sent @ [''quit'' @ newline], e)"
proof -
  have nl: "is_nl CHR 0x0A" and words: "\<forall>c \<in> set ''FOO''. \<not> is_nl c" "\<forall>c \<in> set ''QUIT''. \<not> is_nl c"
    by (simp_all add: is_nl_def)
  show "handle_lines sample_env (''FOO'' @ CHR 0x0A # s) sent e =
      handle_lines sample_env s (sent @ [''Invalid Command!'' @ newline]) e"
    unfolding handle_lines_first [OF words(1) nl] sample_line_foo by simp
  show "handle_lines sample_env (''QUIT'' @ CHR 0x0A # s) sent e = Ret (Quit, s, sent @ [''quit'' @ newline], e)"
    unfolding handle_lines_first [OF words(2) nl] sample_line_quit by simp
qed

theorem handleClient_framing_witness:
  "handleClient sample_env [''FO'', ''O'' @ newline @ ''QU'', ''IT'' @ newline @ ''x''] sample_engine =
     Ret ([''Invalid Command!'' @ newline, ''quit'' @ newline], sample_engine)"
proof -
  let ?recvs = "[''FO'', ''O'' @ newline @ ''QU'', ''IT'' @ newline @ ''x'']"
  have pieces: "\<forall>t \<in> set ?recvs. t \<noteq> [] \<and> length t \<le> 1024" by (simp add: newline_def)
  have short: "short_lines 0 (concat ?recvs)" by (simp add: newline_def is_nl_def)
  have run: "stream_answers sample_env (concat ?recvs) [] sample_engine =
      Ret ([''Invalid Command!'' @ newline, ''quit'' @ newline], sample_engine)"
    using sample_lines(1) [of "''QUIT'' @ CHR 0x0A # ''x''" "[]" sample_engine]
      sample_lines(2) [of "''x''" "[''Invalid Command!'' @ newline]" sample_engine]
    by (simp add: stream_answers_def newline_def)
  show ?thesis by (rule trans [OF handleClient_framing [OF sample_send pieces short] run])
qed

section \<open>Answers\<close>

definition line_count :: "string \<Rightarrow> nat" where
  "line_count s = length (filter is_nl s)"

lemma handle_line_quit:
  "handle_line env raw sent e = Ret (Quit, sent', e') \<Longrightarrow> env_send env sent \<Longrightarrow> last sent' = ''quit'' @ newline"
  by (auto simp: handle_line_def send_text_def Let_def split: c_result.splits option.splits if_splits)

lemma handle_lines_count:
  assumes send: "\<And>s. env_send env s"
  shows "handle_lines env s sent e = Ret (out, rest, sent', e') \<Longrightarrow>
    length sent' + line_count rest = length sent + line_count s \<and>
    (out = Next \<longrightarrow> line_count rest = 0) \<and> (out = Quit \<longrightarrow> last sent' = ''quit'' @ newline)"
proof (induction "length s" arbitrary: s sent e rule: less_induct)
  case less
  show ?case
  proof (cases s rule: split_line)
    case none
    with less.prems show ?thesis by (auto simp: handle_lines_none line_count_def filter_empty_conv)
  next
    case (line w c u)
    note part = handle_lines_first [OF line(3,2), of env u sent e]
    have count: "line_count s = line_count u + 1"
      using line(2,3) by (simp add: line(1) line_count_def filter_empty_conv [THEN iffD2])
    obtain out1 sent1 e1 where one: "handle_line env (w @ newline) sent e = Ret (out1, sent1, e1)"
      using less.prems by (auto simp: line(1) part split: c_result.splits)
    have sent1: "length sent1 = length sent + 1" using handle_line_sends [OF send one] by auto
    show ?thesis
    proof (cases "out1 = Next")
      case False
      then show ?thesis
        using less.prems one count sent1 handle_line_quit [of env "w @ newline" sent e sent1 e1] send
        by (auto simp: line(1) part)
    next
      case True
      then have "handle_lines env u sent1 e1 = Ret (out, rest, sent', e')"
        using less.prems by (simp add: line(1) part one)
      moreover have "length u < length s" by (simp add: line(1))
      ultimately show ?thesis using less.hyps count sent1 by fastforce
    qed
  qed
qed



section \<open>Options\<close>

datatype server_option = OptPort int | OptData string | OptRetention string

fun option_words :: "server_option \<Rightarrow> string list" where
  "option_words (OptPort n) = [''--port'', show_int n]"
| "option_words (OptData dir) = [''--data'', dir]"
| "option_words (OptRetention spec) = [''--retention'', spec]"

fun option_ok :: "server_option \<Rightarrow> bool" where
  "option_ok (OptPort n) \<longleftrightarrow> - (2 ^ 31) \<le> n \<and> n < 2 ^ 31"
| "option_ok (OptData dir) \<longleftrightarrow> length dir < 256"
| "option_ok (OptRetention spec) \<longleftrightarrow> True"

fun apply_option :: "server_option \<Rightarrow> int \<times> string \<times> RetentionConfig \<Rightarrow> int \<times> string \<times> RetentionConfig" where
  "apply_option (OptPort n) (port, dir, cfg) = (n, dir, cfg)"
| "apply_option (OptData d) (port, dir, cfg) = (port, d, cfg)"
| "apply_option (OptRetention spec) (port, dir, cfg) = (port, dir, snd (retention_add_rule cfg spec))"

lemma handleArguements_options:
  "\<forall>opt \<in> set opts. option_ok opt \<Longrightarrow>
     handleArguements (concat (map option_words opts) @ rest) st = handleArguements rest (fold apply_option opts st)"
proof (induction opts arbitrary: st)
  case Nil
  then show ?case by simp
next
  case (Cons opt opts)
  obtain port dir cfg where st: "st = (port, dir, cfg)" by (cases st)
  with Cons show ?case by (cases opt) (simp_all add: atoi_show_int)
qed

text \<open>The options of the command line are taken in order, a later one over an earlier one of its
  kind and every retention rule added, up to a data directory of 256 characters or more, which is
  copied past the end of the array that main declares for it.\<close>

theorem main_arguments_options:
  assumes "program \<notin> {''--port'', ''--data'', ''--retention''}" and "\<forall>opt \<in> set opts. option_ok opt"
    and "length dir \<ge> 256"
  shows "main_arguments (program # concat (map option_words opts)) =
      Ret (fold apply_option opts (8088, ''./data'', \<lparr>rules = [], rule_count = 0\<rparr>)) \<and>
    main_arguments (program # concat (map option_words (opts @ [OptData dir]))) = UB StackOverflow"
proof -
  have skip: "handleArguements (program # words) st = handleArguements words st" for words st
    using assms(1) by (cases st; cases words) simp_all
  show ?thesis
    using handleArguements_options [OF assms(2), of "[]"] handleArguements_options [OF assms(2), of "[''--data'', dir]"] assms(3)
    by (cases "fold apply_option opts (8088, ''./data'', \<lparr>rules = [], rule_count = 0\<rparr>)")
      (simp add: main_arguments_def skip)
qed

theorem main_arguments_options_witness:
  "main_arguments [''tsdb'', ''--port'', show_int 5555, ''--data'', ''/srv''] =
     Ret (5555, ''/srv'', \<lparr>rules = [], rule_count = 0\<rparr>)"
proof -
  let ?opts = "[OptPort 5555, OptData ''/srv'']"
  have ok: "\<forall>opt \<in> set ?opts. option_ok opt" by simp
  have program: "''tsdb'' \<notin> {''--port'', ''--data'', ''--retention''}" by simp
  from main_arguments_options [OF program ok, of "replicate 256 (CHR ''a'')"] show ?thesis by simp
qed

end
