(* ===== verification/Restart.thy ===== *)
theory Restart
  imports Server
begin

text \<open>
  What \<open>loadRegistry\<close> rebuilds: for every directory of the data directory an entry whose chunks are
  the readable chunk files, in the order of \<open>readdir\<close>, and whose head block holds the points of the
  log.
\<close>

section \<open>Chunks of one metric\<close>

definition file_path :: "string \<Rightarrow> string \<Rightarrow> string" where
  "file_path dir name = dir @ ''/'' @ name"

definition dir_points :: "allocator \<Rightarrow> disk \<Rightarrow> string \<Rightarrow> string list \<Rightarrow> point list" where
  "dir_points mem d dir names =
     concat (map (\<lambda>name. chunk_points mem d (file_path dir name)) (filter (\<lambda>name. strstr name ''.chunk'') names))"

definition chunk_list_points :: "allocator \<Rightarrow> disk \<Rightarrow> ChunkMetadata list \<Rightarrow> point list" where
  "chunk_list_points mem d cms = concat (map (\<lambda>cm. chunk_points mem d (filename cm)) cms)"

lemma loadChunkMetadata_record:
  assumes "registry_find m (registry e) = Some i" "entry_inv (registry e ! i)"
  shows "loadChunkMetadata mem m path e =
    (case chunkread mem path (store e) of
       None \<Rightarrow> Ret e
     | Some (header, payload) \<Rightarrow>
         (case record_chunk (registry e ! i)
                 \<lparr>start_ts = startts header, end_ts = endts header, filename = bounded 256 path\<rparr> of
            UB u \<Rightarrow> UB u
          | Ret en \<Rightarrow> Ret (e\<lparr>registry := (registry e)[i := en]\<rparr>)))"
proof -
  have "chunkCapacity (registry e ! i) \<noteq> 0" using assms(2) by (auto simp: entry_inv_def)
  then show ?thesis
    using assms(1) by (auto simp: loadChunkMetadata_def record_chunk_def Let_def split: option.split)
qed

lemma loadChunkMetadata_Ret:
  assumes find: "registry_find m (registry e) = Some i" and inv: "entry_inv (registry e ! i)"
    and few: "chunkCount (registry e ! i) < 16384" and path: "length path < 256"
  shows "\<exists>en. loadChunkMetadata mem m path e = Ret (e\<lparr>registry := (registry e)[i := en]\<rparr>) \<and>
    entry_inv en \<and> mkey en = mkey (registry e ! i) \<and> mhead en = mhead (registry e ! i) \<and>
    chunkCount en \<le> chunkCount (registry e ! i) + 1 \<and>
    chunk_list_points mem (store e) (live_chunks en) =
      chunk_list_points mem (store e) (live_chunks (registry e ! i)) @ chunk_points mem (store e) path"
proof (cases "chunkread mem path (store e)")
  case None
  have "e\<lparr>registry := (registry e)[i := registry e ! i]\<rparr> = e" by (cases e) simp
  with None inv show ?thesis
    by (intro exI [of _ "registry e ! i"]) (simp add: loadChunkMetadata_record [OF find inv] chunk_points_def)
next
  case (Some hp)
  obtain header payload where hp: "hp = (header, payload)" by force
  let ?en = "registry e ! i"
  let ?cm = "\<lparr>start_ts = startts header, end_ts = endts header, filename = path\<rparr>"
  obtain cap where rec: "record_chunk ?en ?cm = Ret (?en\<lparr>chunkCapacity := cap,
      chunks := store_at (chunks ?en) (chunkCount ?en) ?cm, chunkCount := chunkCount ?en + 1\<rparr>)"
    and cap: "int (chunkCount ?en) + 1 \<le> cap"
      "cap \<in> {4, 8, 16, 32, 64, 128, 256, 512, 1024, 2048, 4096, 8192, 16384}"
    by (rule record_chunk_Ret [OF inv few, of ?cm], rule that)
  let ?en' = "?en\<lparr>chunkCapacity := cap, chunks := store_at (chunks ?en) (chunkCount ?en) ?cm,
      chunkCount := chunkCount ?en + 1\<rparr>"
  have "entry_inv ?en'" using inv cap by (auto simp: entry_inv_def length_store_at)
  moreover have "live_chunks ?en' = live_chunks ?en @ [?cm]"
    using live_chunks_recorded [OF inv, where cap = cap and cm = ?cm and h = "mhead ?en"] by (simp add: live_chunks_def)
  moreover have "loadChunkMetadata mem m path e = Ret (e\<lparr>registry := (registry e)[i := ?en']\<rparr>)"
    using path rec by (simp add: loadChunkMetadata_record [OF find inv] Some hp)
  ultimately show ?thesis by (intro exI [of _ ?en']) (simp add: chunk_list_points_def)
qed

lemma load_chunks_Ret:
  "registry_find m (registry e) = Some i \<Longrightarrow> entry_inv (registry e ! i) \<Longrightarrow>
   chunkCount (registry e ! i) + length names \<le> 16384 \<Longrightarrow>
   \<forall>name \<in> set names. length (file_path dir name) < 256 \<Longrightarrow>
   \<exists>en. load_chunks mem m dir names e = Ret (e\<lparr>registry := (registry e)[i := en]\<rparr>) \<and>
     entry_inv en \<and> mkey en = mkey (registry e ! i) \<and> mhead en = mhead (registry e ! i) \<and>
     chunk_list_points mem (store e) (live_chunks en) =
       chunk_list_points mem (store e) (live_chunks (registry e ! i)) @ dir_points mem (store e) dir names"
proof (induction names arbitrary: e)
  case Nil
  have "e\<lparr>registry := (registry e)[i := registry e ! i]\<rparr> = e" by (cases e) simp
  with Nil show ?case by (intro exI [of _ "registry e ! i"]) (simp add: dir_points_def)
next
  case (Cons name names)
  show ?case
  proof (cases "strstr name ''.chunk''")
    case False
    with Cons show ?thesis by (simp add: dir_points_def)
  next
    case True
    let ?path = "file_path dir name"
    have few: "chunkCount (registry e ! i) < 16384" "length ?path < 256" using Cons.prems(3,4) by simp_all
    obtain en where en: "loadChunkMetadata mem m ?path e = Ret (e\<lparr>registry := (registry e)[i := en]\<rparr>)"
      "entry_inv en" "mkey en = mkey (registry e ! i)" "mhead en = mhead (registry e ! i)"
      "chunkCount en \<le> chunkCount (registry e ! i) + 1"
      "chunk_list_points mem (store e) (live_chunks en) =
         chunk_list_points mem (store e) (live_chunks (registry e ! i)) @ chunk_points mem (store e) ?path"
      using loadChunkMetadata_Ret [OF Cons.prems(1,2) few, of mem] by blast
    let ?e1 = "e\<lparr>registry := (registry e)[i := en]\<rparr>"
    have i: "i < length (registry e)" using registry_find_Some [OF Cons.prems(1)] by simp
    have "registry_find m (registry ?e1) = Some i" "entry_inv (registry ?e1 ! i)"
      "chunkCount (registry ?e1 ! i) + length names \<le> 16384"
      "\<forall>name \<in> set names. length (file_path dir name) < 256"
      using Cons.prems i en(2,3,5) by simp_all
    from Cons.IH [OF this] obtain en' where
      "load_chunks mem m dir names ?e1 = Ret (?e1\<lparr>registry := (registry ?e1)[i := en']\<rparr>)"
      "entry_inv en'" "mkey en' = mkey en" "mhead en' = mhead en"
      "chunk_list_points mem (store e) (live_chunks en') =
         chunk_list_points mem (store e) (live_chunks en) @ dir_points mem (store e) dir names"
      using i by auto
    moreover have "bounded 1024 (dir @ ''/'' @ name) = ?path"
      using few(2) unfolding file_path_def by (intro bounded_id) simp
    ultimately show ?thesis
      using True en i by (intro exI [of _ en']) (simp add: dir_points_def del: append_Cons)
  qed
qed

section \<open>One metric\<close>

text \<open>The directory of a metric as the engine leaves it, under the given name.\<close>

definition metric_dir_ok ::
    "(disk \<Rightarrow> string \<Rightarrow> string list option) \<Rightarrow> string \<Rightarrow> disk \<Rightarrow> string \<Rightarrow> bool" where
  "metric_dir_ok ls dataDir d m \<longleftrightarrow>
     m \<noteq> ''.'' \<and> m \<noteq> ''..'' \<and> length m < 64 \<and> length (file_path dataDir m) < 256 \<and>
     dirs d (file_path dataDir m) \<and> \<not> denied d (build_wal_path 512 dataDir m) \<and>
     (case ls d (file_path dataDir m) of
        None \<Rightarrow> False
      | Some names \<Rightarrow> length names \<le> 16384 \<and>
          (\<forall>name \<in> set names. length (file_path (file_path dataDir m) name) < 256))"

definition dir_names :: "(disk \<Rightarrow> string \<Rightarrow> string list option) \<Rightarrow> string \<Rightarrow> disk \<Rightarrow> string \<Rightarrow> string list" where
  "dir_names ls dataDir d m = (case ls d (file_path dataDir m) of None \<Rightarrow> [] | Some names \<Rightarrow> names)"

text \<open>The points on disk of a metric: those of its chunk files, then those of its log that are newer
  than all before them, up to the capacity of a head block whose memory held \<open>junk\<close>.\<close>

definition disk_points ::
    "allocator \<Rightarrow> (disk \<Rightarrow> string \<Rightarrow> string list option) \<Rightarrow> string \<Rightarrow> long \<Rightarrow> disk \<Rightarrow> string \<Rightarrow> point list" where
  "disk_points mem ls dataDir junk d m =
     dir_points mem d (file_path dataDir m) (dir_names ls dataDir d m) @
     map stored_point (take HEAD_CAPACITY (newer junk (wal_contents dataDir m d)))"

text \<open>An entry that holds what is on disk under its name.\<close>

definition loaded ::
    "allocator \<Rightarrow> (disk \<Rightarrow> string \<Rightarrow> string list option) \<Rightarrow> string \<Rightarrow> long \<Rightarrow> disk \<Rightarrow> string \<Rightarrow> metric_registry \<Rightarrow> bool" where
  "loaded mem ls dataDir junk d m en \<longleftrightarrow>
     mkey en = m \<and> entry_inv en \<and> entry_points mem d en = disk_points mem ls dataDir junk d m"

lemma set_head_last:
  "set_head (e\<lparr>registry := reg @ [en]\<rparr>) (length reg) h = e\<lparr>registry := reg @ [en\<lparr>mhead := Some h\<rparr>]\<rparr>"
  by (simp add: set_head_def)

lemma load_metric_loaded:
  assumes mem: "\<And>k. mem k" and ok: "metric_dir_ok ls dataDir (store e) m"
    and new: "m \<notin> mkey ` set (registry e)"
  shows "\<exists>en. load_metric mem junk ls dataDir m e = Ret (e\<lparr>registry := registry e @ [en]\<rparr>) \<and>
    loaded mem ls dataDir junk (store e) m en"
proof -
  let ?d = "store e" and ?dir = "file_path dataDir m" and ?i = "length (registry e)"
  let ?h = "empty_head junk" and ?e0 = "e\<lparr>registry := registry e @ [new_entry mem junk m]\<rparr>"
  obtain names where names: "ls ?d ?dir = Some names" "length names \<le> 16384"
    "\<forall>name \<in> set names. length (file_path ?dir name) < 256"
    using ok by (auto simp: metric_dir_ok_def split: option.splits)
  have len: "length m < 64" using ok by (simp add: metric_dir_ok_def)
  note props = new_entry_props [where mem = mem, OF mem]
  have entry: "mkey (new_entry mem junk m) = m" "mhead (new_entry mem junk m) = Some ?h" "chunkCount (new_entry mem junk m) = 0"
    using len mem by (simp_all add: new_entry_def getNewHeadBlock_def empty_head_def)
  have none: "registry_find m (registry e) = None" using new by (simp add: registry_find_None)
  have create: "getMetricFromHashTable mem junk m True (registry e) = Ret (Some ?i, registry e @ [new_entry mem junk m])"
    using none entry(2) by (simp add: getMetricFromHashTable_def entry_head_def)
  have find0: "registry_find m (registry ?e0) = Some ?i" using none entry(1) by (simp add: registry_find_append)
  have "entry_inv (registry ?e0 ! ?i)" "chunkCount (registry ?e0 ! ?i) + length names \<le> 16384"
    using props(1) entry(3) names(2) by simp_all
  from load_chunks_Ret [OF find0 this names(3), of mem] obtain en where
    load: "load_chunks mem m ?dir names ?e0 = Ret (e\<lparr>registry := registry e @ [en]\<rparr>)"
    and en: "entry_inv en" "mkey en = m" "mhead en = Some ?h"
      "chunk_list_points mem ?d (live_chunks en) = dir_points mem ?d ?dir names"
    using props(2) entry(1,2) by (auto simp: chunk_list_points_def)
  let ?e1 = "e\<lparr>registry := registry e @ [en]\<rparr>" and ?h1 = "wal_replay dataDir m ?d ?h"
  have again: "getMetricFromHashTable mem junk m False (registry ?e1) = Ret (Some ?i, registry ?e1)"
    using none en(2,3) by (simp add: getMetricFromHashTable_def entry_head_def registry_find_append)
  have path: "bounded 512 (dataDir @ ''/'' @ m) = ?dir"
    using ok unfolding metric_dir_ok_def file_path_def by (intro bounded_id) simp
  have head: "head_at ?e1 ?i = ?h" using en(3) by (simp add: head_at_def)
  have "m \<noteq> ''.''" "m \<noteq> ''..''" "dirs ?d ?dir" using ok by (simp_all add: metric_dir_ok_def)
  moreover have store: "store (e\<lparr>registry := r\<rparr>) = store e" for r by simp
  ultimately have run: "load_metric mem junk ls dataDir m e = Ret (e\<lparr>registry := registry e @ [en\<lparr>mhead := Some ?h1\<rparr>]\<rparr>)"
    using head set_head_last [where e = e and reg = "registry e" and en = en and h = ?h1]
    by (simp only: load_metric_def path Let_def create names(1) load again c_result.case prod.case option.case
        if_False not_True_eq_False simp_thms store)
  have "\<not> denied ?d (build_wal_path 512 dataDir m)" using ok by (simp add: metric_dir_ok_def)
  note replay = wal_replay_points [OF head_inv_empty_head this, of junk]
  have "entry_inv (en\<lparr>mhead := Some ?h1\<rparr>)" using en(1) replay(1) by (simp add: entry_inv_def)
  moreover have "head_points ?h1 = take HEAD_CAPACITY (newer junk (wal_contents dataDir m ?d))"
    using replay(2) by (simp add: head_points_Nil)
  then have "entry_points mem ?d (en\<lparr>mhead := Some ?h1\<rparr>) = disk_points mem ls dataDir junk ?d m"
    using en(4) by (simp add: entry_points_def disk_points_def dir_names_def names(1) ram_points_def
        chunk_list_points_def live_chunks_def)
  ultimately show ?thesis using run en(2) by (auto simp: loaded_def)
qed

section \<open>The whole directory\<close>

lemma load_metrics_loaded:
  assumes mem: "\<And>k. mem k"
  shows "\<forall>m \<in> set names. metric_dir_ok ls dataDir (store e) m \<Longrightarrow> distinct names \<Longrightarrow>
    set names \<inter> mkey ` set (registry e) = {} \<Longrightarrow>
    \<exists>ens. load_metrics mem junk ls dataDir names e = Ret (e\<lparr>registry := registry e @ ens\<rparr>) \<and>
      list_all2 (loaded mem ls dataDir junk (store e)) names ens"
proof (induction names arbitrary: e)
  case Nil
  then show ?case by (intro exI [of _ "[]"]) simp
next
  case (Cons m names)
  have m: "metric_dir_ok ls dataDir (store e) m" "m \<notin> mkey ` set (registry e)" using Cons.prems by auto
  obtain en where en: "load_metric mem junk ls dataDir m e = Ret (e\<lparr>registry := registry e @ [en]\<rparr>)"
    "loaded mem ls dataDir junk (store e) m en"
    using load_metric_loaded [where mem = mem, OF mem m] by blast
  let ?e1 = "e\<lparr>registry := registry e @ [en]\<rparr>"
  have "mkey en = m" using en(2) by (simp add: loaded_def)
  then have "\<forall>m \<in> set names. metric_dir_ok ls dataDir (store ?e1) m" "distinct names"
    "set names \<inter> mkey ` set (registry ?e1) = {}" using Cons.prems by auto
  from Cons.IH [OF this] obtain ens where
    "load_metrics mem junk ls dataDir names ?e1 = Ret (e\<lparr>registry := registry e @ en # ens\<rparr>)"
    "list_all2 (loaded mem ls dataDir junk (store e)) names ens" by auto
  with en show ?case by (intro exI [of _ "en # ens"]) simp
qed

lemma loadRegistry_entries:
  assumes mem: "\<And>k. mem k" and names: "ls d dataDir = Some names" "distinct names"
    and ok: "\<forall>m \<in> set names. metric_dir_ok ls dataDir d m"
  shows "\<exists>ens. loadRegistry mem junk ls dataDir \<lparr>registry = [], store = d\<rparr> = Ret \<lparr>registry = ens, store = d\<rparr> \<and>
    list_all2 (loaded mem ls dataDir junk d) names ens \<and> map mkey ens = names \<and>
    engine_inv \<lparr>registry = ens, store = d\<rparr>"
proof -
  let ?e = "\<lparr>registry = [], store = d\<rparr>"
  have "\<forall>m \<in> set names. metric_dir_ok ls dataDir (store ?e) m" "set names \<inter> mkey ` set (registry ?e) = {}"
    using ok by simp_all
  from load_metrics_loaded [where mem = mem and junk = junk, OF mem this(1) names(2) this(2)] obtain ens where
    load: "load_metrics mem junk ls dataDir names ?e = Ret \<lparr>registry = ens, store = d\<rparr>"
    and all: "list_all2 (loaded mem ls dataDir junk d) names ens" by auto
  have keys: "map mkey ens = names"
    using all by (induction rule: list_all2_induct) (simp_all add: loaded_def)
  moreover have "\<forall>en \<in> set ens. entry_inv en"
    using all by (auto simp: list_all2_conv_all_nth in_set_conv_nth loaded_def)
  ultimately have "engine_inv \<lparr>registry = ens, store = d\<rparr>" using names(2) by (simp add: engine_inv_def)
  with load all keys names(1) show ?thesis by (simp add: loadRegistry_def)
qed


text \<open>A directory with one chunk of the point 1.0 at 60 and a log with the point 1.5 at 110.\<close>

definition restart_disk :: disk where
  "restart_disk =
     \<lparr>files = [''data/cpu/cpu_60.chunk'' \<mapsto>
         [60,0,0,0, 0,0,0,0, 60,0,0,0,0,0,0,0, 60,0,0,0,0,0,0,0, 16,0,0,0, 1,0,0,0,
          0,0,0,0,0,0,0,60, 0x3F,0xF0,0,0,0,0,0,0],
       ''data/cpu/wal.log'' \<mapsto> [110,0,0,0,0,0,0,0, 0,0,0,0,0,0,0xF8,0x3F]],
      dirs = \<lambda>p. p = ''data'' \<or> p = ''data/cpu'', denied = \<lambda>_. False, room = 1000\<rparr>"

definition restart_ls :: "disk \<Rightarrow> string \<Rightarrow> string list option" where
  "restart_ls d p = (if p = ''data'' then Some [''cpu''] else Some [''cpu_60.chunk'', ''wal.log''])"


section \<open>Restart after a crash\<close>

text \<open>The directory of a metric lists its chunk files in the order of the registry.\<close>

definition listed_in_order ::
    "(disk \<Rightarrow> string \<Rightarrow> string list option) \<Rightarrow> string \<Rightarrow> disk \<Rightarrow> metric_registry \<Rightarrow> bool" where
  "listed_in_order ls dataDir d en \<longleftrightarrow>
     map (file_path (file_path dataDir (mkey en)))
       (filter (\<lambda>name. strstr name ''.chunk'') (dir_names ls dataDir d (mkey en))) = map filename (live_chunks en)"

lemma dir_points_listed:
  assumes "listed_in_order ls dataDir d en"
  shows "dir_points mem d (file_path dataDir (mkey en)) (dir_names ls dataDir d (mkey en)) =
    chunk_list_points mem d (live_chunks en)"
  using arg_cong [OF assms [unfolded listed_in_order_def], of "\<lambda>ps. concat (map (chunk_points mem d) ps)"]
  by (simp add: dir_points_def chunk_list_points_def comp_def)

lemma newer_length_eq: "length (newer t ps) = length ps \<Longrightarrow> newer t ps = ps"
proof (induction ps arbitrary: t)
  case Nil
  then show ?case by simp
next
  case (Cons p ps)
  then show ?case using length_newer [of t ps] by (cases "sint (fst p) \<le> sint t") auto
qed

lemma restart_loads:
  assumes "\<And>k. mem k" and "engine_inv e" and "ls (store e) dataDir = Some (map mkey (registry e))"
    and "\<forall>en \<in> set (registry e). metric_dir_ok ls dataDir (store e) (mkey en)"
    and "\<forall>en \<in> set (registry e). listed_in_order ls dataDir (store e) en"
    and "\<forall>en \<in> set (registry e). wal_mirrors dataDir (mkey en) e"
  shows "\<exists>e'. loadRegistry mem junk ls dataDir \<lparr>registry = [], store = store e\<rparr> = Ret e' \<and> engine_inv e' \<and>
    map mkey (registry e') = map mkey (registry e) \<and>
    (\<forall>m i. registry_find m (registry e) = Some i \<longrightarrow>
       (metric_points mem e' m = metric_points mem e m \<longleftrightarrow>
          sorted_wrt (<) (map (sint \<circ> fst) (ram_of e m)) \<and> (\<forall>p \<in> set (ram_of e m). sint junk < sint (fst p))))"
proof -
  let ?names = "map mkey (registry e)"
  have names: "distinct ?names" "\<forall>m \<in> set ?names. metric_dir_ok ls dataDir (store e) m"
    using assms(2,4) by (auto simp: engine_inv_def)
  obtain ens where load: "loadRegistry mem junk ls dataDir \<lparr>registry = [], store = store e\<rparr> =
      Ret \<lparr>registry = ens, store = store e\<rparr>"
    and all: "list_all2 (loaded mem ls dataDir junk (store e)) ?names ens" and keys: "map mkey ens = ?names"
    and inv: "engine_inv \<lparr>registry = ens, store = store e\<rparr>"
    using loadRegistry_entries [where mem = mem and ls = ls and junk = junk, OF assms(1,3) names] by blast
  have "metric_points mem \<lparr>registry = ens, store = store e\<rparr> m = metric_points mem e m \<longleftrightarrow>
      sorted_wrt (<) (map (sint \<circ> fst) (ram_of e m)) \<and> (\<forall>p \<in> set (ram_of e m). sint junk < sint (fst p))"
    if find: "registry_find m (registry e) = Some i" for m i
  proof -
    let ?en = "registry e ! i" and ?ram = "ram_of e m"
    note i = registry_find_Some [OF find]
    have len: "length ens = length (registry e)" using keys by (metis length_map)
    have "ens ! i \<in> set ens" "mkey (ens ! i) = m" using i len keys by (simp, metis nth_map)
    then have find': "registry_find m ens = Some i"
      using registry_find_distinct [of ens i] keys names(1) i len by simp
    have "loaded mem ls dataDir junk (store e) m (ens ! i)" using list_all2_nthD [OF all, of i] i by simp
    then have new: "metric_points mem \<lparr>registry = ens, store = store e\<rparr> m = disk_points mem ls dataDir junk (store e) m"
      using find' by (simp add: metric_points_def loaded_def)
    have en: "?en \<in> set (registry e)" using i by simp
    have ram: "?ram = ram_points ?en" using find by (simp add: ram_of_def)
    have old: "metric_points mem e m = chunk_list_points mem (store e) (live_chunks ?en) @ map stored_point ?ram"
      using find by (simp add: metric_points_def entry_points_def chunk_list_points_def ram)
    have "wal_contents dataDir m (store e) = ?ram" using assms(6) en i by (auto simp: wal_mirrors_def)
    moreover have "dir_points mem (store e) (file_path dataDir m) (dir_names ls dataDir (store e) m) =
        chunk_list_points mem (store e) (live_chunks ?en)" using dir_points_listed assms(5) en i by fastforce
    moreover have "length ?ram \<le> HEAD_CAPACITY" by (rule ram_of_bounded [OF assms(2)])
    then have "take HEAD_CAPACITY (newer junk ?ram) = newer junk ?ram" using length_newer [of junk ?ram] by simp
    ultimately have "metric_points mem \<lparr>registry = ens, store = store e\<rparr> m = metric_points mem e m \<longleftrightarrow>
        map stored_point (newer junk ?ram) = map stored_point ?ram"
      by (simp add: new old disk_points_def)
    also have "\<dots> \<longleftrightarrow> newer junk ?ram = ?ram"
      using newer_length_eq [of junk ?ram] by (auto dest: arg_cong [of _ _ length])
    also have "\<dots> \<longleftrightarrow> sorted_wrt (<) (map (sint \<circ> fst) ?ram) \<and> (\<forall>p \<in> set ?ram. sint junk < sint (fst p))"
      by (rule newer_all_iff)
    finally show ?thesis .
  qed
  with load inv keys show ?thesis by auto
qed


definition crashed_engine :: engine where
  "crashed_engine =
     \<lparr>registry = [\<lparr>mkey = ''cpu'', mhead = Some \<lparr>timestamps = [110], hvalues = [CDouble 0x3FF8000000000000],
          hsize = 1, lastTimestamp = 110\<rparr>,
        chunks = [\<lparr>start_ts = 60, end_ts = 60, filename = ''data/cpu/cpu_60.chunk''\<rparr>],
        chunkCount = 1, chunkCapacity = 4\<rparr>],
      store = restart_disk\<rparr>"


end
