(* ===== verification/Clients.thy ===== *)
theory Clients
  imports Restart
begin

text \<open>
  The running server: any number of connections over one engine, with the expiry and downsampling
  passes between their requests. A step is what one thread does with one \<open>recv\<close>, or one pass of a
  background thread, taken as a whole: the interleavings are those of whole steps. In the program
  the threads run side by side and take \<open>registry_lock\<close> and the lock of a head block for shorter
  stretches, so that what is shown here holds of runs whose steps do not overlap.
\<close>

record client =
  cl_inbuf :: string
  cl_sent :: "string list"
  cl_open :: bool

record server =
  srv_engine :: engine
  srv_clients :: "client list"

definition new_client :: client where
  "new_client = \<lparr>cl_inbuf = [], cl_sent = [], cl_open = True\<rparr>"

text \<open>A connection is accepted, bytes arrive, a connection ends, a background pass runs.\<close>

inductive server_step :: "env \<Rightarrow> server \<Rightarrow> server \<Rightarrow> bool" for env :: env where
  accepted: "server_step env s (s\<lparr>srv_clients := srv_clients s @ [new_client]\<rparr>)"
| received: "i < length (srv_clients s) \<Longrightarrow> cl_open (srv_clients s ! i) \<Longrightarrow> tmp \<noteq> [] \<Longrightarrow> length tmp \<le> 1024 \<Longrightarrow>
    recv_bytes env tmp (cl_inbuf (srv_clients s ! i)) (cl_sent (srv_clients s ! i)) (srv_engine s) =
      Ret (out, inbuf, sent, e) \<Longrightarrow>
    server_step env s (s\<lparr>srv_engine := e,
      srv_clients := (srv_clients s)[i := \<lparr>cl_inbuf = inbuf, cl_sent = sent, cl_open = (out \<noteq> Quit)\<rparr>]\<rparr>)"
| closed: "i < length (srv_clients s) \<Longrightarrow>
    server_step env s (s\<lparr>srv_clients := (srv_clients s)[i := (srv_clients s ! i)\<lparr>cl_open := False\<rparr>]\<rparr>)"
| expired: "server_step env s (s\<lparr>srv_engine := run_expiry cfg now (srv_engine s)\<rparr>)"
| downsampled: "downsample_run_now (env_mem env) now (env_dataDir env) (srv_engine s) = Ret e \<Longrightarrow>
    server_step env s (s\<lparr>srv_engine := e\<rparr>)"

text \<open>The states of all runs that start with an engine and no connection.\<close>

definition reachable :: "env \<Rightarrow> engine \<Rightarrow> server \<Rightarrow> bool" where
  "reachable env e s \<longleftrightarrow> (server_step env)\<^sup>*\<^sup>* \<lparr>srv_engine = e, srv_clients = []\<rparr> s"

section \<open>The engine invariant under every operation\<close>

text \<open>No allocation has to succeed for it and no file has to be usable.\<close>

lemma record_chunk_inv:
  assumes "entry_inv en" "record_chunk en cm = Ret en'" "head_inv h"
  shows "entry_inv (en'\<lparr>mhead := Some h\<rparr>) \<and> mkey en' = mkey en"
proof -
  have few: "chunkCount en < 16384" using record_chunk_full [OF assms(1), of cm] assms(2) by (cases "chunkCount en < 16384") auto
  obtain cap where "record_chunk en cm = Ret (en\<lparr>chunkCapacity := cap, chunks := store_at (chunks en) (chunkCount en) cm,
       chunkCount := chunkCount en + 1\<rparr>)" and cap: "int (chunkCount en) + 1 \<le> cap"
    "cap \<in> {4, 8, 16, 32, 64, 128, 256, 512, 1024, 2048, 4096, 8192, 16384}"
    by (rule record_chunk_Ret [OF assms(1) few, of cm], rule that)
  with assms(2) entry_inv_recorded [OF assms(1,3) cap, of cm] show ?thesis by auto
qed

definition keeps_heads :: "engine \<Rightarrow> engine \<Rightarrow> bool" where
  "keeps_heads e e' \<longleftrightarrow> length (registry e') = length (registry e) \<and>
     (\<forall>i < length (registry e). mhead (registry e ! i) \<noteq> None \<longrightarrow> mhead (registry e' ! i) \<noteq> None)"

lemma headflush_inv:
  assumes inv: "engine_inv e" and run: "headflush mem junk m dataDir e = Ret (ok, e')"
  shows "engine_inv e' \<and> keeps_heads e e'"
proof -
  obtain i where find: "registry_find m (registry e) = Some i"
    using run headflush_unknown [of m e] by (cases "registry_find m (registry e)") auto
  then have i: "i < length (registry e)" using registry_find_Some by blast
  show ?thesis
  proof (cases "mhead (registry e ! i)")
    case None
    with run headflush_headless [OF find None] inv show ?thesis by (simp add: keeps_heads_def)
  next
    case (Some h)
    have en: "entry_inv (registry e ! i)" using inv i by (rule entry_inv_nth)
    then have head: "head_inv h" using Some by (simp add: entry_inv_def)
    show ?thesis
    proof (cases "hsize h = 0")
      case True
      with run headflush_empty [OF find Some] inv show ?thesis by (simp add: keeps_heads_def)
    next
      case False
      then have "0 < hsize h" by simp
      note flush = headflush_nonempty [OF find Some this, of mem junk dataDir]
      show ?thesis
      proof (cases "fst (flush_result dataDir m h (store e)) \<noteq> 0")
        case True
        with run flush inv show ?thesis by (auto simp: keeps_heads_def engine_inv_def)
      next
        case ok: False
        then obtain en where rec: "record_chunk (registry e ! i) (flush_metadata dataDir m h) = Ret en"
          using run flush by (cases "record_chunk (registry e ! i) (flush_metadata dataDir m h)") simp_all
        let ?en = "en\<lparr>mhead := Some (h\<lparr>hsize := 0, lastTimestamp := 0\<rparr>)\<rparr>"
        have e': "e' = e\<lparr>registry := (registry e)[i := ?en],
            store := wal_truncate dataDir m (snd (flush_result dataDir m h (store e)))\<rparr>"
          using run flush ok rec by simp
        note new = record_chunk_inv [OF en rec head_inv_reset [OF head]]
        have "engine_inv e'" unfolding e' by (rule engine_inv_update [OF inv i]) (use new in simp_all)
        moreover have "mhead (registry e' ! j) \<noteq> None" if "j < length (registry e)" "mhead (registry e ! j) \<noteq> None" for j
          using that by (cases "j = i") (simp_all add: e')
        ultimately show ?thesis by (simp add: keeps_heads_def e')
      qed
    qed
  qed
qed

lemma entry_inv_new: "entry_inv (new_entry mem junk m)"
  by (auto simp: new_entry_def entry_inv_def getNewHeadBlock_def inv_intros)

lemma getMetric_new:
  assumes inv: "engine_inv e" and len: "length m < 64"
    and get: "getMetricFromHashTable mem junk m True (registry e) = Ret (Some i, reg)"
  shows "engine_inv (e\<lparr>registry := reg\<rparr>) \<and> registry_find m reg = Some i \<and> mhead (reg ! i) \<noteq> None"
proof (cases "registry_find m (registry e)")
  case (Some j)
  with get inv show ?thesis by (auto simp: getMetricFromHashTable_def entry_head_def split: if_splits)
next
  case None
  have key: "mkey (new_entry mem junk m) = m" using len by (simp add: new_entry_def)
  from None get have reg: "reg = registry e @ [new_entry mem junk m]" "i = length (registry e)"
    "mhead (new_entry mem junk m) \<noteq> None"
    by (auto simp: getMetricFromHashTable_def entry_head_def Let_def split: if_splits)
  have "m \<notin> mkey ` set (registry e)" using None by (simp add: registry_find_None)
  then have "engine_inv (e\<lparr>registry := reg\<rparr>)"
    using inv entry_inv_new [of mem junk m] key by (auto simp: engine_inv_def reg(1))
  moreover have "registry_find m reg = Some i" using None key by (simp add: reg(1,2) registry_find_append)
  ultimately show ?thesis using reg by simp
qed

lemma set_head_inv:
  assumes "engine_inv e" "i < length (registry e)" "head_inv h"
  shows "engine_inv (set_head e i h)"
proof -
  have "entry_inv ((registry e ! i)\<lparr>mhead := Some h\<rparr>)"
    using entry_inv_nth [OF assms(1,2)] assms(3) by (simp add: entry_inv_def)
  then show ?thesis
    using engine_inv_update [OF assms(1,2), of "(registry e ! i)\<lparr>mhead := Some h\<rparr>" "store e"] by (simp add: set_head_def)
qed

lemma head_at_inv:
  assumes "engine_inv e" "i < length (registry e)" "mhead (registry e ! i) \<noteq> None"
  shows "head_inv (head_at e i)"
  using entry_inv_nth [OF assms(1,2)] assms(3) by (auto simp: entry_inv_def head_at_def)

lemma logged_inv: "engine_inv e \<Longrightarrow> engine_inv (logged dataDir m t v ok e)"
  by (simp add: logged_def engine_inv_def)

lemma set_head_PUT_inv:
  assumes "engine_inv e" "i < length (registry e)" "mhead (registry e ! i) \<noteq> None"
  shows "engine_inv (set_head e i (snd (PUT_value (head_at e i) t v)))"
  using set_head_inv [OF assms(1,2) head_inv_PUT [OF head_at_inv [OF assms]]] .

lemma Head_PUT_inv:
  assumes inv: "engine_inv e" and len: "length m < 64" and run: "Head_PUT mem junk m t v dataDir e = Ret (ok, e')"
  shows "engine_inv e'"
proof -
  from run obtain i reg where get: "getMetricFromHashTable mem junk m True (registry e) = Ret (Some i, reg)"
    by (auto simp: Head_PUT_def split: c_result.splits option.splits prod.splits)
  let ?e1 = "e\<lparr>registry := reg\<rparr>"
  note new = getMetric_new [OF inv len get]
  have i: "i < length (registry ?e1)" "mhead (registry ?e1 ! i) \<noteq> None"
    using new registry_find_Some [of m reg i] by simp_all
  have inv1: "engine_inv ?e1" using new by simp
  obtain res h where put: "PUT_value (head_at ?e1 i) t v = (res, h)" by fastforce
  let ?e2 = "set_head ?e1 i h"
  have inv2: "engine_inv ?e2" using set_head_PUT_inv [OF inv1 i, of t v] put by simp
  show ?thesis
  proof (cases "\<not> res \<and> hsize h \<ge> HEAD_CAPACITY")
    case False
    from run have "e' = logged dataDir m t v res ?e2" unfolding Head_PUT_direct [OF get put False] by auto
    then show ?thesis using logged_inv [OF inv2] by simp
  next
    case True
    note full = Head_PUT_full [OF get put True, of dataDir]
    then obtain ok3 e3 where flush: "headflush mem junk m dataDir ?e2 = Ret (ok3, e3)"
      using run by (auto split: c_result.splits)
    note inv3 = headflush_inv [OF inv2 flush]
    have i3: "i < length (registry e3)" "mhead (registry e3 ! i) \<noteq> None"
      using inv3 i by (simp_all add: keeps_heads_def set_head_def)
    have "engine_inv (set_head e3 i (snd (PUT_value (head_at e3 i) t v)))"
      using set_head_PUT_inv [OF _ i3] inv3 by simp
    with run full flush show ?thesis by (auto simp: split_def intro: logged_inv)
  qed
qed

lemma ProcessRequest_inv:
  assumes "engine_inv e" "rq_type r \<noteq> QUIT \<Longrightarrow> length (rq_metric r) < 64"
    and "ProcessRequest mem junk ls g r dataDir e = Ret (resp, e')"
  shows "engine_inv e'"
proof (cases "rq_type r \<in> {PUT, FLUSH}")
  case False
  with ProcessRequest_reads [OF assms(3)] assms(1) show ?thesis by simp
next
  case True
  with assms show ?thesis
    by (auto simp: ProcessRequest_def handlePUT_def handleflush_def split: c_result.splits
        dest: Head_PUT_inv headflush_inv)
qed

lemma handle_line_inv:
  assumes "engine_inv e" and "handle_line env raw sent e = Ret (out, sent', e')"
  shows "engine_inv e'"
proof (cases "getRequest (env_mem env) (env_request env) (line_text raw)")
  case (UB u)
  with assms(2) show ?thesis by (simp add: handle_line_def)
next
  case (Ret r)
  show ?thesis
  proof (cases r)
    case None
    with Ret assms show ?thesis by (simp add: handle_line_def)
  next
    case (Some request)
    with Ret assms(2) obtain resp where
      "ProcessRequest (env_mem env) (env_junk env) (env_ls env) (env_global env) request (env_dataDir env) e = Ret (resp, e')"
      by (auto simp: handle_line_def Let_def split: c_result.splits if_splits)
    then show ?thesis using ProcessRequest_inv [OF assms(1)] getRequest_metric Ret Some by blast
  qed
qed

lemma handle_lines_inv:
  "engine_inv e \<Longrightarrow> handle_lines env s sent e = Ret (out, rest, sent', e') \<Longrightarrow>
     engine_inv e' \<and> length rest \<le> length s"
proof (induction "length s" arbitrary: s sent e rule: less_induct)
  case less
  show ?case
  proof (cases s rule: split_line)
    case none
    with less.prems show ?thesis by (simp add: handle_lines_none)
  next
    case (line w c u)
    note part = handle_lines_first [OF line(3,2), of env u sent e]
    obtain out1 sent1 e1 where one: "handle_line env (w @ newline) sent e = Ret (out1, sent1, e1)"
      using less.prems by (auto simp: line(1) part split: c_result.splits)
    note inv1 = handle_line_inv [OF less.prems(1) one]
    show ?thesis
    proof (cases "out1 = Next")
      case False
      with less.prems(2) one inv1 show ?thesis by (auto simp: line(1) part)
    next
      case True
      then have "handle_lines env u sent1 e1 = Ret (out, rest, sent', e')"
        using less.prems(2) by (simp add: line(1) part one)
      moreover have "length u < length s" by (simp add: line(1))
      ultimately have "engine_inv e' \<and> length rest \<le> length u" using less.hyps inv1 by blast
      then show ?thesis by (simp add: line(1))
    qed
  qed
qed

lemma recv_bytes_inv:
  assumes "engine_inv e" and "recv_bytes env tmp inbuf sent e = Ret (out, rest, sent', e')"
  shows "engine_inv e' \<and> length rest \<le> 8190"
  using assms handle_lines_inv [of e env "inbuf @ tmp" sent out rest sent' e']
  by (auto simp: recv_bytes_def split: if_splits)

lemma run_expiry_inv:
  assumes "engine_inv e" shows "engine_inv (run_expiry cfg now e)"
proof -
  let ?reg = "fst (expire_registry cfg now (registry e) (store e))"
  have "\<forall>en \<in> set (registry e). entry_inv en" using assms by (simp add: engine_inv_def)
  note spec = expire_registry_spec [OF this, of cfg now "store e"]
  then have all: "list_all2 (entry_expired cfg now) (registry e) ?reg" by blast
  then have "map mkey ?reg = map mkey (registry e)"
    by (induction rule: list_all2_induct) (simp_all add: entry_expired_def)
  moreover have "\<forall>en \<in> set ?reg. entry_inv en"
    using all by (auto simp: list_all2_conv_all_nth in_set_conv_nth entry_expired_def)
  ultimately show ?thesis
    using assms by (simp add: engine_inv_def run_expiry_def split_def Let_def)
qed

lemma downsample_run_now_inv: "engine_inv e \<Longrightarrow> downsample_run_now mem now dataDir e = Ret e' \<Longrightarrow> engine_inv e'"
  by (auto simp: downsample_run_now_def engine_inv_def split: c_result.splits)

section \<open>Reachable states\<close>

text \<open>The engine invariant, and room in the buffer of every connection.\<close>

definition server_inv :: "server \<Rightarrow> bool" where
  "server_inv s \<longleftrightarrow> engine_inv (srv_engine s) \<and> (\<forall>c \<in> set (srv_clients s). length (cl_inbuf c) \<le> 8190)"

lemma server_step_inv: "server_step env s s' \<Longrightarrow> server_inv s \<Longrightarrow> server_inv s'"
proof (induction rule: server_step.induct)
  case (accepted s)
  then show ?case by (simp add: server_inv_def new_client_def)
next
  case (received i s tmp out inbuf sent e)
  then have "engine_inv e \<and> length inbuf \<le> 8190"
    using recv_bytes_inv by (auto simp: server_inv_def)
  with received show ?case
    using set_update_subset_insert [of "srv_clients s" i] by (fastforce simp: server_inv_def)
next
  case (closed i s)
  then have "length (cl_inbuf (srv_clients s ! i)) \<le> 8190" by (simp add: server_inv_def)
  with closed show ?case
    using set_update_subset_insert [of "srv_clients s" i] by (fastforce simp: server_inv_def)
next
  case (expired s cfg now)
  then show ?case by (simp add: server_inv_def run_expiry_inv)
next
  case (downsampled now s e)
  then show ?case using downsample_run_now_inv by (auto simp: server_inv_def)
qed

interpretation runs: step_invariant "server_step env" server_inv for env
  by unfold_locales (rule server_step_inv)

lemma reachable_inv: "reachable env e s \<Longrightarrow> engine_inv e \<Longrightarrow> server_inv s"
  using runs.run by (auto simp: reachable_def server_inv_def [of "\<lparr>srv_engine = e, srv_clients = []\<rparr>"])

text \<open>C18: however many clients send whatever bytes, in whatever order, and whenever the background
  passes run between their requests, as long as the steps do not overlap: in every state the server
  reaches from a start over a data directory, every metric has one entry, its head block is sorted
  and within its capacity, its chunk list within its array, and every input buffer has room for its
  NUL. The start needs names and paths that fit, the steps need nothing: allocations may fail and
  files be unusable at any point.\<close>

theorem reachable_server_inv:
  assumes "\<And>k. mem k" and "ls d dataDir = Some names" and "distinct names"
    and "\<forall>m \<in> set names. metric_dir_ok ls dataDir d m"
    and "loadRegistry mem junk ls dataDir \<lparr>registry = [], store = d\<rparr> = Ret e" and "reachable env e s"
  shows "server_inv s"
proof -
  have "engine_inv e"
    using loadRegistry_entries [where mem = mem and ls = ls and junk = junk, OF assms(1-4)] assms(5) by auto
  then show ?thesis using reachable_inv [OF assms(6)] by blast
qed

theorem reachable_server_inv_witness:
  "\<exists>e. loadRegistry (\<lambda>_. True) 0 restart_ls ''data'' \<lparr>registry = [], store = restart_disk\<rparr> = Ret e \<and>
     reachable sample_env e \<lparr>srv_engine = e, srv_clients = [new_client]\<rparr> \<and>
     server_inv \<lparr>srv_engine = e, srv_clients = [new_client]\<rparr>"
proof -
  have names: "restart_ls restart_disk ''data'' = Some [''cpu'']" by (simp add: restart_ls_def)
  have ok: "\<forall>m \<in> set [''cpu'']. metric_dir_ok restart_ls ''data'' restart_disk m"
    by (simp add: metric_dir_ok_def restart_ls_def file_path_def restart_disk_def)
  have one: "distinct [''cpu'']" by simp
  obtain e where start: "loadRegistry (\<lambda>_. True) 0 restart_ls ''data'' \<lparr>registry = [], store = restart_disk\<rparr> = Ret e"
    using loadRegistry_entries [where mem = "\<lambda>_. True" and junk = 0, OF TrueI names one ok] by blast
  have "reachable sample_env e \<lparr>srv_engine = e, srv_clients = [new_client]\<rparr>"
    using accepted [of sample_env "\<lparr>srv_engine = e, srv_clients = []\<rparr>"] by (simp add: reachable_def r_into_rtranclp)
  with start reachable_server_inv [where mem = "\<lambda>_. True", OF TrueI names one ok start this] show ?thesis by blast
qed

end
