(* ===== verification/Uthash.thy ===== *)
theory Uthash
  imports Disk
begin

text \<open>
  The hash table of the registry, \<^verbatim>\<open>include/uthash.h\<close>, as the program expands its macros
  (\<open>HASH_FIND_STR\<close>, \<open>HASH_ADD_STR\<close>, \<open>HASH_DEL\<close>, \<open>HASH_ITER\<close>, with the defaults: Jenkins hash,
  no Bloom filter, a failed \<open>malloc\<close> is fatal). It is the pointer program itself: handles live in
  a store of addresses and carry the two doubly linked lists, the order of insertion
  (\<open>prev\<close>, \<open>next\<close>) and the chain of the bucket (\<open>hh_prev\<close>, \<open>hh_next\<close>).

  An element and the handle inside it have one address here (\<open>ELMT_FROM_HH\<close> and
  \<open>HH_FROM_ELMT\<close> are a constant offset). All handles of a table share one \<open>tbl\<close>, kept once; it is
  dead while the head pointer is \<open>NULL\<close>. A walk along a chain is a partial function, \<open>None\<close> when
  it does not end; the theorems show that it ends on every table the operations build.
\<close>

section \<open>State\<close>

type_synonym addr = nat
type_synonym ptr = "addr option"

record UT_hash_handle =
  app_prev :: ptr
  app_next :: ptr
  hh_prev :: ptr
  hh_next :: ptr
  hkey :: string
  keylen :: u32
  hashv :: u32

record UT_hash_bucket =
  hh_head :: ptr
  bkt_count :: u32
  expand_mult :: u32

record UT_hash_table =
  buckets :: "UT_hash_bucket list"
  num_buckets :: u32
  log2_num_buckets :: u32
  num_items :: u32
  tail :: ptr
  ideal_chain_maxlen :: u32
  nonideal_items :: u32
  ineff_expands :: u32
  noexpand :: u32

type_synonym handle_store = "addr \<Rightarrow> UT_hash_handle"

record uthash =
  hash_head :: ptr
  tbl :: UT_hash_table
  handles :: handle_store

text \<open>\<open>uthash_fatal\<close> ends the process with \<open>exit(-1)\<close>.\<close>

datatype 'a process = Exit | Run 'a

definition HASH_INITIAL_NUM_BUCKETS :: u32 where "HASH_INITIAL_NUM_BUCKETS = 32"
definition HASH_INITIAL_NUM_BUCKETS_LOG2 :: u32 where "HASH_INITIAL_NUM_BUCKETS_LOG2 = 5"
definition HASH_BKT_CAPACITY_THRESH :: u32 where "HASH_BKT_CAPACITY_THRESH = 10"

definition sizeof_bucket :: nat where "sizeof_bucket = 16"
definition sizeof_table :: nat where "sizeof_table = 64"

section \<open>The hash function\<close>

text \<open>The three kinds of line of \<open>HASH_JEN_MIX\<close>.\<close>

fun mix_a :: "nat \<Rightarrow> u32 \<times> u32 \<times> u32 \<Rightarrow> u32 \<times> u32 \<times> u32" where
  "mix_a n (a, b, c) = ((a - b - c) XOR drop_bit n c, b, c)"

fun mix_b :: "nat \<Rightarrow> u32 \<times> u32 \<times> u32 \<Rightarrow> u32 \<times> u32 \<times> u32" where
  "mix_b n (a, b, c) = (a, (b - c - a) XOR push_bit n a, c)"

fun mix_c :: "nat \<Rightarrow> u32 \<times> u32 \<times> u32 \<Rightarrow> u32 \<times> u32 \<times> u32" where
  "mix_c n (a, b, c) = (a, b, (c - a - b) XOR drop_bit n b)"

definition HASH_JEN_MIX :: "u32 \<Rightarrow> u32 \<Rightarrow> u32 \<Rightarrow> u32 \<times> u32 \<times> u32" where
  "HASH_JEN_MIX a b c =
     mix_c 15 (mix_b 10 (mix_a 3
       (mix_c 5 (mix_b 16 (mix_a 12
         (mix_c 13 (mix_b 8 (mix_a 13 (a, b, c)))))))))"

definition key_byte :: "string \<Rightarrow> nat \<Rightarrow> u32" where
  "key_byte key n = of_char (key ! n)"

definition key_word :: "string \<Rightarrow> nat \<Rightarrow> u32" where
  "key_word key n =
     key_byte key n + push_bit 8 (key_byte key (n + 1)) + push_bit 16 (key_byte key (n + 2))
       + push_bit 24 (key_byte key (n + 3))"

function HASH_JEN_loop ::
    "string \<Rightarrow> u32 \<Rightarrow> u32 \<Rightarrow> u32 \<Rightarrow> u32 \<Rightarrow> string \<times> u32 \<times> u32 \<times> u32 \<times> u32" where
  "HASH_JEN_loop key k i j h =
     (if 12 \<le> k then
        let (i, j, h) = HASH_JEN_MIX (i + key_word key 0) (j + key_word key 4) (h + key_word key 8)
        in HASH_JEN_loop (drop 12 key) (k - 12) i j h
      else (key, k, i, j, h))"
  by auto
termination
  by (relation "measure (\<lambda>(key, k, i, j, h). unat k)")
    (auto simp: unat_sub word_le_nat_alt)

declare HASH_JEN_loop.simps [simp del]

text \<open>
  The cases of the \<open>switch\<close> fall through: with \<open>k\<close> bytes left, the additions of case \<open>k\<close> and of
  all smaller cases are made.
\<close>

definition from_case :: "string \<Rightarrow> u32 \<Rightarrow> nat \<Rightarrow> nat \<Rightarrow> u32 \<Rightarrow> u32" where
  "from_case key k n s v = (if of_nat n \<le> k then v + push_bit s (key_byte key (n - 1)) else v)"

fun HASH_JEN_end :: "u32 \<Rightarrow> string \<times> u32 \<times> u32 \<times> u32 \<times> u32 \<Rightarrow> u32" where
  "HASH_JEN_end klen (key, k, i, j, h) =
     snd (snd (HASH_JEN_MIX
       (from_case key k 1 0 (from_case key k 2 8 (from_case key k 3 16 (from_case key k 4 24 i))))
       (from_case key k 5 0 (from_case key k 6 8 (from_case key k 7 16 (from_case key k 8 24 j))))
       (from_case key k 9 8 (from_case key k 10 16 (from_case key k 11 24 (h + klen))))))"

definition HASH_JEN :: "string \<Rightarrow> u32 \<Rightarrow> u32" where
  "HASH_JEN key klen = HASH_JEN_end klen (HASH_JEN_loop key klen 0x9e3779b9 0x9e3779b9 0xfeedbeef)"

definition HASH_TO_BKT :: "u32 \<Rightarrow> u32 \<Rightarrow> nat" where
  "HASH_TO_BKT hv num_bkts = unat (hv AND (num_bkts - 1))"

section \<open>Look-up\<close>

partial_function (option) HASH_FIND_IN_BKT ::
    "handle_store \<Rightarrow> string \<Rightarrow> u32 \<Rightarrow> u32 \<Rightarrow> ptr \<Rightarrow> ptr option" where
  "HASH_FIND_IN_BKT hs keyptr klen hv out =
     (case out of
        None \<Rightarrow> Some None
      | Some a \<Rightarrow>
          if hashv (hs a) = hv \<and> keylen (hs a) = klen \<and>
             take (unat klen) (hkey (hs a)) = take (unat klen) keyptr
          then Some (Some a)
          else HASH_FIND_IN_BKT hs keyptr klen hv (hh_next (hs a)))"

definition HASH_FIND_BYHASHVALUE :: "uthash \<Rightarrow> string \<Rightarrow> u32 \<Rightarrow> u32 \<Rightarrow> ptr option" where
  "HASH_FIND_BYHASHVALUE h keyptr klen hv =
     (if hash_head h = None then Some None
      else HASH_FIND_IN_BKT (handles h) keyptr klen hv
             (hh_head (buckets (tbl h) ! HASH_TO_BKT hv (num_buckets (tbl h)))))"

definition HASH_FIND :: "uthash \<Rightarrow> string \<Rightarrow> u32 \<Rightarrow> ptr option" where
  "HASH_FIND h keyptr klen =
     (if hash_head h = None then Some None
      else HASH_FIND_BYHASHVALUE h keyptr klen (HASH_JEN keyptr klen))"

definition str_len :: "string \<Rightarrow> u32" where
  "str_len s = of_nat (length s)"

definition HASH_FIND_STR :: "uthash \<Rightarrow> string \<Rightarrow> ptr option" where
  "HASH_FIND_STR h findstr = HASH_FIND h findstr (str_len findstr)"

section \<open>Insertion\<close>

definition upd_hh :: "addr \<Rightarrow> (UT_hash_handle \<Rightarrow> UT_hash_handle) \<Rightarrow> handle_store \<Rightarrow> handle_store" where
  "upd_hh a f hs = hs(a := f (hs a))"

definition upd_ptr :: "ptr \<Rightarrow> (UT_hash_handle \<Rightarrow> UT_hash_handle) \<Rightarrow> handle_store \<Rightarrow> handle_store" where
  "upd_ptr p f hs = (case p of None \<Rightarrow> hs | Some a \<Rightarrow> upd_hh a f hs)"

text \<open>The table has a tail whenever the head pointer is not \<open>NULL\<close>.\<close>

definition HASH_APPEND_LIST :: "addr \<Rightarrow> uthash \<Rightarrow> uthash" where
  "HASH_APPEND_LIST a h =
     h\<lparr>handles := upd_ptr (tail (tbl h)) (app_next_update (\<lambda>_. Some a))
                   (upd_hh a (\<lambda>x. x\<lparr>app_next := None, app_prev := tail (tbl h)\<rparr>) (handles h)),
       tbl := (tbl h)\<lparr>tail := Some a\<rparr>\<rparr>"

definition empty_bucket :: UT_hash_bucket where
  "empty_bucket = \<lparr>hh_head = None, bkt_count = 0, expand_mult = 0\<rparr>"

definition HASH_MAKE_TABLE :: "allocator \<Rightarrow> addr \<Rightarrow> uthash \<Rightarrow> uthash process" where
  "HASH_MAKE_TABLE mem a h =
     (if \<not> mem sizeof_table then Exit
      else if \<not> mem (unat HASH_INITIAL_NUM_BUCKETS * sizeof_bucket) then Exit
      else Run (h\<lparr>tbl :=
        \<lparr>buckets = replicate (unat HASH_INITIAL_NUM_BUCKETS) empty_bucket,
         num_buckets = HASH_INITIAL_NUM_BUCKETS, log2_num_buckets = HASH_INITIAL_NUM_BUCKETS_LOG2,
         num_items = 0, tail = Some a, ideal_chain_maxlen = 0, nonideal_items = 0,
         ineff_expands = 0, noexpand = 0\<rparr>\<rparr>))"

text \<open>A handle becomes the first of a chain.\<close>

definition push_handle :: "addr \<Rightarrow> ptr \<Rightarrow> handle_store \<Rightarrow> handle_store" where
  "push_handle a first hs =
     upd_ptr first (hh_prev_update (\<lambda>_. Some a))
       (upd_hh a (\<lambda>x. x\<lparr>hh_prev := None, hh_next := first\<rparr>) hs)"

text \<open>
  The doubling of the buckets: one handle into its new bucket, all handles of an old bucket, all
  old buckets.
\<close>

definition move_handle ::
    "u32 \<Rightarrow> u32 \<Rightarrow> addr \<Rightarrow> handle_store \<times> UT_hash_bucket list \<times> u32 \<Rightarrow>
     handle_store \<times> UT_hash_bucket list \<times> u32" where
  "move_handle num_bkts ideal a s =
     (let (hs, bs, nonideal) = s;
          b = HASH_TO_BKT (hashv (hs a)) num_bkts;
          bk = (bs ! b)\<lparr>bkt_count := bkt_count (bs ! b) + 1\<rparr>;
          over = ideal < bkt_count bk;
          nonideal = (if over then nonideal + 1 else nonideal);
          bk = (if over \<and> expand_mult bk * ideal < bkt_count bk
                then bk\<lparr>expand_mult := expand_mult bk + 1\<rparr> else bk)
      in (push_handle a (hh_head bk) hs, bs[b := bk\<lparr>hh_head := Some a\<rparr>], nonideal))"

partial_function (option) move_chain ::
    "u32 \<Rightarrow> u32 \<Rightarrow> ptr \<Rightarrow> handle_store \<times> UT_hash_bucket list \<times> u32 \<Rightarrow>
     (handle_store \<times> UT_hash_bucket list \<times> u32) option" where
  "move_chain num_bkts ideal thh s =
     (case thh of
        None \<Rightarrow> Some s
      | Some a \<Rightarrow> move_chain num_bkts ideal (hh_next (fst s a)) (move_handle num_bkts ideal a s))"

primrec move_buckets ::
    "u32 \<Rightarrow> u32 \<Rightarrow> UT_hash_bucket list \<Rightarrow> handle_store \<times> UT_hash_bucket list \<times> u32 \<Rightarrow>
     (handle_store \<times> UT_hash_bucket list \<times> u32) option" where
  "move_buckets num_bkts ideal [] s = Some s"
| "move_buckets num_bkts ideal (bk # old) s =
     (case move_chain num_bkts ideal (hh_head bk) s of
        None \<Rightarrow> None
      | Some s \<Rightarrow> move_buckets num_bkts ideal old s)"

definition new_ideal_chain_maxlen :: "UT_hash_table \<Rightarrow> u32" where
  "new_ideal_chain_maxlen t =
     drop_bit (unat (log2_num_buckets t + 1)) (num_items t)
       + (if num_items t AND (num_buckets t * 2 - 1) \<noteq> 0 then 1 else 0)"

definition HASH_EXPAND_BUCKETS :: "allocator \<Rightarrow> uthash \<Rightarrow> uthash process option" where
  "HASH_EXPAND_BUCKETS mem h =
     (let t = tbl h in
      if \<not> mem (sizeof_bucket * unat (num_buckets t) * 2) then Some Exit
      else
        let ideal = new_ideal_chain_maxlen t;
            new = replicate (unat (num_buckets t) * 2) empty_bucket
        in case move_buckets (num_buckets t * 2) ideal (take (unat (num_buckets t)) (buckets t))
                  (handles h, new, 0) of
             None \<Rightarrow> None
           | Some (hs, bs, nonideal) \<Rightarrow>
               let ineff = (if drop_bit 1 (num_items t) < nonideal then ineff_expands t + 1 else 0)
               in Some (Run (h\<lparr>handles := hs,
                    tbl := t\<lparr>ideal_chain_maxlen := ideal, nonideal_items := nonideal,
                              num_buckets := num_buckets t * 2,
                              log2_num_buckets := log2_num_buckets t + 1, buckets := bs,
                              ineff_expands := ineff,
                              noexpand := if 1 < ineff then 1 else noexpand t\<rparr>\<rparr>)))"

text \<open>The new handle is the first of its bucket; the bucket may be full then.\<close>

definition put_in_bkt :: "nat \<Rightarrow> addr \<Rightarrow> uthash \<Rightarrow> uthash" where
  "put_in_bkt b a h =
     h\<lparr>handles := push_handle a (hh_head (buckets (tbl h) ! b)) (handles h),
       tbl := (tbl h)\<lparr>buckets := (buckets (tbl h))[b := (buckets (tbl h) ! b)
         \<lparr>bkt_count := bkt_count (buckets (tbl h) ! b) + 1, hh_head := Some a\<rparr>]\<rparr>\<rparr>"

definition bkt_full :: "nat \<Rightarrow> UT_hash_table \<Rightarrow> bool" where
  "bkt_full b t \<longleftrightarrow>
     (expand_mult (buckets t ! b) + 1) * HASH_BKT_CAPACITY_THRESH \<le> bkt_count (buckets t ! b) \<and>
     noexpand t = 0"

definition expand_if_full :: "allocator \<Rightarrow> nat \<Rightarrow> uthash \<Rightarrow> uthash process option" where
  "expand_if_full mem b h = (if bkt_full b (tbl h) then HASH_EXPAND_BUCKETS mem h else Some (Run h))"

definition HASH_ADD_TO_BKT :: "allocator \<Rightarrow> nat \<Rightarrow> addr \<Rightarrow> uthash \<Rightarrow> uthash process option" where
  "HASH_ADD_TO_BKT mem b a h = expand_if_full mem b (put_in_bkt b a h)"

definition HASH_ADD_TO_TABLE :: "allocator \<Rightarrow> u32 \<Rightarrow> addr \<Rightarrow> uthash \<Rightarrow> uthash process option" where
  "HASH_ADD_TO_TABLE mem hv a h =
     HASH_ADD_TO_BKT mem (HASH_TO_BKT hv (num_buckets (tbl h))) a
       (h\<lparr>tbl := (tbl h)\<lparr>num_items := num_items (tbl h) + 1\<rparr>\<rparr>)"

definition set_key :: "string \<Rightarrow> u32 \<Rightarrow> u32 \<Rightarrow> addr \<Rightarrow> uthash \<Rightarrow> uthash" where
  "set_key keyptr klen hv a h =
     h\<lparr>handles := upd_hh a (\<lambda>x. x\<lparr>hashv := hv, hkey := keyptr, keylen := klen\<rparr>) (handles h)\<rparr>"

definition set_alone :: "addr \<Rightarrow> uthash \<Rightarrow> uthash" where
  "set_alone a h = h\<lparr>handles := upd_hh a (\<lambda>x. x\<lparr>app_next := None, app_prev := None\<rparr>) (handles h)\<rparr>"

definition HASH_ADD_KEYPTR_BYHASHVALUE ::
    "allocator \<Rightarrow> string \<Rightarrow> u32 \<Rightarrow> u32 \<Rightarrow> addr \<Rightarrow> uthash \<Rightarrow> uthash process option" where
  "HASH_ADD_KEYPTR_BYHASHVALUE mem keyptr klen hv a h =
     (if hash_head h = None then
        (case HASH_MAKE_TABLE mem a (set_alone a (set_key keyptr klen hv a h)) of
           Exit \<Rightarrow> Some Exit
         | Run h \<Rightarrow> HASH_ADD_TO_TABLE mem hv a (h\<lparr>hash_head := Some a\<rparr>))
      else HASH_ADD_TO_TABLE mem hv a (HASH_APPEND_LIST a (set_key keyptr klen hv a h)))"

definition HASH_ADD_KEYPTR ::
    "allocator \<Rightarrow> string \<Rightarrow> u32 \<Rightarrow> addr \<Rightarrow> uthash \<Rightarrow> uthash process option" where
  "HASH_ADD_KEYPTR mem keyptr klen a h =
     HASH_ADD_KEYPTR_BYHASHVALUE mem keyptr klen (HASH_JEN keyptr klen) a h"

definition HASH_ADD_STR :: "allocator \<Rightarrow> string \<Rightarrow> addr \<Rightarrow> uthash \<Rightarrow> uthash process option" where
  "HASH_ADD_STR mem strfield a h = HASH_ADD_KEYPTR mem strfield (str_len strfield) a h"

section \<open>Deletion and iteration\<close>

definition HASH_DEL_IN_BKT :: "nat \<Rightarrow> addr \<Rightarrow> uthash \<Rightarrow> uthash" where
  "HASH_DEL_IN_BKT b a h =
     (let bk = buckets (tbl h) ! b;
          x = handles h a;
          bk = bk\<lparr>bkt_count := bkt_count bk - 1,
                   hh_head := if hh_head bk = Some a then hh_next x else hh_head bk\<rparr>;
          hs = upd_ptr (hh_prev x) (hh_next_update (\<lambda>_. hh_next x)) (handles h);
          hs = upd_ptr (hh_next x) (hh_prev_update (\<lambda>_. hh_prev x)) hs
      in h\<lparr>handles := hs, tbl := (tbl h)\<lparr>buckets := (buckets (tbl h))[b := bk]\<rparr>\<rparr>)"

definition HASH_DELETE_HH :: "addr \<Rightarrow> uthash \<Rightarrow> uthash" where
  "HASH_DELETE_HH a h =
     (let x = handles h a in
      if app_prev x = None \<and> app_next x = None then h\<lparr>hash_head := None\<rparr>
      else
        let h = (if tail (tbl h) = Some a then h\<lparr>tbl := (tbl h)\<lparr>tail := app_prev x\<rparr>\<rparr> else h);
            h = (if app_prev x = None then h\<lparr>hash_head := app_next x\<rparr> else h);
            hs = upd_ptr (app_prev x) (app_next_update (\<lambda>_. app_next x)) (handles h);
            hs = upd_ptr (app_next x) (app_prev_update (\<lambda>_. app_prev x)) hs;
            h = h\<lparr>handles := hs\<rparr>;
            h = HASH_DEL_IN_BKT (HASH_TO_BKT (hashv x) (num_buckets (tbl h))) a h
        in h\<lparr>tbl := (tbl h)\<lparr>num_items := num_items (tbl h) - 1\<rparr>\<rparr>)"

text \<open>
  \<open>HASH_ITER\<close> reads the element after the next one before the body runs, so the body may delete
  the element it is at. \<open>links\<close> reads the handles off the state of the loop.
\<close>

partial_function (option) HASH_ITER_loop ::
    "('s \<Rightarrow> handle_store) \<Rightarrow> (addr \<Rightarrow> 's \<Rightarrow> 's) \<Rightarrow> ptr \<Rightarrow> ptr \<Rightarrow> 's \<Rightarrow> 's option" where
  "HASH_ITER_loop links body el tmp s =
     (case el of
        None \<Rightarrow> Some s
      | Some a \<Rightarrow>
          let s = body a s
          in HASH_ITER_loop links body tmp
               (case tmp of None \<Rightarrow> None | Some t \<Rightarrow> app_next (links s t)) s)"

definition HASH_ITER ::
    "('s \<Rightarrow> handle_store) \<Rightarrow> (addr \<Rightarrow> 's \<Rightarrow> 's) \<Rightarrow> ptr \<Rightarrow> 's \<Rightarrow> 's option" where
  "HASH_ITER links body head s =
     HASH_ITER_loop links body head
       (case head of None \<Rightarrow> None | Some a \<Rightarrow> app_next (links s a)) s"

text \<open>
  The integrity check that a build with \<open>HASH_DEBUG\<close> runs after every insertion and deletion; the
  value is \<open>False\<close> where it exits with \<open>HASH_OOPS\<close>.
\<close>

partial_function (option) fsck_chain :: "handle_store \<Rightarrow> ptr \<Rightarrow> ptr \<Rightarrow> u32 \<Rightarrow> u32 option option" where
  "fsck_chain hs prv thh n =
     (case thh of
        None \<Rightarrow> Some (Some n)
      | Some a \<Rightarrow> if prv \<noteq> hh_prev (hs a) then Some None
                  else fsck_chain hs (Some a) (hh_next (hs a)) (n + 1))"

primrec fsck_buckets :: "handle_store \<Rightarrow> UT_hash_bucket list \<Rightarrow> u32 \<Rightarrow> u32 option option" where
  "fsck_buckets hs [] n = Some (Some n)"
| "fsck_buckets hs (bk # bs) n =
     (case fsck_chain hs None (hh_head bk) 0 of
        None \<Rightarrow> None
      | Some None \<Rightarrow> Some None
      | Some (Some m) \<Rightarrow> if bkt_count bk \<noteq> m then Some None else fsck_buckets hs bs (n + m))"

partial_function (option) fsck_app :: "handle_store \<Rightarrow> ptr \<Rightarrow> ptr \<Rightarrow> u32 \<Rightarrow> u32 option option" where
  "fsck_app hs prv thh n =
     (case thh of
        None \<Rightarrow> Some (Some n)
      | Some a \<Rightarrow> if prv \<noteq> app_prev (hs a) then Some None
                  else fsck_app hs (Some a) (app_next (hs a)) (n + 1))"

definition HASH_FSCK :: "uthash \<Rightarrow> bool option" where
  "HASH_FSCK h =
     (if hash_head h = None then Some True
      else case fsck_buckets (handles h) (take (unat (num_buckets (tbl h))) (buckets (tbl h))) 0 of
             None \<Rightarrow> None
           | Some None \<Rightarrow> Some False
           | Some (Some n) \<Rightarrow>
               if n \<noteq> num_items (tbl h) then Some False
               else (case fsck_app (handles h) None (hash_head h) 0 of
                       None \<Rightarrow> None
                     | Some None \<Rightarrow> Some False
                     | Some (Some m) \<Rightarrow> Some (m = num_items (tbl h))))"

definition HASH_COUNT :: "uthash \<Rightarrow> u32" where
  "HASH_COUNT h = (if hash_head h \<noteq> None then num_items (tbl h) else 0)"

declare HASH_FIND_IN_BKT.simps [code] move_chain.simps [code] fsck_chain.simps [code]
  fsck_app.simps [code] HASH_ITER_loop.simps [code]

section \<open>Doubly linked lists\<close>

text \<open>
  \<open>dlist nx pv p xs q\<close>: the addresses \<open>xs\<close> are linked in their order by \<open>nx\<close> and back by \<open>pv\<close>,
  with \<open>p\<close> before the first and \<open>q\<close> after the last.
\<close>

definition first_of :: "addr list \<Rightarrow> ptr \<Rightarrow> ptr" where
  "first_of xs q = (case xs of [] \<Rightarrow> q | a # _ \<Rightarrow> Some a)"

definition last_of :: "ptr \<Rightarrow> addr list \<Rightarrow> ptr" where
  "last_of p xs = (if xs = [] then p else Some (last xs))"

primrec dlist :: "(addr \<Rightarrow> ptr) \<Rightarrow> (addr \<Rightarrow> ptr) \<Rightarrow> ptr \<Rightarrow> addr list \<Rightarrow> ptr \<Rightarrow> bool" where
  "dlist nx pv p [] q \<longleftrightarrow> True"
| "dlist nx pv p (a # as) q \<longleftrightarrow> pv a = p \<and> nx a = first_of as q \<and> dlist nx pv (Some a) as q"

lemma first_of_simps [simp]: "first_of [] q = q" "first_of (a # as) q = Some a"
  by (simp_all add: first_of_def)

lemma last_of_simps [simp]:
  "last_of p [] = p" "last_of p (a # as) = last_of (Some a) as" "last_of p (as @ [a]) = Some a"
  by (simp_all add: last_of_def)

lemma first_of_append [simp]: "first_of (xs @ ys) q = first_of xs (first_of ys q)"
  by (cases xs) simp_all

lemma dlist_append [simp]:
  "dlist nx pv p (xs @ ys) q \<longleftrightarrow> dlist nx pv p xs (first_of ys q) \<and> dlist nx pv (last_of p xs) ys q"
  by (induction xs arbitrary: p) auto

lemma dlist_cong:
  "(\<And>a. a \<in> set xs \<Longrightarrow> nx a = nx' a \<and> pv a = pv' a) \<Longrightarrow> dlist nx pv p xs q = dlist nx' pv' p xs q"
  by (induction xs arbitrary: p) auto

lemma dlist_first_prev: "dlist nx pv p xs q \<Longrightarrow> first_of xs None = Some a \<Longrightarrow> pv a = p"
  by (cases xs) auto

lemma dlist_last_next: "dlist nx pv p xs q \<Longrightarrow> last_of None xs = Some a \<Longrightarrow> nx a = q"
  by (cases xs rule: rev_cases) auto

lemma first_of_eq_Some: "first_of xs None = Some a \<Longrightarrow> a \<in> set xs"
  by (cases xs) auto

lemma last_of_eq_Some: "last_of None xs = Some a \<Longrightarrow> a \<in> set xs"
  by (cases xs rule: rev_cases) auto

text \<open>An end of a list is moved: the last element gets a successor, the first a predecessor.\<close>

lemma dlist_new_next:
  assumes "dlist nx pv p xs q" "distinct xs"
    and "\<And>a. a \<in> set xs \<Longrightarrow> nx' a = (if last_of None xs = Some a then q' else nx a)"
    and "\<And>a. a \<in> set xs \<Longrightarrow> pv' a = pv a"
  shows "dlist nx' pv' p xs q'"
proof (cases xs rule: rev_cases)
  case (snoc ys y)
  then have "dlist nx' pv' p ys (Some y) = dlist nx pv p ys (Some y)"
    using assms(2-) by (intro dlist_cong) auto
  with snoc show ?thesis using assms by simp
qed simp

lemma dlist_new_prev:
  assumes "dlist nx pv p xs q" "distinct xs"
    and "\<And>a. a \<in> set xs \<Longrightarrow> pv' a = (if first_of xs None = Some a then p' else pv a)"
    and "\<And>a. a \<in> set xs \<Longrightarrow> nx' a = nx a"
  shows "dlist nx' pv' p' xs q"
proof (cases xs)
  case (Cons y ys)
  then have "dlist nx' pv' (Some y) ys q = dlist nx pv (Some y) ys q"
    using assms(2-) by (intro dlist_cong) auto
  with Cons show ?thesis using assms by simp
qed simp

lemma dlist_snoc:
  assumes "dlist nx pv None xs None" "distinct xs" "a \<notin> set xs"
    and "\<And>x. x \<in> set xs \<Longrightarrow> nx' x = (if last_of None xs = Some x then Some a else nx x)"
    and "\<And>x. x \<in> set xs \<Longrightarrow> pv' x = pv x"
    and "nx' a = None" "pv' a = last_of None xs"
  shows "dlist nx' pv' None (xs @ [a]) None"
  using assms dlist_new_next [OF assms(1,2), of nx' "Some a" pv'] by simp

lemma dlist_push:
  assumes "dlist nx pv None xs None" "distinct xs" "a \<notin> set xs"
    and "\<And>x. x \<in> set xs \<Longrightarrow> pv' x = (if first_of xs None = Some x then Some a else pv x)"
    and "\<And>x. x \<in> set xs \<Longrightarrow> nx' x = nx x"
    and "pv' a = None" "nx' a = first_of xs None"
  shows "dlist nx' pv' None (a # xs) None"
  using assms dlist_new_prev [OF assms(1,2), of pv' "Some a" nx'] by simp

lemma dlist_unlink:
  assumes "dlist nx pv None (xs @ a # ys) None" "distinct (xs @ a # ys)"
    and "\<And>x. x \<in> set xs \<union> set ys \<Longrightarrow> nx' x = (if pv a = Some x then nx a else nx x)"
    and "\<And>x. x \<in> set xs \<union> set ys \<Longrightarrow> pv' x = (if nx a = Some x then pv a else pv x)"
  shows "dlist nx' pv' None (xs @ ys) None"
proof -
  have ends: "pv a = last_of None xs" "nx a = first_of ys None" using assms(1) by auto
  have xs: "nx a \<noteq> Some x" if "x \<in> set xs" for x
    using assms(2) that first_of_eq_Some [of ys x] by (auto simp: ends(2))
  have ys: "pv a \<noteq> Some x" if "x \<in> set ys" for x
    using assms(2) that last_of_eq_Some [of xs x] by (auto simp: ends(1))
  have "dlist nx pv None xs (Some a)" and "distinct xs" using assms(1,2) by simp_all
  then have "dlist nx' pv' None xs (first_of ys None)"
    by (rule dlist_new_next) (simp_all add: assms(3,4) xs flip: ends)
  moreover have "dlist nx pv (Some a) ys None" and "distinct ys" using assms(1,2) by simp_all
  then have "dlist nx' pv' (last_of None xs) ys None"
    by (rule dlist_new_prev) (simp_all add: assms(3,4) ys flip: ends)
  ultimately show ?thesis by simp
qed

section \<open>Chains\<close>

lemma HASH_TO_BKT_mod: "HASH_TO_BKT hv (2 ^ k) = unat hv mod 2 ^ k"
proof -
  have "hv AND (2 ^ k - 1) = take_bit k hv"
    by (simp add: take_bit_eq_mask flip: mask_eq_exp_minus_1)
  then have "HASH_TO_BKT hv (2 ^ k) = take_bit k (unat hv)"
    by (simp only: HASH_TO_BKT_def unsigned_take_bit_eq)
  then show ?thesis by (simp only: take_bit_eq_mod)
qed

definition bucket_ok :: "handle_store \<Rightarrow> UT_hash_bucket \<Rightarrow> addr list \<Rightarrow> bool" where
  "bucket_ok hs bk c \<longleftrightarrow>
     hh_head bk = first_of c None \<and> bkt_count bk = of_nat (length c) \<and> distinct c \<and>
     dlist (\<lambda>a. hh_next (hs a)) (\<lambda>a. hh_prev (hs a)) None c None"

text \<open>The buckets \<open>bs\<close> hold the chains \<open>cs\<close>, and these hold the handles \<open>D\<close>, each in its bucket.\<close>

definition in_chains ::
    "handle_store \<Rightarrow> UT_hash_bucket list \<Rightarrow> addr list list \<Rightarrow> addr set \<Rightarrow> bool" where
  "in_chains hs bs cs D \<longleftrightarrow>
     length bs = length cs \<and>
     (\<forall>b < length cs. bucket_ok hs (bs ! b) (cs ! b) \<and>
        set (cs ! b) = {a \<in> D. unat (hashv (hs a)) mod length cs = b})"

definition same_app :: "handle_store \<Rightarrow> handle_store \<Rightarrow> bool" where
  "same_app hs hs' \<longleftrightarrow>
     (\<forall>a. app_prev (hs' a) = app_prev (hs a) \<and> app_next (hs' a) = app_next (hs a) \<and>
          hkey (hs' a) = hkey (hs a) \<and> keylen (hs' a) = keylen (hs a) \<and> hashv (hs' a) = hashv (hs a))"

lemma same_app_refl [simp]: "same_app hs hs"
  by (simp add: same_app_def)

lemma same_app_trans: "same_app hs hs' \<Longrightarrow> same_app hs' hs'' \<Longrightarrow> same_app hs hs''"
  by (simp add: same_app_def)

lemma upd_ptr_apply: "upd_ptr p f hs x = (if p = Some x then f (hs x) else hs x)"
  by (simp add: upd_ptr_def upd_hh_def split: option.split)

lemma upd_hh_apply: "upd_hh a f hs x = (if x = a then f (hs x) else hs x)"
  by (simp add: upd_hh_def)

lemma same_app_push: "same_app hs (push_handle a p hs)"
  by (simp add: same_app_def push_handle_def upd_ptr_apply upd_hh_apply)

lemma push_handle_links:
  "hh_next (push_handle a p hs x) = (if x = a then p else hh_next (hs x))"
  "hh_prev (push_handle a p hs x) =
     (if p = Some x then Some a else if x = a then None else hh_prev (hs x))"
  "hashv (push_handle a p hs x) = hashv (hs x)"
  "x \<noteq> a \<Longrightarrow> p \<noteq> Some x \<Longrightarrow> push_handle a p hs x = hs x"
  by (auto simp: push_handle_def upd_ptr_apply upd_hh_apply)

lemma bucket_ok_cong:
  "(\<And>a. a \<in> set c \<Longrightarrow> hh_next (hs' a) = hh_next (hs a) \<and> hh_prev (hs' a) = hh_prev (hs a)) \<Longrightarrow>
     bucket_ok hs' bk c = bucket_ok hs bk c"
  unfolding bucket_ok_def by (metis (no_types, lifting) dlist_cong)

lemma bucket_ok_push:
  assumes "bucket_ok hs bk c" "a \<notin> set c" "hh_head bk' = Some a" "bkt_count bk' = bkt_count bk + 1"
  shows "bucket_ok (push_handle a (hh_head bk) hs) bk' (a # c)"
proof -
  have head: "hh_head bk = first_of c None" and "distinct c"
    and d: "dlist (\<lambda>a. hh_next (hs a)) (\<lambda>a. hh_prev (hs a)) None c None"
    using assms(1) by (simp_all add: bucket_ok_def)
  have "hh_head bk \<noteq> Some a" using assms(2) first_of_eq_Some [of c a] by (auto simp: head)
  then have "dlist (\<lambda>x. hh_next (push_handle a (hh_head bk) hs x))
      (\<lambda>x. hh_prev (push_handle a (hh_head bk) hs x)) None (a # c) None"
    using assms(2) by (intro dlist_push [OF d \<open>distinct c\<close>]) (auto simp: push_handle_links head)
  with assms show ?thesis by (simp add: bucket_ok_def)
qed

lemma chains_length: "in_chains hs bs cs D \<Longrightarrow> length bs = length cs"
  by (simp add: in_chains_def)

lemma chains_bucket:
  "in_chains hs bs cs D \<Longrightarrow> b < length cs \<Longrightarrow> bucket_ok hs (bs ! b) (cs ! b)"
  by (simp add: in_chains_def)

lemma chains_set:
  "in_chains hs bs cs D \<Longrightarrow> b < length cs \<Longrightarrow>
     a \<in> set (cs ! b) \<longleftrightarrow> a \<in> D \<and> unat (hashv (hs a)) mod length cs = b"
  by (simp add: in_chains_def)

lemma chains_head:
  assumes "in_chains hs bs cs D" "b < length cs" "hh_head (bs ! b) = Some x"
  shows "x \<in> set (cs ! b)"
  using chains_bucket [OF assms(1,2)] assms(3) first_of_eq_Some [of "cs ! b" x]
  by (simp add: bucket_ok_def)

lemma chainsI:
  assumes "length bs = length cs"
    and "\<And>b. b < length cs \<Longrightarrow> bucket_ok hs (bs ! b) (cs ! b)"
    and "\<And>b a. b < length cs \<Longrightarrow> a \<in> set (cs ! b) \<longleftrightarrow> a \<in> D \<and> unat (hashv (hs a)) mod length cs = b"
  shows "in_chains hs bs cs D"
  using assms by (auto simp: in_chains_def)

lemma chains_push:
  assumes ch: "in_chains hs bs cs D" and a: "a \<notin> D" and b: "b = unat (hashv (hs a)) mod length cs"
    and "cs \<noteq> []" and bk: "hh_head bk = Some a" "bkt_count bk = bkt_count (bs ! b) + 1"
  shows "in_chains (push_handle a (hh_head (bs ! b)) hs) (bs[b := bk]) (cs[b := a # cs ! b]) (insert a D)"
proof -
  have lt: "b < length cs" using b \<open>cs \<noteq> []\<close> by simp
  note len = chains_length [OF ch]
  show ?thesis
  proof (rule chainsI)
    fix b' assume b': "b' < length (cs[b := a # cs ! b])"
    show "bucket_ok (push_handle a (hh_head (bs ! b)) hs) (bs[b := bk] ! b') (cs[b := a # cs ! b] ! b')"
    proof (cases "b' = b")
      case True
      have "a \<notin> set (cs ! b)" using chains_set [OF ch lt] a by simp
      with True lt len bk show ?thesis
        by (simp add: bucket_ok_push [OF chains_bucket [OF ch lt]])
    next
      case False
      have "x \<noteq> a \<and> hh_head (bs ! b) \<noteq> Some x" if "x \<in> set (cs ! b')" for x
        using that chains_set [OF ch, of b' x] chains_head [OF ch lt, of x] chains_set [OF ch lt, of x]
          a b' False by auto
      with False show ?thesis
        using b' chains_bucket [OF ch, of b']
        by (simp add: bucket_ok_cong [of "cs ! b'" "push_handle a (hh_head (bs ! b)) hs" hs]
            push_handle_links)
    qed
  next
    fix b' x assume "b' < length (cs[b := a # cs ! b])"
    then show "x \<in> set (cs[b := a # cs ! b] ! b') \<longleftrightarrow>
        x \<in> insert a D \<and> unat (hashv (push_handle a (hh_head (bs ! b)) hs x)) mod length (cs[b := a # cs ! b]) = b'"
      using chains_set [OF ch, of b' x] lt a b
      by (cases "b' = b") (auto simp: push_handle_links)
  qed (simp add: len)
qed

section \<open>Doubling the buckets\<close>

text \<open>The chain that a walk along \<open>hh_next\<close> meets.\<close>

primrec walk :: "handle_store \<Rightarrow> addr list \<Rightarrow> bool" where
  "walk hs [] \<longleftrightarrow> True"
| "walk hs (a # as) \<longleftrightarrow> hh_next (hs a) = first_of as None \<and> walk hs as"

lemma dlist_walk: "dlist (\<lambda>a. hh_next (hs a)) pv p c None \<Longrightarrow> walk hs c"
  by (induction c arbitrary: p) auto

lemma walk_cong: "(\<And>a. a \<in> set c \<Longrightarrow> hs' a = hs a) \<Longrightarrow> walk hs' c = walk hs c"
  by (induction c) auto

lemma bucket_ok_walk: "bucket_ok hs bk c \<Longrightarrow> walk hs c"
  by (auto simp: bucket_ok_def dest: dlist_walk)

lemma move_handle:
  assumes ch: "in_chains hs bs cs D" and a: "a \<notin> D" and n: "length cs = 2 ^ k"
    and mv: "move_handle (2 ^ k) ideal a (hs, bs, ni) = (hs', bs', ni')"
  shows "\<exists>cs'. in_chains hs' bs' cs' (insert a D) \<and> length cs' = 2 ^ k \<and> same_app hs hs' \<and>
           (\<forall>x. x \<notin> insert a D \<longrightarrow> hs' x = hs x)"
proof -
  let ?b = "unat (hashv (hs a)) mod length cs"
  have b: "HASH_TO_BKT (hashv (hs a)) (2 ^ k) = ?b" by (simp add: HASH_TO_BKT_mod n)
  have "cs \<noteq> []" using n by auto
  then have lt: "?b < length cs" by simp
  obtain bk where hs': "hs' = push_handle a (hh_head (bs ! ?b)) hs" and bs': "bs' = bs[?b := bk]"
    and bk: "hh_head bk = Some a" "bkt_count bk = bkt_count (bs ! ?b) + 1"
    using mv by (auto simp: move_handle_def Let_def b split: if_splits)
  have "in_chains hs' bs' (cs[?b := a # cs ! ?b]) (insert a D)"
    unfolding hs' bs' by (rule chains_push [OF ch a refl \<open>cs \<noteq> []\<close> bk])
  moreover have "hs' x = hs x" if "x \<notin> insert a D" for x
    using that chains_head [OF ch lt, of x] chains_set [OF ch lt, of x]
    by (auto simp: hs' intro!: push_handle_links)
  ultimately show ?thesis using n by (auto simp: hs' same_app_push)
qed

lemma move_chain:
  assumes "in_chains hs bs cs D" "length cs = 2 ^ k" "walk hs c" "distinct c" "set c \<inter> D = {}"
  shows "\<exists>hs' bs' ni' cs'. move_chain (2 ^ k) ideal (first_of c None) (hs, bs, ni) = Some (hs', bs', ni') \<and>
           in_chains hs' bs' cs' (set c \<union> D) \<and> length cs' = 2 ^ k \<and> same_app hs hs' \<and>
           (\<forall>x. x \<notin> set c \<union> D \<longrightarrow> hs' x = hs x)"
  using assms
proof (induction c arbitrary: hs bs ni cs D)
  case Nil
  then show ?case by (auto simp: move_chain.simps)
next
  case (Cons a c)
  obtain hs1 bs1 ni1 where mv: "move_handle (2 ^ k) ideal a (hs, bs, ni) = (hs1, bs1, ni1)"
    by (metis prod_cases3)
  obtain cs1 where 1: "in_chains hs1 bs1 cs1 (insert a D)" "length cs1 = 2 ^ k" "same_app hs hs1"
    and frame: "\<And>x. x \<notin> insert a D \<Longrightarrow> hs1 x = hs x"
    using move_handle [OF Cons.prems(1) _ Cons.prems(2) mv] Cons.prems(5) by auto
  have "x \<notin> insert a D" if "x \<in> set c" for x using that Cons.prems(4,5) by auto
  then have "walk hs1 c" using Cons.prems(3) frame walk_cong [of c hs1 hs] by simp
  then obtain hs2 bs2 ni2 cs2 where
      "move_chain (2 ^ k) ideal (first_of c None) (hs1, bs1, ni1) = Some (hs2, bs2, ni2)"
      "in_chains hs2 bs2 cs2 (set c \<union> insert a D)" "length cs2 = 2 ^ k" "same_app hs1 hs2"
      "\<forall>x. x \<notin> set c \<union> insert a D \<longrightarrow> hs2 x = hs1 x"
    using Cons.IH [OF 1(1,2), of ni1] Cons.prems(4,5) by auto
  moreover have "move_chain (2 ^ k) ideal (first_of (a # c) None) (hs, bs, ni) =
      move_chain (2 ^ k) ideal (first_of c None) (hs1, bs1, ni1)"
    using Cons.prems(3) by (simp add: move_chain.simps [of _ _ "Some a"] mv)
  ultimately show ?case
    using same_app_trans [OF 1(3)] frame by (intro exI [of _ hs2] exI [of _ bs2] exI [of _ ni2] exI [of _ cs2]) auto
qed

lemma move_buckets:
  assumes "in_chains hs bs cs D" "length cs = 2 ^ k"
    and "length old = length ocs"
    and "\<And>i. i < length ocs \<Longrightarrow> hh_head (old ! i) = first_of (ocs ! i) None \<and> walk hs (ocs ! i)"
    and "distinct (concat ocs)" "set (concat ocs) \<inter> D = {}"
  shows "\<exists>hs' bs' ni' cs'. move_buckets (2 ^ k) ideal old (hs, bs, ni) = Some (hs', bs', ni') \<and>
           in_chains hs' bs' cs' (set (concat ocs) \<union> D) \<and> length cs' = 2 ^ k \<and> same_app hs hs'"
  using assms
proof (induction old arbitrary: ocs hs bs ni cs D)
  case Nil
  then show ?case by auto
next
  case (Cons bk old)
  then obtain c ocs' where ocs: "ocs = c # ocs'" by (cases ocs) auto
  have bk: "hh_head bk = first_of c None" "walk hs c" using Cons.prems(4) [of 0] ocs by simp_all
  obtain hs1 bs1 ni1 cs1 where
      mv: "move_chain (2 ^ k) ideal (first_of c None) (hs, bs, ni) = Some (hs1, bs1, ni1)"
    and 1: "in_chains hs1 bs1 cs1 (set c \<union> D)" "length cs1 = 2 ^ k" "same_app hs hs1"
    and frame: "\<forall>x. x \<notin> set c \<union> D \<longrightarrow> hs1 x = hs x"
  proof -
    have "distinct c" "set c \<inter> D = {}" using Cons.prems(5,6) ocs by auto
    from move_chain [OF Cons.prems(1,2) bk(2) this, of ideal ni] show ?thesis using that by blast
  qed
  have rest: "hh_head (old ! i) = first_of (ocs' ! i) None \<and> walk hs1 (ocs' ! i)" if "i < length ocs'" for i
  proof -
    have "set (ocs' ! i) \<inter> (set c \<union> D) = {}"
      using Cons.prems(5,6) that nth_mem [OF that] ocs by fastforce
    then have "walk hs1 (ocs' ! i) = walk hs (ocs' ! i)" using frame by (intro walk_cong) auto
    then show ?thesis using Cons.prems(4) [of "Suc i"] that ocs by simp
  qed
  have "\<exists>hs' bs' ni' cs'. move_buckets (2 ^ k) ideal old (hs1, bs1, ni1) = Some (hs', bs', ni') \<and>
           in_chains hs' bs' cs' (set (concat ocs') \<union> (set c \<union> D)) \<and> length cs' = 2 ^ k \<and> same_app hs1 hs'"
    using Cons.prems(3,5,6) ocs by (intro Cons.IH [OF 1(1,2) _ rest]) auto
  then show ?case
    using same_app_trans [OF 1(3)] by (auto simp: bk(1) mv ocs Un_ac)
qed

section \<open>The buckets of a table\<close>

text \<open>
  The number of buckets is a power of two, at most \<open>2 ^ 30\<close>, and the buckets hold the handles
  \<open>D\<close>. The next doubling after \<open>2 ^ 30\<close> buckets asks for \<open>2 ^ 35\<close> bytes.
\<close>

definition buckets_ok :: "handle_store \<Rightarrow> UT_hash_table \<Rightarrow> addr set \<Rightarrow> bool" where
  "buckets_ok hs t D \<longleftrightarrow>
     unat (log2_num_buckets t) \<le> 30 \<and> num_buckets t = 2 ^ unat (log2_num_buckets t) \<and>
     (\<exists>cs. length cs = 2 ^ unat (log2_num_buckets t) \<and> in_chains hs (buckets t) cs D)"

definition small_heap :: "allocator \<Rightarrow> bool" where
  "small_heap mem \<longleftrightarrow> (\<forall>n \<ge> 2 ^ 35. \<not> mem n)"

lemma distinct_concat_disjoint:
  "(\<And>i. i < length cs \<Longrightarrow> distinct (cs ! i)) \<Longrightarrow>
   (\<And>i j. i < length cs \<Longrightarrow> j < length cs \<Longrightarrow> i \<noteq> j \<Longrightarrow> set (cs ! i) \<inter> set (cs ! j) = {}) \<Longrightarrow>
   distinct (concat cs)"
proof (induction cs)
  case (Cons c cs)
  have "distinct (concat cs)"
    using Cons.prems [of "Suc _"] by (intro Cons.IH) (use Cons.prems(2) [of "Suc _" "Suc _"] in auto)
  moreover have "set c \<inter> set (concat cs) = {}"
  proof -
    have "set c \<inter> set d = {}" if d: "d \<in> set cs" for d
    proof -
      obtain i where "i < length cs" "d = cs ! i" using d by (auto simp: in_set_conv_nth)
      then show ?thesis using Cons.prems(2) [of 0 "Suc i"] by simp
    qed
    then show ?thesis by auto
  qed
  moreover have "distinct c" using Cons.prems(1) [of 0] by simp
  ultimately show ?case by simp
qed simp

lemma in_chains_partition:
  assumes "in_chains hs bs cs D" "cs \<noteq> []"
  shows "set (concat cs) = D" "distinct (concat cs)"
proof -
  show "distinct (concat cs)"
    using chains_bucket [OF assms(1)] chains_set [OF assms(1)]
    by (intro distinct_concat_disjoint) (auto simp: bucket_ok_def)
  show "set (concat cs) = D"
  proof (rule set_eqI)
    fix a
    have "a \<in> set (concat cs) \<longleftrightarrow> (\<exists>c \<in> set cs. a \<in> set c)" by simp
    also have "\<dots> \<longleftrightarrow> (\<exists>b < length cs. a \<in> set (cs ! b))" by (metis in_set_conv_nth)
    also have "\<dots> \<longleftrightarrow> a \<in> D"
      using chains_set [OF assms(1), of _ a] assms(2) mod_less_divisor [of "length cs" "unat (hashv (hs a))"]
      by blast
    finally show "a \<in> set (concat cs) \<longleftrightarrow> a \<in> D" .
  qed
qed

lemma empty_chains: "in_chains hs (replicate n empty_bucket) (replicate n []) {}"
  by (rule chainsI) (simp_all add: bucket_ok_def empty_bucket_def)

lemma unat_pow2: "k \<le> 31 \<Longrightarrow> unat (2 ^ k :: u32) = 2 ^ k"
proof -
  assume "k \<le> 31"
  then have "unat (of_nat (2 ^ k) :: u32) = 2 ^ k"
    by (simp only: unsigned_of_nat len_num0 len_bit0 len_num1 take_bit_nat_eq_self_iff) simp
  then show ?thesis by simp
qed

lemma HASH_EXPAND_BUCKETS_ok:
  assumes ok: "buckets_ok (handles h) (tbl h) D" and mem: "small_heap mem"
  obtains "HASH_EXPAND_BUCKETS mem h = Some Exit"
  | h' where "HASH_EXPAND_BUCKETS mem h = Some (Run h')" "buckets_ok (handles h') (tbl h') D"
      "same_app (handles h) (handles h')" "hash_head h' = hash_head h"
      "tail (tbl h') = tail (tbl h)" "num_items (tbl h') = num_items (tbl h)"
proof (cases "mem (sizeof_bucket * unat (num_buckets (tbl h)) * 2)")
  case True
  define k where "k = unat (log2_num_buckets (tbl h))"
  obtain cs where nb: "num_buckets (tbl h) = 2 ^ k" and len: "length cs = 2 ^ k" and k: "k \<le> 30"
    and ch: "in_chains (handles h) (buckets (tbl h)) cs D"
    using ok by (auto simp: buckets_ok_def k_def)
  have "k \<noteq> 30"
  proof
    assume "k = 30"
    then have "sizeof_bucket * unat (num_buckets (tbl h)) * 2 = 2 ^ 35"
      by (simp add: nb unat_pow2 sizeof_bucket_def)
    with True mem show False by (simp add: small_heap_def)
  qed
  with k have k': "k \<le> 29" by simp
  have n2: "num_buckets (tbl h) * 2 = 2 ^ (k + 1)" by (simp add: nb)
  have un: "unat (num_buckets (tbl h)) = 2 ^ k" using k by (simp add: nb unat_pow2)
  have "cs \<noteq> []" using len by auto
  note part = in_chains_partition [OF ch this]
  have "hh_head (buckets (tbl h) ! i) = first_of (cs ! i) None \<and> walk (handles h) (cs ! i)"
    if "i < length cs" for i
    using chains_bucket [OF ch that] by (auto simp: bucket_ok_def dest: dlist_walk)
  from move_buckets [OF empty_chains [where n = "2 ^ k * 2"] _ chains_length [OF ch] this part(2),
      of "k + 1" "new_ideal_chain_maxlen (tbl h)" 0]
  obtain hs' bs' ni' cs' where
      mv: "move_buckets (2 ^ (k + 1)) (new_ideal_chain_maxlen (tbl h)) (buckets (tbl h))
             (handles h, replicate (2 ^ k * 2) empty_bucket, 0) = Some (hs', bs', ni')"
    and ch': "in_chains hs' bs' cs' D" "length cs' = 2 ^ (k + 1)" "same_app (handles h) hs'"
    unfolding part(1) by auto
  have old: "take (2 ^ k) (buckets (tbl h)) = buckets (tbl h)"
    using chains_length [OF ch] by (simp add: len)
  have log2: "unat (log2_num_buckets (tbl h) + 1) = k + 1"
    using k by (simp add: k_def unat_plus_if')
  define ineff where
    "ineff = (if drop_bit 1 (num_items (tbl h)) < ni' then ineff_expands (tbl h) + 1 else 0)"
  define h2 where "h2 = h\<lparr>handles := hs', tbl := (tbl h)\<lparr>
      ideal_chain_maxlen := new_ideal_chain_maxlen (tbl h), nonideal_items := ni',
      num_buckets := 2 ^ (k + 1), log2_num_buckets := log2_num_buckets (tbl h) + 1, buckets := bs',
      ineff_expands := ineff, noexpand := if 1 < ineff then 1 else noexpand (tbl h)\<rparr>\<rparr>"
  have "HASH_EXPAND_BUCKETS mem h = Some (Run h2)"
    using True unfolding HASH_EXPAND_BUCKETS_def Let_def un n2 old mv h2_def ineff_def by simp
  moreover have "buckets_ok (handles h2) (tbl h2) D"
    using log2 ch' k' by (auto simp: buckets_ok_def h2_def)
  ultimately show thesis using that(2) [of h2] ch'(3) by (simp add: h2_def)
qed (rule that(1), simp add: HASH_EXPAND_BUCKETS_def Let_def)

lemma same_app_links:
  assumes "same_app hs hs'"
  shows "app_prev (hs' a) = app_prev (hs a)" "app_next (hs' a) = app_next (hs a)"
    "hkey (hs' a) = hkey (hs a)" "keylen (hs' a) = keylen (hs a)" "hashv (hs' a) = hashv (hs a)"
  using assms by (simp_all add: same_app_def)

text \<open>A handle enters the bucket of its hash value, whether or not the buckets are doubled.\<close>

lemma HASH_ADD_TO_TABLE_ok:
  assumes ok: "buckets_ok (handles h) (tbl h) D" and mem: "small_heap mem" and a: "a \<notin> D"
    and hv: "hashv (handles h a) = hv"
  obtains "HASH_ADD_TO_TABLE mem hv a h = Some Exit"
  | h' where "HASH_ADD_TO_TABLE mem hv a h = Some (Run h')" "buckets_ok (handles h') (tbl h') (insert a D)"
      "same_app (handles h) (handles h')" "hash_head h' = hash_head h"
      "tail (tbl h') = tail (tbl h)" "num_items (tbl h') = num_items (tbl h) + 1"
proof -
  define k where "k = unat (log2_num_buckets (tbl h))"
  obtain cs where nb: "num_buckets (tbl h) = 2 ^ k" and len: "length cs = 2 ^ k" and k: "k \<le> 30"
    and ch: "in_chains (handles h) (buckets (tbl h)) cs D"
    using ok by (auto simp: buckets_ok_def k_def)
  let ?b = "unat hv mod length cs"
  let ?bk = "buckets (tbl h) ! ?b"
  have b: "HASH_TO_BKT hv (num_buckets (tbl h)) = ?b" by (simp add: nb len HASH_TO_BKT_mod)
  have "cs \<noteq> []" using len by auto
  let ?bk' = "?bk\<lparr>bkt_count := bkt_count ?bk + 1, hh_head := Some a\<rparr>"
  define h1 where "h1 = put_in_bkt ?b a (h\<lparr>tbl := (tbl h)\<lparr>num_items := num_items (tbl h) + 1\<rparr>\<rparr>)"
  note h1_def = h1_def [unfolded put_in_bkt_def]
  have "in_chains (handles h1) (buckets (tbl h1)) (cs[?b := a # cs ! ?b]) (insert a D)"
    using chains_push [OF ch a _ \<open>cs \<noteq> []\<close>, of ?b ?bk'] hv by (simp add: h1_def)
  then have ok1: "buckets_ok (handles h1) (tbl h1) (insert a D)"
    using k nb len by (auto simp: buckets_ok_def h1_def k_def intro!: exI [of _ "cs[?b := a # cs ! ?b]"])
  have h1: "same_app (handles h) (handles h1)" "hash_head h1 = hash_head h" "tail (tbl h1) = tail (tbl h)"
      "num_items (tbl h1) = num_items (tbl h) + 1"
    by (simp_all add: h1_def same_app_push)
  have add: "HASH_ADD_TO_TABLE mem hv a h =
      (if bkt_full ?b (tbl h1) then HASH_EXPAND_BUCKETS mem h1 else Some (Run h1))"
    by (simp add: HASH_ADD_TO_TABLE_def HASH_ADD_TO_BKT_def expand_if_full_def b h1_def put_in_bkt_def)
  show thesis
  proof (rule HASH_EXPAND_BUCKETS_ok [OF ok1 mem])
    assume "HASH_EXPAND_BUCKETS mem h1 = Some Exit"
    then show thesis using add that(1) that(2) [of h1] ok1 h1 by (auto split: if_splits)
  next
    fix h' assume h': "HASH_EXPAND_BUCKETS mem h1 = Some (Run h')" "buckets_ok (handles h') (tbl h') (insert a D)"
      "same_app (handles h1) (handles h')" "hash_head h' = hash_head h1"
      "tail (tbl h') = tail (tbl h1)" "num_items (tbl h') = num_items (tbl h1)"
    then show thesis
      using add that(2) [of h'] that(2) [of h1] ok1 h1 same_app_trans [OF h1(1) h'(3)]
      by (auto split: if_splits)
  qed
qed

section \<open>The table of a list of keys and elements\<close>

text \<open>
  \<open>hash_rep h es\<close>: the table holds the elements \<open>es\<close>, a list of keys and addresses in the order
  of their insertion.
\<close>

definition in_order :: "handle_store \<Rightarrow> addr list \<Rightarrow> bool" where
  "in_order hs xs \<longleftrightarrow> dlist (\<lambda>a. app_next (hs a)) (\<lambda>a. app_prev (hs a)) None xs None"

definition keyed :: "handle_store \<Rightarrow> (string \<times> addr) list \<Rightarrow> bool" where
  "keyed hs es \<longleftrightarrow>
     (\<forall>(k, a) \<in> set es. hkey (hs a) = k \<and> length k < 2 ^ 32 \<and> keylen (hs a) = str_len k \<and>
        hashv (hs a) = HASH_JEN k (str_len k))"

definition table_rep :: "handle_store \<Rightarrow> UT_hash_table \<Rightarrow> addr list \<Rightarrow> bool" where
  "table_rep hs t xs \<longleftrightarrow>
     tail t = last_of None xs \<and> num_items t = of_nat (length xs) \<and> buckets_ok hs t (set xs)"

definition hash_rep :: "uthash \<Rightarrow> (string \<times> addr) list \<Rightarrow> bool" where
  "hash_rep h es \<longleftrightarrow>
     length es < 2 ^ 32 \<and> distinct (map fst es) \<and> distinct (map snd es) \<and>
     hash_head h = first_of (map snd es) None \<and> in_order (handles h) (map snd es) \<and>
     keyed (handles h) es \<and> (es \<noteq> [] \<longrightarrow> table_rep (handles h) (tbl h) (map snd es))"

lemma hash_rep_empty: "hash_head h = None \<Longrightarrow> hash_rep h []"
  by (simp add: hash_rep_def in_order_def keyed_def)

lemma hash_rep_distinct: "hash_rep h es \<Longrightarrow> distinct (map fst es) \<and> distinct (map snd es)"
  by (simp add: hash_rep_def)

lemma str_len_inject:
  "length k < 2 ^ 32 \<Longrightarrow> length k' < 2 ^ 32 \<Longrightarrow> str_len k = str_len k' \<longleftrightarrow> length k = length k'"
  by (simp add: str_len_def of_nat_eq_iff take_bit_nat_eq_self word_of_nat_eq_iff)

lemma unat_str_len: "length k < 2 ^ 32 \<Longrightarrow> unat (str_len k) = length k"
  by (simp add: str_len_def unsigned_of_nat take_bit_nat_eq_self)

lemma HASH_FIND_IN_BKT_find:
  assumes "walk hs c" "length k < 2 ^ 32"
    and "\<And>a. a \<in> set c \<Longrightarrow> length (hkey (hs a)) < 2 ^ 32 \<and> keylen (hs a) = str_len (hkey (hs a))"
  shows "HASH_FIND_IN_BKT hs k (str_len k) hv (first_of c None) =
           Some (find (\<lambda>a. hashv (hs a) = hv \<and> hkey (hs a) = k) c)"
  using assms
proof (induction c)
  case Nil
  then show ?case by (simp add: HASH_FIND_IN_BKT.simps)
next
  case (Cons a c)
  have "keylen (hs a) = str_len k \<and> take (unat (str_len k)) (hkey (hs a)) = take (unat (str_len k)) k \<longleftrightarrow>
      hkey (hs a) = k"
    using Cons.prems(2) Cons.prems(3) [of a] by (auto simp: str_len_inject unat_str_len)
  then show ?case
    using Cons by (simp add: HASH_FIND_IN_BKT.simps [of _ _ _ _ "Some a"]) 
qed

lemma find_unique:
  assumes "a \<in> set c" "P a" and eq: "\<And>x. x \<in> set c \<Longrightarrow> P x \<Longrightarrow> x = a"
  shows "find P c = Some a"
proof -
  have "find P c \<noteq> None" using assms(1,2) by (auto simp: find_None_iff)
  then obtain x where x: "find P c = Some x" by auto
  then have "x \<in> set c \<and> P x" by (auto simp: find_Some_iff)
  with x eq show ?thesis by blast
qed

lemma find_none: "(\<And>x. x \<in> set c \<Longrightarrow> \<not> P x) \<Longrightarrow> find P c = None"
  by (induction c) auto

lemma keyedD:
  "keyed hs es \<Longrightarrow> (k, a) \<in> set es \<Longrightarrow>
     hkey (hs a) = k \<and> length k < 2 ^ 32 \<and> keylen (hs a) = str_len k \<and> hashv (hs a) = HASH_JEN k (str_len k)"
  by (auto simp: keyed_def)

lemma HASH_FIND_STR_rep:
  assumes rep: "hash_rep h es" and k: "length k < 2 ^ 32"
  shows "HASH_FIND_STR h k = Some (map_of es k)"
proof (cases "es = []")
  case True
  with rep show ?thesis by (simp add: HASH_FIND_STR_def HASH_FIND_def hash_rep_def)
next
  case False
  let ?hv = "HASH_JEN k (str_len k)" and ?D = "set (map snd es)"
  have key: "keyed (handles h) es" and tab: "table_rep (handles h) (tbl h) (map snd es)"
    and head: "hash_head h \<noteq> None" and dist: "distinct (map fst es)"
    using rep False by (auto simp: hash_rep_def neq_Nil_conv)
  obtain cs where len: "length cs = 2 ^ unat (log2_num_buckets (tbl h))"
    and nb: "num_buckets (tbl h) = 2 ^ unat (log2_num_buckets (tbl h))"
    and ch: "in_chains (handles h) (buckets (tbl h)) cs ?D"
    using tab by (auto simp: table_rep_def buckets_ok_def)
  define b where "b = HASH_TO_BKT ?hv (num_buckets (tbl h))"
  have b: "b = unat ?hv mod length cs" unfolding b_def nb HASH_TO_BKT_mod len ..
  have "cs \<noteq> []" using len by auto
  then have lt: "b < length cs" by (simp add: b)
  let ?P = "\<lambda>a. hashv (handles h a) = ?hv \<and> hkey (handles h a) = k"
  have "length (hkey (handles h a)) < 2 ^ 32 \<and> keylen (handles h a) = str_len (hkey (handles h a))"
    if "a \<in> set (cs ! b)" for a
    using that chains_set [OF ch lt, of a] keyedD [OF key] by force
  then have "HASH_FIND_IN_BKT (handles h) k (str_len k) ?hv (hh_head (buckets (tbl h) ! b)) =
      Some (find ?P (cs ! b))"
    using HASH_FIND_IN_BKT_find [OF bucket_ok_walk [OF chains_bucket [OF ch lt]] k] chains_bucket [OF ch lt]
    by (simp add: bucket_ok_def)
  moreover have "find ?P (cs ! b) = map_of es k"
  proof (cases "map_of es k")
    case None
    have "\<not> ?P x" if "x \<in> set (cs ! b)" for x
      using that chains_set [OF ch lt, of x] keyedD [OF key] None by (force simp: map_of_eq_None_iff)
    then show ?thesis by (simp add: None find_none)
  next
    case (Some a)
    then have a: "(k, a) \<in> set es" by (rule map_of_SomeD)
    have "find ?P (cs ! b) = Some a"
    proof (rule find_unique)
      show "a \<in> set (cs ! b)" using chains_set [OF ch lt, of a] keyedD [OF key a] a by (force simp: b)
      show "?P a" using keyedD [OF key a] by simp
      fix x assume "x \<in> set (cs ! b)" and P: "?P x"
      then obtain k' where x: "(k', x) \<in> set es" using chains_set [OF ch lt, of x] by auto
      then have "k' = k" using P keyedD [OF key x] by simp
      with x a dist show "x = a" by (metis map_of_is_SomeI option.inject)
    qed
    with Some show ?thesis by simp
  qed
  ultimately show ?thesis
    using head
    by (cases "hash_head h") (simp_all add: HASH_FIND_STR_def HASH_FIND_def HASH_FIND_BYHASHVALUE_def b_def)
qed

section \<open>Insertion appends\<close>

lemma map_links_upd:
  "app_next (upd_hh a f hs x) = (if x = a then app_next (f (hs x)) else app_next (hs x))"
  "app_prev (upd_hh a f hs x) = (if x = a then app_prev (f (hs x)) else app_prev (hs x))"
  by (simp_all add: upd_hh_apply)

lemma in_order_cong:
  "(\<And>a. a \<in> set xs \<Longrightarrow> app_next (hs' a) = app_next (hs a) \<and> app_prev (hs' a) = app_prev (hs a)) \<Longrightarrow>
     in_order hs' xs = in_order hs xs"
  unfolding in_order_def by (metis (no_types, lifting) dlist_cong)

lemma keyed_cong:
  "(\<And>a. a \<in> set (map snd es) \<Longrightarrow>
      hkey (hs' a) = hkey (hs a) \<and> keylen (hs' a) = keylen (hs a) \<and> hashv (hs' a) = hashv (hs a)) \<Longrightarrow>
     keyed hs' es = keyed hs es"
  unfolding keyed_def by (rule ball_cong) force+

lemma in_chains_cong:
  assumes "\<And>a. a \<in> D \<Longrightarrow> hh_next (hs' a) = hh_next (hs a) \<and> hh_prev (hs' a) = hh_prev (hs a) \<and>
      hashv (hs' a) = hashv (hs a)" and ch: "in_chains hs bs cs D"
  shows "in_chains hs' bs cs D"
proof (rule chainsI)
  fix b assume b: "b < length cs"
  have "bucket_ok hs' (bs ! b) (cs ! b) = bucket_ok hs (bs ! b) (cs ! b)"
    using assms(1) chains_set [OF ch b] by (intro bucket_ok_cong) blast
  then show "bucket_ok hs' (bs ! b) (cs ! b)" using chains_bucket [OF ch b] by simp
  show "a \<in> set (cs ! b) \<longleftrightarrow> a \<in> D \<and> unat (hashv (hs' a)) mod length cs = b" for a
    using chains_set [OF ch b, of a] assms(1) [of a] by auto
qed (rule chains_length [OF ch])

lemma buckets_ok_cong:
  assumes "\<And>a. a \<in> D \<Longrightarrow> hh_next (hs' a) = hh_next (hs a) \<and> hh_prev (hs' a) = hh_prev (hs a) \<and>
      hashv (hs' a) = hashv (hs a)" and "buckets_ok hs t D"
    and "buckets t' = buckets t" "num_buckets t' = num_buckets t" "log2_num_buckets t' = log2_num_buckets t"
  shows "buckets_ok hs' t' D"
  using assms in_chains_cong [of D hs' hs] unfolding buckets_ok_def by metis

text \<open>From a handle that is linked in the order of insertion to one that is in its bucket, too.\<close>

lemma HASH_ADD_STR_table:
  assumes ok: "buckets_ok (handles h) (tbl h) D" and mem: "small_heap mem" and a: "a \<notin> D"
    and hv: "hashv (handles h a) = HASH_JEN k (str_len k)"
    and order: "in_order (handles h) xs" and key: "keyed (handles h) es" 
    and new: "length es < 2 ^ 32" "distinct (map fst es)" "distinct xs" "map snd es = xs" "es \<noteq> []"
      "hash_head h = first_of xs None" "tail (tbl h) = last_of None xs" "insert a D = set xs"
      "num_items (tbl h) + 1 = of_nat (length xs)"
  shows "HASH_ADD_TO_TABLE mem (HASH_JEN k (str_len k)) a h = Some Exit \<or>
    (\<exists>h'. HASH_ADD_TO_TABLE mem (HASH_JEN k (str_len k)) a h = Some (Run h') \<and> hash_rep h' es)"
proof (rule HASH_ADD_TO_TABLE_ok [OF ok mem a hv])
  fix h' assume *: "HASH_ADD_TO_TABLE mem (HASH_JEN k (str_len k)) a h = Some (Run h')"
    "buckets_ok (handles h') (tbl h') (insert a D)" "same_app (handles h) (handles h')"
    "hash_head h' = hash_head h" "tail (tbl h') = tail (tbl h)" "num_items (tbl h') = num_items (tbl h) + 1"
  have "in_order (handles h') xs" "keyed (handles h') es"
    using order key same_app_links [OF *(3)] in_order_cong [of xs "handles h'" "handles h"]
      keyed_cong [of es "handles h'" "handles h"] by simp_all
  then have "hash_rep h' es" using new * by (simp add: hash_rep_def table_rep_def)
  then show ?thesis using *(1) by blast
qed simp

lemma fresh_table_ok:
  assumes "HASH_MAKE_TABLE mem a h = Run h'"
  shows "buckets_ok hs (tbl h') {}" "handles h' = handles h" "num_items (tbl h') = 0"
    "tail (tbl h') = Some a"
  using assms empty_chains [of hs 32]
  by (auto simp: HASH_MAKE_TABLE_def HASH_INITIAL_NUM_BUCKETS_def HASH_INITIAL_NUM_BUCKETS_LOG2_def
      buckets_ok_def split: if_splits intro!: exI [of _ "replicate 32 []"])

lemma HASH_ADD_STR_first:
  assumes rep: "hash_rep h []" and k: "length k < 2 ^ 32" and mem: "small_heap mem"
  shows "HASH_ADD_STR mem k a h = Some Exit \<or>
    (\<exists>h'. HASH_ADD_STR mem k a h = Some (Run h') \<and> hash_rep h' [(k, a)])"
proof -
  let ?f = "\<lambda>x. x\<lparr>hashv := HASH_JEN k (str_len k), hkey := k, keylen := str_len k,
      app_next := None, app_prev := None\<rparr>"
  define h1 where "h1 = h\<lparr>handles := upd_hh a ?f (handles h)\<rparr>"
  have add: "HASH_ADD_STR mem k a h =
      (case HASH_MAKE_TABLE mem a h1 of Exit \<Rightarrow> Some Exit
       | Run h \<Rightarrow> HASH_ADD_TO_TABLE mem (HASH_JEN k (str_len k)) a (h\<lparr>hash_head := Some a\<rparr>))"
    using rep
    by (simp add: HASH_ADD_STR_def HASH_ADD_KEYPTR_def HASH_ADD_KEYPTR_BYHASHVALUE_def set_key_def set_alone_def h1_def
        hash_rep_def upd_hh_def)
  show ?thesis
  proof (cases "HASH_MAKE_TABLE mem a h1")
    case (Run h2)
    note tab = fresh_table_ok [OF Run]
    have "HASH_ADD_TO_TABLE mem (HASH_JEN k (str_len k)) a (h2\<lparr>hash_head := Some a\<rparr>) = Some Exit \<or>
      (\<exists>h'. HASH_ADD_TO_TABLE mem (HASH_JEN k (str_len k)) a (h2\<lparr>hash_head := Some a\<rparr>) = Some (Run h') \<and>
        hash_rep h' [(k, a)])"
      using tab k
      by (intro HASH_ADD_STR_table [where D = "{}" and xs = "[a]"])
        (simp_all add: mem h1_def upd_hh_apply in_order_def keyed_def)
    with Run show ?thesis by (simp add: add)
  qed (simp add: add)
qed

lemma HASH_ADD_STR_append:
  assumes rep: "hash_rep h es" and es: "es \<noteq> []" and len: "Suc (length es) < 2 ^ 32"
    and k: "length k < 2 ^ 32" "k \<notin> fst ` set es" and a: "a \<notin> snd ` set es" and mem: "small_heap mem"
  shows "HASH_ADD_STR mem k a h = Some Exit \<or>
    (\<exists>h'. HASH_ADD_STR mem k a h = Some (Run h') \<and> hash_rep h' (es @ [(k, a)]))"
proof -
  let ?xs = "map snd es"
  let ?f = "\<lambda>x. x\<lparr>hashv := HASH_JEN k (str_len k), hkey := k, keylen := str_len k\<rparr>"
  define h1 where "h1 = HASH_APPEND_LIST a (h\<lparr>handles := upd_hh a ?f (handles h)\<rparr>)"
  have head: "hash_head h = first_of ?xs None" and ord: "in_order (handles h) ?xs"
    and key: "keyed (handles h) es" and tab: "table_rep (handles h) (tbl h) ?xs"
    and dist: "distinct (map fst es)" "distinct ?xs"
    using rep es by (auto simp: hash_rep_def)
  have "hash_head h \<noteq> None" using head es by (cases es) auto
  then have add: "HASH_ADD_STR mem k a h = HASH_ADD_TO_TABLE mem (HASH_JEN k (str_len k)) a h1"
    by (cases "hash_head h")
      (simp_all add: HASH_ADD_STR_def HASH_ADD_KEYPTR_def HASH_ADD_KEYPTR_BYHASHVALUE_def set_key_def set_alone_def h1_def)
  have tl: "tail (tbl h) = last_of None ?xs" "num_items (tbl h) = of_nat (length es)"
    and bk: "buckets_ok (handles h) (tbl h) (set ?xs)"
    using tab by (simp_all add: table_rep_def)
  have a': "a \<notin> set ?xs" using a by simp
  have frame: "hh_next (handles h1 x) = hh_next (handles h x)" "hh_prev (handles h1 x) = hh_prev (handles h x)"
    "x \<noteq> a \<Longrightarrow> hashv (handles h1 x) = hashv (handles h x) \<and> hkey (handles h1 x) = hkey (handles h x) \<and>
       keylen (handles h1 x) = keylen (handles h x)" for x
    by (simp_all add: h1_def HASH_APPEND_LIST_def upd_ptr_apply upd_hh_apply)
  have new: "hashv (handles h1 a) = HASH_JEN k (str_len k)" "hkey (handles h1 a) = k"
    "keylen (handles h1 a) = str_len k"
    by (simp_all add: h1_def HASH_APPEND_LIST_def upd_ptr_apply upd_hh_apply)
  have tbl1: "buckets (tbl h1) = buckets (tbl h)" "num_buckets (tbl h1) = num_buckets (tbl h)"
    "log2_num_buckets (tbl h1) = log2_num_buckets (tbl h)" "num_items (tbl h1) = num_items (tbl h)"
    "tail (tbl h1) = Some a" "hash_head h1 = hash_head h"
    by (simp_all add: h1_def HASH_APPEND_LIST_def)
  have "buckets_ok (handles h1) (tbl h1) (set ?xs)"
  proof (rule buckets_ok_cong [OF _ bk])
    fix x assume "x \<in> set ?xs"
    with a' have "x \<noteq> a" by auto
    then show "hh_next (handles h1 x) = hh_next (handles h x) \<and> hh_prev (handles h1 x) = hh_prev (handles h x) \<and>
        hashv (handles h1 x) = hashv (handles h x)"
      using frame by simp
  qed (simp_all add: tbl1)
  moreover have "in_order (handles h1) (?xs @ [a])"
    unfolding in_order_def
  proof (rule dlist_snoc [OF ord [unfolded in_order_def] dist(2) a'])
    have tail_a: "tail (tbl h) \<noteq> Some a" using a' last_of_eq_Some [of ?xs a] by (auto simp: tl)
    show "app_next (handles h1 a) = None" "app_prev (handles h1 a) = last_of None ?xs"
      using tail_a by (simp_all add: h1_def HASH_APPEND_LIST_def upd_ptr_apply upd_hh_apply tl)
    fix x assume "x \<in> set ?xs"
    with a' have "x \<noteq> a" by auto
    then show "app_next (handles h1 x) = (if last_of None ?xs = Some x then Some a else app_next (handles h x))"
      "app_prev (handles h1 x) = app_prev (handles h x)"
      by (simp_all add: h1_def HASH_APPEND_LIST_def upd_ptr_apply upd_hh_apply tl)
  qed
  moreover have "keyed (handles h1) (es @ [(k, a)])"
  proof -
    have "keyed (handles h1) es = keyed (handles h) es"
    proof (rule keyed_cong)
      fix x assume "x \<in> set ?xs"
      with a' have "x \<noteq> a" by auto
      then show "hkey (handles h1 x) = hkey (handles h x) \<and> keylen (handles h1 x) = keylen (handles h x) \<and>
          hashv (handles h1 x) = hashv (handles h x)"
        using frame(3) by simp
    qed
    with key new k(1) show ?thesis by (auto simp: keyed_def)
  qed
  ultimately show ?thesis
    unfolding add using dist k a' len es head
    by (intro HASH_ADD_STR_table [where D = "set ?xs" and xs = "?xs @ [a]"])
      (auto simp: mem new tbl1 tl first_of_def split: list.splits)
qed

lemma HASH_ADD_STR_rep:
  assumes "hash_rep h es" "Suc (length es) < 2 ^ 32" "length k < 2 ^ 32" "k \<notin> fst ` set es"
    and "a \<notin> snd ` set es" "small_heap mem"
  shows "HASH_ADD_STR mem k a h = Some Exit \<or>
    (\<exists>h'. HASH_ADD_STR mem k a h = Some (Run h') \<and> hash_rep h' (es @ [(k, a)]))"
  using assms HASH_ADD_STR_append [of h es k a mem] HASH_ADD_STR_first [of h k mem a]
  by (cases "es = []") simp_all

section \<open>Deletion removes\<close>

lemma in_chains_unlink:
  assumes ch: "in_chains hs bs cs D" and b: "b = unat (hashv (hs a)) mod length cs" and "a \<in> D" "cs \<noteq> []"
    and nx: "\<And>x. x \<in> D \<Longrightarrow> x \<noteq> a \<Longrightarrow>
        hh_next (hs' x) = (if hh_prev (hs a) = Some x then hh_next (hs a) else hh_next (hs x))"
    and pv: "\<And>x. x \<in> D \<Longrightarrow> x \<noteq> a \<Longrightarrow>
        hh_prev (hs' x) = (if hh_next (hs a) = Some x then hh_prev (hs a) else hh_prev (hs x))"
    and hv: "\<And>x. hashv (hs' x) = hashv (hs x)"
    and bk: "hh_head bk = (if hh_head (bs ! b) = Some a then hh_next (hs a) else hh_head (bs ! b))"
      "bkt_count bk = bkt_count (bs ! b) - 1"
  shows "\<exists>cs'. length cs' = length cs \<and> in_chains hs' (bs[b := bk]) cs' (D - {a})"
proof -
  have lt: "b < length cs" using b \<open>cs \<noteq> []\<close> by simp
  have "a \<in> set (cs ! b)" using chains_set [OF ch lt, of a] \<open>a \<in> D\<close> b by simp
  then obtain c1 c2 where c: "cs ! b = c1 @ a # c2" by (auto dest: split_list)
  have ok: "bucket_ok hs (bs ! b) (c1 @ a # c2)" using chains_bucket [OF ch lt] c by simp
  have dist: "distinct (c1 @ a # c2)"
    and dl: "dlist (\<lambda>a. hh_next (hs a)) (\<lambda>a. hh_prev (hs a)) None (c1 @ a # c2) None"
    and hd: "hh_head (bs ! b) = first_of (c1 @ a # c2) None"
    and n: "bkt_count (bs ! b) = of_nat (length (c1 @ a # c2))"
    using ok by (simp_all only: bucket_ok_def)
  have "dlist (\<lambda>a. hh_next (hs' a)) (\<lambda>a. hh_prev (hs' a)) None (c1 @ c2) None"
  proof (rule dlist_unlink [OF dl dist])
    fix x assume "x \<in> set c1 \<union> set c2"
    then have "x \<in> D \<and> x \<noteq> a" using chains_set [OF ch lt, of x] dist by (auto simp: c)
    then show "hh_next (hs' x) = (if hh_prev (hs a) = Some x then hh_next (hs a) else hh_next (hs x))"
      "hh_prev (hs' x) = (if hh_next (hs a) = Some x then hh_prev (hs a) else hh_prev (hs x))"
      using nx pv by blast+
  qed
  moreover have "hh_head bk = first_of (c1 @ c2) None"
    using bk(1) hd dl dist by (cases c1) auto
  ultimately have ok': "bucket_ok hs' bk (c1 @ c2)"
    using dist n by (simp add: bucket_ok_def bk(2))
  have links: "prev_or_next \<in> set (cs ! b)"
    if "hh_prev (hs a) = Some prev_or_next \<or> hh_next (hs a) = Some prev_or_next" for prev_or_next
    using that dl last_of_eq_Some [of c1 prev_or_next] first_of_eq_Some [of c2 prev_or_next]
    by (auto simp: c)
  have "in_chains hs' (bs[b := bk]) (cs[b := c1 @ c2]) (D - {a})"
  proof (rule chainsI)
    fix b' assume b': "b' < length (cs[b := c1 @ c2])"
    show "bucket_ok hs' (bs[b := bk] ! b') (cs[b := c1 @ c2] ! b')"
    proof (cases "b' = b")
      case False
      have "x \<in> D \<and> x \<noteq> a \<and> hh_prev (hs a) \<noteq> Some x \<and> hh_next (hs a) \<noteq> Some x" if "x \<in> set (cs ! b')" for x
        using that links [of x] chains_set [OF ch, of b' x] chains_set [OF ch lt, of x] False b' b by auto
      then have "bucket_ok hs' (bs ! b') (cs ! b') = bucket_ok hs (bs ! b') (cs ! b')"
        using nx pv by (intro bucket_ok_cong) simp
      then show ?thesis using False b' chains_bucket [OF ch, of b'] by simp
    qed (use lt ok' chains_length [OF ch] in simp)
  next
    fix b' x assume b': "b' < length (cs[b := c1 @ c2])"
    have "x \<in> set (c1 @ c2) \<longleftrightarrow> x \<in> set (cs ! b) \<and> x \<noteq> a" using dist by (auto simp: c)
    then show "x \<in> set (cs[b := c1 @ c2] ! b') \<longleftrightarrow>
        x \<in> D - {a} \<and> unat (hashv (hs' x)) mod length (cs[b := c1 @ c2]) = b'"
      using chains_set [OF ch, of b' x] b' lt b by (cases "b' = b") (auto simp: hv)
  qed (simp add: chains_length [OF ch])
  then show ?thesis by (intro exI [of _ "cs[b := c1 @ c2]"]) simp
qed

lemma first_of_None: "first_of xs None = None \<longleftrightarrow> xs = []"
  by (cases xs) simp_all

lemma last_of_None: "last_of None xs = None \<longleftrightarrow> xs = []"
  by (cases xs rule: rev_cases) simp_all

lemma HASH_DELETE_rep:
  assumes rep: "hash_rep h (es1 @ (k, a) # es2)"
  shows "hash_rep (HASH_DELETE_HH a h) (es1 @ es2)"
proof -
  let ?x1 = "map snd es1" and ?x2 = "map snd es2"
  let ?x = "handles h a" and ?D = "set (?x1 @ a # ?x2)"
  have head: "hash_head h = first_of (?x1 @ a # ?x2) None" and ord: "in_order (handles h) (?x1 @ a # ?x2)"
    and key: "keyed (handles h) (es1 @ (k, a) # es2)" and tab: "table_rep (handles h) (tbl h) (?x1 @ a # ?x2)"
    and dist: "distinct (map fst (es1 @ (k, a) # es2))" "distinct (?x1 @ a # ?x2)"
    and len: "length (es1 @ (k, a) # es2) < 2 ^ 32"
    using rep by (auto simp: hash_rep_def)
  have ends: "app_prev ?x = last_of None ?x1" "app_next ?x = first_of ?x2 None"
    using ord by (simp_all add: in_order_def)
  show ?thesis
  proof (cases "es1 = [] \<and> es2 = []")
    case True
    then have "HASH_DELETE_HH a h = h\<lparr>hash_head := None\<rparr>"
      using ends by (simp add: HASH_DELETE_HH_def Let_def)
    with True show ?thesis by (simp add: hash_rep_empty)
  next
    case False
    obtain cs where cs: "length cs = 2 ^ unat (log2_num_buckets (tbl h))"
      and nb: "num_buckets (tbl h) = 2 ^ unat (log2_num_buckets (tbl h))"
      and log: "unat (log2_num_buckets (tbl h)) \<le> 30"
      and ch: "in_chains (handles h) (buckets (tbl h)) cs ?D"
      using tab by (auto simp: table_rep_def buckets_ok_def)
    define b where "b = HASH_TO_BKT (hashv ?x) (num_buckets (tbl h))"
    have b: "b = unat (hashv ?x) mod length cs" unfolding b_def nb HASH_TO_BKT_mod cs ..
    define h' where "h' = HASH_DELETE_HH a h"
    let ?bk = "buckets (tbl h) ! b"
    let ?bk' = "?bk\<lparr>bkt_count := bkt_count ?bk - 1,
        hh_head := if hh_head ?bk = Some a then hh_next ?x else hh_head ?bk\<rparr>"
    have some: "\<not> (app_prev ?x = None \<and> app_next ?x = None)"
      using False by (simp add: ends first_of_None last_of_None)
    have loops: "app_prev ?x \<noteq> Some a" "app_next ?x \<noteq> Some a"
      using dist(2) last_of_eq_Some [of ?x1 a] first_of_eq_Some [of ?x2 a] by (auto simp: ends)
    have next_ext: "app_next (handles h' y) = (if app_prev ?x = Some y then app_next ?x else app_next (handles h y))"
      "app_prev (handles h' y) = (if app_next ?x = Some y then app_prev ?x else app_prev (handles h y))"
      "hh_next (handles h' y) = (if hh_prev ?x = Some y then hh_next ?x else hh_next (handles h y))"
      "hh_prev (handles h' y) = (if hh_next ?x = Some y then hh_prev ?x else hh_prev (handles h y))"
      "hkey (handles h' y) = hkey (handles h y)" "keylen (handles h' y) = keylen (handles h y)"
      "hashv (handles h' y) = hashv (handles h y)" for y
      using some loops
      by (auto simp: h'_def HASH_DELETE_HH_def HASH_DEL_IN_BKT_def Let_def upd_ptr_apply)
    have tbl': "buckets (tbl h') = (buckets (tbl h))[b := ?bk']" "num_buckets (tbl h') = num_buckets (tbl h)"
      "log2_num_buckets (tbl h') = log2_num_buckets (tbl h)" "num_items (tbl h') = num_items (tbl h) - 1"
      "tail (tbl h') = (if tail (tbl h) = Some a then app_prev ?x else tail (tbl h))"
      "hash_head h' = (if app_prev ?x = None then app_next ?x else hash_head h)"
      using some loops
      by (auto simp: h'_def HASH_DELETE_HH_def HASH_DEL_IN_BKT_def Let_def upd_ptr_apply b_def)
    have "in_order (handles h') (?x1 @ ?x2)"
      unfolding in_order_def by (rule dlist_unlink [OF ord [unfolded in_order_def] dist(2)]) (simp_all add: next_ext)
    moreover have "keyed (handles h') (es1 @ es2)"
      using key by (auto simp: keyed_def next_ext)
    moreover have "buckets_ok (handles h') (tbl h') (set (?x1 @ ?x2))"
    proof -
      have "cs \<noteq> []" using cs by auto
      then have "\<exists>cs'. length cs' = length cs \<and>
          in_chains (handles h') ((buckets (tbl h))[b := ?bk']) cs' (?D - {a})"
        by (intro in_chains_unlink [OF ch b]) (simp_all add: next_ext)
      moreover have "?D - {a} = set (?x1 @ ?x2)" using dist(2) by auto
      ultimately show ?thesis using cs log nb by (auto simp: buckets_ok_def tbl')
    qed
    moreover have "tail (tbl h') = last_of None (?x1 @ ?x2)"
    proof (cases "es2 = []")
      case True
      then show ?thesis using tab by (simp add: tbl' table_rep_def ends)
    next
      case False
      then have "last ?x2 \<in> set ?x2" by (intro last_in_set) simp
      with dist(2) have "last ?x2 \<noteq> a" by auto
      with False show ?thesis using tab by (simp add: tbl' table_rep_def last_of_def)
    qed
    moreover have "hash_head h' = first_of (?x1 @ ?x2) None"
      using head by (cases es1) (simp_all add: tbl' ends last_of_def)
    moreover have "num_items (tbl h') = of_nat (length (?x1 @ ?x2))"
      using tab by (simp add: tbl' table_rep_def)
    ultimately show ?thesis
      using dist len by (simp add: hash_rep_def table_rep_def flip: h'_def)
  qed
qed

section \<open>Iteration visits the elements in order\<close>

text \<open>
  \<open>I xs s\<close> says that \<open>xs\<close> are the elements still to be visited and that their successors can be
  read off \<open>s\<close>.
\<close>

lemma HASH_ITER_visits:
  assumes step: "\<And>a xs s. I (a # xs) s \<Longrightarrow> I xs (body a s)"
    and link: "\<And>a xs s. I (a # xs) s \<Longrightarrow> app_next (links s a) = first_of xs None"
    and "I xs s"
  shows "HASH_ITER links body (first_of xs None) s = Some (fold body xs s) \<and> I [] (fold body xs s)"
proof -
  have loop: "HASH_ITER_loop links body (first_of xs None)
        (case first_of xs None of None \<Rightarrow> None | Some a \<Rightarrow> app_next (links s a)) s = Some (fold body xs s) \<and>
      I [] (fold body xs s)" if "I xs s" for xs s
    using that
  proof (induction xs arbitrary: s)
    case Nil
    then show ?case by (simp add: HASH_ITER_loop.simps)
  next
    case (Cons a xs)
    then show ?case
      using step [OF Cons.prems] link [OF Cons.prems] Cons.IH [of "body a s"]
      by (simp add: HASH_ITER_loop.simps [of _ _ "Some a"] Let_def)
  qed
  show ?thesis using loop [OF \<open>I xs s\<close>] by (simp add: HASH_ITER_def)
qed

lemma in_order_links:
  "in_order hs xs \<Longrightarrow> xs = ys @ a # zs \<Longrightarrow> app_next (hs a) = first_of zs None"
  by (simp add: in_order_def)

lemma hash_rep_order:
  assumes "hash_rep h es"
  shows "in_order (handles h) (map snd es)" "hash_head h = first_of (map snd es) None"
  using assms by (simp_all add: hash_rep_def)

text \<open>A body that leaves the links alone, and a body that deletes the element it is at.\<close>

lemma HASH_ITER_read:
  assumes rep: "hash_rep h es" and "\<And>a s. links (body a s) = links s" and "links s = handles h"
  shows "HASH_ITER links body (hash_head h) s = Some (fold body (map snd es) s)"
proof -
  let ?I = "\<lambda>xs s. links s = handles h \<and> (\<exists>ys. map snd es = ys @ xs)"
  note ord = hash_rep_order [OF rep]
  have "HASH_ITER links body (first_of (map snd es) None) s = Some (fold body (map snd es) s) \<and>
      ?I [] (fold body (map snd es) s)"
  proof (rule HASH_ITER_visits [where I = ?I])
    fix a xs s assume I: "?I (a # xs) s"
    then obtain ys where ys: "map snd es = ys @ a # xs" by auto
    show "app_next (links s a) = first_of xs None" using I in_order_links [OF ord(1) ys] by simp
    have "map snd es = (ys @ [a]) @ xs" using ys by simp
    then show "?I xs (body a s)" using I by (intro conjI exI) (auto simp: assms(2))
  qed (use assms(3) in auto)
  then show ?thesis by (simp add: ord(2))
qed

lemma HASH_ITER_delete:
  fixes f :: "addr \<Rightarrow> uthash \<Rightarrow> 'x \<Rightarrow> 'x" and x :: 'x
  assumes rep: "hash_rep h es"
  defines "body \<equiv> \<lambda>a (h, x). (HASH_DELETE_HH a h, f a h x)"
  shows "HASH_ITER (\<lambda>s. handles (fst s)) body (hash_head h) (h, x) = Some (fold body (map snd es) (h, x)) \<and>
    hash_head (fst (fold body (map snd es) (h, x))) = None"
proof -
  let ?I = "\<lambda>xs (h :: uthash, x :: 'x). \<exists>es. map snd es = xs \<and> hash_rep h es"
  have "HASH_ITER (\<lambda>s. handles (fst s)) body (first_of (map snd es) None) (h, x) =
      Some (fold body (map snd es) (h, x)) \<and> ?I [] (fold body (map snd es) (h, x))"
  proof (rule HASH_ITER_visits [where I = ?I])
    fix a xs and s :: "uthash \<times> 'x" assume "?I (a # xs) s"
    then obtain h x k es where s: "s = (h, x)" and rep: "hash_rep h ((k, a) # es)" and xs: "map snd es = xs"
      by (auto split: prod.splits)
    show "app_next (handles (fst s) a) = first_of xs None"
      using in_order_links [OF hash_rep_order(1) [OF rep], of "[]" a] by (simp add: s xs)
    have "hash_rep (HASH_DELETE_HH a h) es" using HASH_DELETE_rep [of h "[]" k a es] rep by simp
    then show "?I xs (body a s)" using xs by (auto simp: s body_def)
  qed (use rep in auto)
  then show ?thesis
    by (auto simp: hash_rep_order(2) [OF rep] dest: hash_rep_order(2))
qed

section \<open>The integrity check passes\<close>

lemma fsck_chain_ok:
  "dlist (\<lambda>a. hh_next (hs a)) (\<lambda>a. hh_prev (hs a)) p c None \<Longrightarrow>
     fsck_chain hs p (first_of c None) n = Some (Some (n + of_nat (length c)))"
proof (induction c arbitrary: p n)
  case Nil
  then show ?case by (simp add: fsck_chain.simps)
next
  case (Cons a c)
  then show ?case by (simp add: fsck_chain.simps [of _ _ "Some a"] algebra_simps)
qed

lemma fsck_app_ok:
  "dlist (\<lambda>a. app_next (hs a)) (\<lambda>a. app_prev (hs a)) p xs None \<Longrightarrow>
     fsck_app hs p (first_of xs None) n = Some (Some (n + of_nat (length xs)))"
proof (induction xs arbitrary: p n)
  case Nil
  then show ?case by (simp add: fsck_app.simps)
next
  case (Cons a c)
  then show ?case by (simp add: fsck_app.simps [of _ _ "Some a"] algebra_simps)
qed

lemma fsck_buckets_ok:
  "length bs = length cs \<Longrightarrow> (\<And>b. b < length cs \<Longrightarrow> bucket_ok hs (bs ! b) (cs ! b)) \<Longrightarrow>
     fsck_buckets hs bs n = Some (Some (n + of_nat (length (concat cs))))"
proof (induction bs arbitrary: cs n)
  case Nil
  then show ?case by simp
next
  case (Cons bk bs)
  then obtain c cs' where cs: "cs = c # cs'" by (cases cs) auto
  have "bucket_ok hs bk c" using Cons.prems(2) [of 0] cs by simp
  moreover have "bucket_ok hs (bs ! b) (cs' ! b)" if "b < length cs'" for b
    using Cons.prems(2) [of "Suc b"] cs that by simp
  ultimately show ?case
    using Cons.IH [of cs'] Cons.prems(1) cs by (simp add: bucket_ok_def fsck_chain_ok algebra_simps)
qed

lemma HASH_FSCK_rep:
  assumes rep: "hash_rep h es"
  shows "HASH_FSCK h = Some True"
proof (cases "es = []")
  case False
  let ?xs = "map snd es"
  have tab: "table_rep (handles h) (tbl h) ?xs" and dist: "distinct ?xs"
    and ord: "in_order (handles h) ?xs" and head: "hash_head h = first_of ?xs None"
    using rep False by (simp_all add: hash_rep_def)
  obtain cs where len: "length cs = 2 ^ unat (log2_num_buckets (tbl h))"
    and nb: "num_buckets (tbl h) = 2 ^ unat (log2_num_buckets (tbl h))"
    and log: "unat (log2_num_buckets (tbl h)) \<le> 30"
    and ch: "in_chains (handles h) (buckets (tbl h)) cs (set ?xs)"
    using tab by (auto simp: table_rep_def buckets_ok_def)
  have all: "take (unat (num_buckets (tbl h))) (buckets (tbl h)) = buckets (tbl h)"
    using chains_length [OF ch] log by (simp add: nb unat_pow2 len)
  have "cs \<noteq> []" using len by auto
  note part = in_chains_partition [OF ch this]
  have "length (concat cs) = length ?xs"
    using part dist by (metis distinct_card)
  then have "fsck_buckets (handles h) (buckets (tbl h)) 0 = Some (Some (of_nat (length ?xs)))"
    using fsck_buckets_ok [OF chains_length [OF ch] chains_bucket [OF ch], of 0] by simp
  moreover have "fsck_app (handles h) None (hash_head h) 0 = Some (Some (of_nat (length ?xs)))"
    using fsck_app_ok [OF ord [unfolded in_order_def], of 0] head by simp
  moreover have "num_items (tbl h) = of_nat (length ?xs)" using tab by (simp add: table_rep_def)
  ultimately show ?thesis by (simp add: HASH_FSCK_def all)
qed (use rep in \<open>simp add: HASH_FSCK_def hash_rep_def\<close>)

section \<open>The interface of the table\<close>

text \<open>
  What the registry relies on: \<open>rep t es\<close> gives a table the list of its keys and elements in the
  order of insertion, a look-up is the look-up in that list, an insertion appends, a removal takes
  one element out. An insertion may end the process, and a table may have a largest number of
  elements.
\<close>

locale ordered_table =
  fixes rep :: "'t \<Rightarrow> ('k \<times> 'a) list \<Rightarrow> bool"
    and look :: "'t \<Rightarrow> 'k \<Rightarrow> 'a option option"
    and add :: "'m \<Rightarrow> 'k \<Rightarrow> 'a \<Rightarrow> 't \<Rightarrow> 't process option"
    and del :: "'a \<Rightarrow> 't \<Rightarrow> 't"
    and key_ok :: "'k \<Rightarrow> bool" and mem_ok :: "'m \<Rightarrow> bool" and limit :: nat
  assumes rep_distinct: "rep t es \<Longrightarrow> distinct (map fst es) \<and> distinct (map snd es)"
    and look_rep: "rep t es \<Longrightarrow> key_ok k \<Longrightarrow> look t k = Some (map_of es k)"
    and add_rep: "rep t es \<Longrightarrow> Suc (length es) < limit \<Longrightarrow> key_ok k \<Longrightarrow> k \<notin> fst ` set es \<Longrightarrow>
      a \<notin> snd ` set es \<Longrightarrow> mem_ok mem \<Longrightarrow>
      add mem k a t = Some Exit \<or> (\<exists>t'. add mem k a t = Some (Run t') \<and> rep t' (es @ [(k, a)]))"
    and del_rep: "rep t (es1 @ (k, a) # es2) \<Longrightarrow> rep (del a t) (es1 @ es2)"
begin

lemma look_after_add:
  assumes "rep t es" "Suc (length es) < limit" "key_ok k" "k \<notin> fst ` set es" "a \<notin> snd ` set es" "mem_ok mem"
    and "add mem k a t = Some (Run t')" "key_ok k'"
  shows "look t' k' = Some (if k' = k then Some a else map_of es k')"
proof -
  have "rep t' (es @ [(k, a)])" using add_rep [OF assms(1-6)] assms(7) by auto
  moreover have "map_of es k = None" using assms(4) by (simp add: map_of_eq_None_iff)
  ultimately show ?thesis
    using look_rep [of t' "es @ [(k, a)]" k'] assms(8) by (auto simp: map_add_def split: option.split)
qed

lemma look_after_del:
  assumes "rep t es" "(k, a) \<in> set es" "key_ok k'"
  shows "look (del a t) k' = Some (if k' = k then None else map_of es k')"
proof -
  obtain es1 es2 where es: "es = es1 @ (k, a) # es2" using assms(2) by (auto dest: split_list)
  have "map_of es1 k = None" "map_of es2 k = None"
    using rep_distinct [OF assms(1)] by (auto simp: es map_of_eq_None_iff)
  then have "map_of (es1 @ es2) k' = (if k' = k then None else map_of es k')"
    by (cases "k' = k") (auto simp: es map_of_append map_add_def split: option.split)
  then show ?thesis using look_rep [OF del_rep assms(3)] assms(1) es by simp
qed

end

interpretation ht: ordered_table hash_rep HASH_FIND_STR HASH_ADD_STR HASH_DELETE_HH
    "\<lambda>k. length k < 2 ^ 32" small_heap "2 ^ 32"
  by unfold_locales
    (rule hash_rep_distinct HASH_FIND_STR_rep HASH_ADD_STR_rep HASH_DELETE_rep; assumption)+

section \<open>The tables of the program\<close>

text \<open>\<open>hash_run mem h es\<close>: insertions and deletions from the empty table lead to \<open>h\<close>.\<close>

inductive hash_run :: "allocator \<Rightarrow> uthash \<Rightarrow> (string \<times> addr) list \<Rightarrow> bool" for mem where
  run_empty: "hash_head h = None \<Longrightarrow> hash_run mem h []"
| run_add: "hash_run mem h es \<Longrightarrow> length k < 2 ^ 32 \<Longrightarrow> k \<notin> fst ` set es \<Longrightarrow> a \<notin> snd ` set es \<Longrightarrow>
    Suc (length es) < 2 ^ 32 \<Longrightarrow> HASH_ADD_STR mem k a h = Some (Run h') \<Longrightarrow>
    hash_run mem h' (es @ [(k, a)])"
| run_del: "hash_run mem h (es1 @ (k, a) # es2) \<Longrightarrow> hash_run mem (HASH_DELETE_HH a h) (es1 @ es2)"

lemma hash_run_rep: "hash_run mem h es \<Longrightarrow> small_heap mem \<Longrightarrow> hash_rep h es"
proof (induction rule: hash_run.induct)
  case (run_add h es k a h')
  then show ?case using HASH_ADD_STR_rep [of h es k a mem] by auto
qed (auto intro: hash_rep_empty HASH_DELETE_rep)

text \<open>The integrity check of the hash table (HASH_FSCK, compiled in under HASH_DEBUG)
  passes on every table that insertions and deletions build, whatever doublings of the buckets
  happened on the way: the counts of the buckets, the number of items and both doubly linked lists
  are right.\<close>

theorem uthash_integrity:
  "small_heap mem \<Longrightarrow> hash_run mem h es \<Longrightarrow> HASH_FSCK h = Some True"
  by (blast intro: HASH_FSCK_rep hash_run_rep)

definition no_table :: uthash where
  "no_table = \<lparr>hash_head = None,
     tbl = \<lparr>buckets = [], num_buckets = 0, log2_num_buckets = 0, num_items = 0, tail = None,
            ideal_chain_maxlen = 0, nonideal_items = 0, ineff_expands = 0, noexpand = 0\<rparr>,
     handles = (\<lambda>_. \<lparr>app_prev = None, app_next = None, hh_prev = None, hh_next = None, hkey = [],
                     keylen = 0, hashv = 0\<rparr>)\<rparr>"

definition heap_32G :: allocator where
  "heap_32G n \<longleftrightarrow> int n < 34359738368"

definition added :: "string \<Rightarrow> addr \<Rightarrow> uthash \<Rightarrow> uthash" where
  "added k a h = (case HASH_ADD_STR heap_32G k a h of Some (Run h') \<Rightarrow> h' | _ \<Rightarrow> h)"

definition sample_table :: uthash where
  "sample_table = added ''mem'' 32 (added ''cpu'' 16 no_table)"

definition adds_ok :: "string \<Rightarrow> addr \<Rightarrow> uthash \<Rightarrow> bool" where
  "adds_ok k a h \<longleftrightarrow> (case HASH_ADD_STR heap_32G k a h of Some (Run h') \<Rightarrow> True | _ \<Rightarrow> False)"

lemma sample_adds: "adds_ok ''cpu'' 16 no_table \<and> adds_ok ''mem'' 32 (added ''cpu'' 16 no_table)"
  by code_simp

lemma adds_ok_added: "adds_ok k a h \<Longrightarrow> HASH_ADD_STR heap_32G k a h = Some (Run (added k a h))"
  by (auto simp: adds_ok_def added_def split: option.splits process.splits)

lemma heap_32G_small: "small_heap heap_32G"
  by (auto simp: small_heap_def heap_32G_def)

lemma sample_run: "hash_run heap_32G sample_table [(''cpu'', 16), (''mem'', 32)]"
proof -
  have 1: "hash_run heap_32G (added ''cpu'' 16 no_table) ([] @ [(''cpu'', 16)])"
    using sample_adds by (intro run_add [OF run_empty [of no_table]])
      (auto simp: adds_ok_added, simp add: no_table_def)
  have "hash_run heap_32G (added ''mem'' 32 (added ''cpu'' 16 no_table)) ([(''cpu'', 16)] @ [(''mem'', 32)])"
    using sample_adds 1 by (intro run_add) (auto simp: adds_ok_added)
  then show ?thesis by (simp add: sample_table_def)
qed

lemma uthash_integrity_witness: "HASH_FSCK sample_table = Some True"
  by (rule uthash_integrity [OF heap_32G_small sample_run])



text \<open>C20: HASH_ITER with a body that takes the element it is at out of the table, the loop of
  cleanupRegistry, ends, runs the body once for every element in the order of insertion and
  leaves the empty table.\<close>

theorem uthash_iter_delete:
  fixes f :: "addr \<Rightarrow> uthash \<Rightarrow> 'x \<Rightarrow> 'x" and x :: 'x
  assumes "small_heap mem" "hash_run mem h es"
    and body: "body = (\<lambda>a (h, x). (HASH_DELETE_HH a h, f a h x))"
  shows "HASH_ITER (\<lambda>s. handles (fst s)) body (hash_head h) (h, x) = Some (fold body (map snd es) (h, x)) \<and>
    hash_head (fst (fold body (map snd es) (h, x))) = None"
  unfolding body by (rule HASH_ITER_delete [OF hash_run_rep [OF assms(2,1)]])

lemma uthash_iter_delete_witness:
  "\<exists>h'. HASH_ITER (\<lambda>s. handles (fst s)) (\<lambda>a (h, ks). (HASH_DELETE_HH a h, ks @ [hkey (handles h a)]))
     (hash_head sample_table) (sample_table, []) = Some (h', [''cpu'', ''mem'']) \<and> hash_head h' = None"
proof -
  let ?f = "\<lambda>a h ks. ks @ [hkey (handles h a)]"
  have keys: "hkey (handles sample_table 16) = ''cpu''"
    "hkey (handles (HASH_DELETE_HH 16 sample_table) 32) = ''mem''"
    by code_simp+
  show ?thesis
    using uthash_iter_delete [OF heap_32G_small sample_run refl, of ?f "[]"] keys by auto
qed

end
