(* ===== verification/Uthash_Sort.thy ===== *)
theory Uthash_Sort
  imports Uthash "HOL-Library.Sorting_Algorithms"
begin

text \<open>
  \<^verbatim>\<open>HASH_SRT\<close> of \<^verbatim>\<open>include/uthash.h\<close>, the merge sort that relinks the elements of a table in
  the order of a comparison function. It works bottom up on the doubly linked list itself: passes
  merge neighbouring runs of 1, 2, 4, \dots elements until a pass has made at most one merge.

  The theory proves that the loops end for every comparison function, that the list stays a
  doubly linked list of the same elements, and that the order is the stable sort of the library
  when the function is a comparison.
\<close>

section \<open>The program\<close>

text \<open>
  The variables of a pass: the store, the two runs that are merged (\<open>_hs_p\<close>, \<open>_hs_q\<close> with the
  sizes \<open>_hs_psize\<close>, \<open>_hs_qsize\<close>) and the list that is built (\<open>_hs_list\<close>, \<open>_hs_tail\<close>).
\<close>

record srt =
  srt_hs :: handle_store
  srt_p :: ptr
  srt_q :: ptr
  srt_psize :: u32
  srt_qsize :: u32
  srt_list :: ptr
  srt_tail :: ptr

type_synonym cmpfcn = "addr \<Rightarrow> addr \<Rightarrow> int"

definition next_of :: "handle_store \<Rightarrow> ptr \<Rightarrow> ptr" where
  "next_of hs p = (case p of None \<Rightarrow> None | Some a \<Rightarrow> app_next (hs a))"

text \<open>The \<open>for\<close> loop that finds the second run; \<open>q\<close> is not \<open>NULL\<close> when an iteration starts.\<close>

partial_function (option) srt_step ::
    "handle_store \<Rightarrow> u32 \<Rightarrow> u32 \<Rightarrow> u32 \<Rightarrow> addr \<Rightarrow> (ptr \<times> u32) option" where
  "srt_step hs insize i psize q =
     (if i < insize then
        (case app_next (hs q) of
           None \<Rightarrow> Some (None, psize + 1)
         | Some q' \<Rightarrow> srt_step hs insize (i + 1) (psize + 1) q')
      else Some (Some q, psize))"

definition take_p :: "srt \<Rightarrow> ptr \<times> srt" where
  "take_p s = (srt_p s, s\<lparr>srt_p := next_of (srt_hs s) (srt_p s), srt_psize := srt_psize s - 1\<rparr>)"

definition take_q :: "srt \<Rightarrow> ptr \<times> srt" where
  "take_q s = (srt_q s, s\<lparr>srt_q := next_of (srt_hs s) (srt_q s), srt_qsize := srt_qsize s - 1\<rparr>)"

definition pick :: "cmpfcn \<Rightarrow> srt \<Rightarrow> ptr \<times> srt" where
  "pick cmpfcn s =
     (if srt_psize s = 0 then take_q s
      else if srt_qsize s = 0 \<or> srt_q s = None then take_p s
      else if cmpfcn (the (srt_p s)) (the (srt_q s)) \<le> 0 then take_p s
      else take_q s)"

text \<open>The element \<open>e\<close> becomes the last of the list that is built.\<close>

definition link_tail :: "ptr \<Rightarrow> srt \<Rightarrow> srt" where
  "link_tail e s =
     (if srt_tail s \<noteq> None
      then s\<lparr>srt_hs := upd_ptr (srt_tail s) (app_next_update (\<lambda>_. e)) (srt_hs s)\<rparr>
      else s\<lparr>srt_list := e\<rparr>)"

definition put_last :: "ptr \<times> srt \<Rightarrow> srt" where
  "put_last es =
     (let (e, s) = es;
          s = link_tail e s
      in s\<lparr>srt_hs := upd_ptr e (app_prev_update (\<lambda>_. srt_tail s)) (srt_hs s), srt_tail := e\<rparr>)"

partial_function (option) srt_merge :: "cmpfcn \<Rightarrow> srt \<Rightarrow> srt option" where
  "srt_merge cmpfcn s =
     (if srt_psize s \<noteq> 0 \<or> srt_qsize s \<noteq> 0 \<and> srt_q s \<noteq> None
      then srt_merge cmpfcn (put_last (pick cmpfcn s))
      else Some s)"

definition merge_start :: "u32 \<Rightarrow> ptr \<times> u32 \<Rightarrow> srt \<Rightarrow> srt" where
  "merge_start insize qn s = s\<lparr>srt_q := fst qn, srt_psize := snd qn, srt_qsize := insize\<rparr>"

text \<open>One pass over the list; the result has the number of merges.\<close>

partial_function (option) srt_pass :: "cmpfcn \<Rightarrow> u32 \<Rightarrow> srt \<Rightarrow> u32 \<Rightarrow> (srt \<times> u32) option" where
  "srt_pass cmpfcn insize s nmerges =
     (case srt_p s of
        None \<Rightarrow> Some (s, nmerges)
      | Some p \<Rightarrow>
          (case srt_step (srt_hs s) insize 0 0 p of
             None \<Rightarrow> None
           | Some qn \<Rightarrow>
               (case srt_merge cmpfcn (merge_start insize qn s) of
                  None \<Rightarrow> None
                | Some s \<Rightarrow> srt_pass cmpfcn insize (s\<lparr>srt_p := srt_q s\<rparr>) (nmerges + 1))))"

definition pass_start :: "handle_store \<Rightarrow> ptr \<Rightarrow> srt" where
  "pass_start hs list =
     \<lparr>srt_hs = hs, srt_p = list, srt_q = None, srt_psize = 0, srt_qsize = 0, srt_list = None,
      srt_tail = None\<rparr>"

partial_function (option) srt_loop ::
    "cmpfcn \<Rightarrow> u32 \<Rightarrow> handle_store \<Rightarrow> ptr \<Rightarrow> (handle_store \<times> ptr \<times> ptr) option" where
  "srt_loop cmpfcn insize hs list =
     (case srt_pass cmpfcn insize (pass_start hs list) 0 of
        None \<Rightarrow> None
      | Some (s, nmerges) \<Rightarrow>
          let hs = upd_ptr (srt_tail s) (app_next_update (\<lambda>_. None)) (srt_hs s)
          in if nmerges \<le> 1 then Some (hs, srt_list s, srt_tail s)
             else srt_loop cmpfcn (insize * 2) hs (srt_list s))"

definition HASH_SRT :: "cmpfcn \<Rightarrow> uthash \<Rightarrow> uthash option" where
  "HASH_SRT cmpfcn h =
     (if hash_head h = None then Some h
      else case srt_loop cmpfcn 1 (handles h) (hash_head h) of
             None \<Rightarrow> None
           | Some (hs, list, end_hh) \<Rightarrow>
               Some (h\<lparr>handles := hs, tbl := (tbl h)\<lparr>tail := end_hh\<rparr>, hash_head := list\<rparr>))"

declare srt_step.simps [code] srt_merge.simps [code] srt_pass.simps [code] srt_loop.simps [code]

section \<open>The sort on lists\<close>

text \<open>What the program computes: a merge, a pass over runs of \<open>n\<close> elements, the passes.\<close>

fun merge :: "('a \<Rightarrow> 'a \<Rightarrow> bool) \<Rightarrow> 'a list \<Rightarrow> 'a list \<Rightarrow> 'a list" where
  "merge le (x # xs) (y # ys) =
     (if le x y then x # merge le xs (y # ys) else y # merge le (x # xs) ys)"
| "merge le [] ys = ys"
| "merge le xs [] = xs"

function merge_pass :: "('a \<Rightarrow> 'a \<Rightarrow> bool) \<Rightarrow> nat \<Rightarrow> 'a list \<Rightarrow> 'a list" where
  "merge_pass le n xs =
     (if xs = [] \<or> n = 0 then []
      else merge le (take n xs) (take n (drop n xs)) @ merge_pass le n (drop (2 * n) xs))"
  by pat_completeness auto
termination by (relation "measure (\<lambda>(le, n, xs). length xs)") auto

declare merge_pass.simps [simp del]

lemma mset_merge [simp]: "mset (merge le xs ys) = mset xs + mset ys"
  by (induction le xs ys rule: merge.induct) auto

lemma mset_merge_pass: "n \<noteq> 0 \<Longrightarrow> mset (merge_pass le n xs) = mset xs"
proof (induction le n xs rule: merge_pass.induct)
  case (1 le n xs)
  have "mset xs = mset (take n xs @ take n (drop n xs) @ drop n (drop n xs))"
    by (simp only: append_take_drop_id)
  then show ?case using 1 by (subst merge_pass.simps) (simp add: mult_2)
qed

lemma length_merge_pass [simp]: "n \<noteq> 0 \<Longrightarrow> length (merge_pass le n xs) = length xs"
  by (metis mset_merge_pass size_mset)

function merge_sort :: "('a \<Rightarrow> 'a \<Rightarrow> bool) \<Rightarrow> nat \<Rightarrow> 'a list \<Rightarrow> 'a list" where
  "merge_sort le n xs =
     (if length xs \<le> 2 * n \<or> n = 0 then merge_pass le n xs
      else merge_sort le (2 * n) (merge_pass le n xs))"
  by pat_completeness auto
termination by (relation "measure (\<lambda>(le, n, xs). length xs - n)") auto

declare merge_sort.simps [simp del]

lemma mset_merge_sort: "n \<noteq> 0 \<Longrightarrow> mset (merge_sort le n xs) = mset xs"
  by (induction le n xs rule: merge_sort.induct) (subst merge_sort.simps, simp add: mset_merge_pass)

lemma map_merge: "map f (merge (\<lambda>x y. le (f x) (f y)) xs ys) = merge le (map f xs) (map f ys)"
  by (induction "\<lambda>x y. le (f x) (f y)" xs ys rule: merge.induct) auto

lemma map_merge_pass:
  "map f (merge_pass (\<lambda>x y. le (f x) (f y)) n xs) = merge_pass le n (map f xs)"
proof (induction "\<lambda>x y. le (f x) (f y)" n xs rule: merge_pass.induct)
  case (1 n xs)
  then show ?case
    by (subst (1 2) merge_pass.simps) (simp add: map_merge take_map drop_map)
qed

lemma map_merge_sort:
  "map f (merge_sort (\<lambda>x y. le (f x) (f y)) n xs) = merge_sort le n (map f xs)"
proof (induction "\<lambda>x y. le (f x) (f y)" n xs rule: merge_sort.induct)
  case (1 n xs)
  then show ?case
    by (subst (1 2) merge_sort.simps) (simp add: map_merge_pass)
qed

section \<open>It is the stable sort\<close>

text \<open>
  A C comparison function \<open>cmpfcn\<close> that agrees with a comparator of the library: positive exactly
  for a first argument that is greater.
\<close>

definition compares :: "('a \<Rightarrow> 'a \<Rightarrow> int) \<Rightarrow> 'a comparator \<Rightarrow> bool" where
  "compares cmpfcn C \<longleftrightarrow> (\<forall>a b. cmpfcn a b \<le> 0 \<longleftrightarrow> compare C a b \<noteq> Greater)"

abbreviation le_of :: "'a comparator \<Rightarrow> 'a \<Rightarrow> 'a \<Rightarrow> bool" where
  "le_of C \<equiv> \<lambda>x y. compare C x y \<noteq> Greater"

lemma sorted_merge: "sorted C xs \<Longrightarrow> sorted C ys \<Longrightarrow> sorted C (merge (le_of C) xs ys)"
proof (induction "le_of C" xs ys rule: merge.induct)
  case (1 x xs y ys)
  have sub: "sorted C xs" "sorted C ys" using 1 by (auto dest: sorted_Cons_imp_sorted)
  have set_eq: "set (merge (le_of C) as bs) = set as \<union> set bs" for as bs
    by (metis mset_merge set_mset_mset set_mset_union)
  have mx: "compare C x a \<noteq> Greater" if "a \<in> set xs" for a
    using 1(3) that by (rule sorted_Cons_imp_not_less)
  have my: "compare C y a \<noteq> Greater" if "a \<in> set ys" for a
    using 1(4) that by (rule sorted_Cons_imp_not_less)
  show ?case
  proof (cases "compare C x y = Greater")
    case False
    have "sorted C (merge (le_of C) xs (y # ys))" using 1 sub False by simp
    moreover have "compare C x a \<noteq> Greater" if "a \<in> set (merge (le_of C) xs (y # ys))" for a
      using that mx my False compare.trans_not_greater [of C x y a] by (auto simp: set_eq)
    ultimately show ?thesis using False by (auto intro!: sorted_ConsI)
  next
    case True
    have yx: "compare C y x \<noteq> Greater" using True by (simp add: compare.greater_iff_sym_less)
    have "sorted C (merge (le_of C) (x # xs) ys)" using 1 sub True by simp
    moreover have "compare C y a \<noteq> Greater" if "a \<in> set (merge (le_of C) (x # xs) ys)" for a
      using that mx my yx compare.trans_not_greater [of C y x a] by (auto simp: set_eq)
    ultimately show ?thesis using True by (auto intro!: sorted_ConsI)
  qed
qed auto

lemma stable_merge:
  "sorted C xs \<Longrightarrow> stable_segment C z (merge (le_of C) xs ys) = stable_segment C z xs @ stable_segment C z ys"
proof (induction "le_of C" xs ys rule: merge.induct)
  case (1 x xs y ys)
  show ?case
  proof (cases "compare C x y = Greater")
    case True
    have "compare C z a \<noteq> Equiv" if "compare C z y = Equiv" "a \<in> set (x # xs)" for a
    proof
      assume "compare C z a = Equiv"
      with that(1) have "compare C a y = Equiv" by (metis compare.sym compare.trans_equiv)
      moreover have "compare C x a \<noteq> Greater"
        using 1(3) that(2) sorted_Cons_imp_not_less [of C x xs a] by auto
      ultimately show False using True by (metis comp.distinct(5) compare.trans_not_greater)
    qed
    then have "stable_segment C z (x # xs) = []" if "compare C z y = Equiv"
      using that by (auto simp: filter_empty_conv)
    then show ?thesis using 1 True by auto
  qed (use 1 sorted_Cons_imp_sorted [of C x xs] in auto)
qed auto

lemma merge_sort_append:
  "merge (le_of C) (sort C xs) (sort C ys) = sort C (xs @ ys)"
  by (rule sort_eqI [symmetric]) (simp_all add: sorted_merge stable_merge stable_sort)

text \<open>A list whose runs of \<open>n\<close> elements are sorted.\<close>

function sort_runs :: "'a comparator \<Rightarrow> nat \<Rightarrow> 'a list \<Rightarrow> 'a list" where
  "sort_runs C n xs =
     (if xs = [] \<or> n = 0 then [] else sort C (take n xs) @ sort_runs C n (drop n xs))"
  by pat_completeness auto
termination by (relation "measure (\<lambda>(C, n, xs). length xs)") auto

declare sort_runs.simps [simp del]

lemma sort_runs_Nil [simp]: "sort_runs C n [] = []"
  by (simp add: sort_runs.simps)

lemma sort_runs_short: "n \<noteq> 0 \<Longrightarrow> length xs \<le> n \<Longrightarrow> sort_runs C n xs = sort C xs"
  by (cases "xs = []") (simp_all add: sort_runs.simps)

lemma sort_runs_1: "sort_runs C (Suc 0) xs = xs"
  by (induction xs) (simp_all add: sort_runs.simps)

lemma split_sort_runs:
  assumes "n \<noteq> 0"
  shows "take n (sort_runs C n xs) = sort C (take n xs)" "drop n (sort_runs C n xs) = sort_runs C n (drop n xs)"
  using assms
  by (cases "xs = []"; cases "length xs \<le> n"; simp add: sort_runs.simps [of C n xs])+

lemma sort_runs_Nil_iff: "n \<noteq> 0 \<Longrightarrow> sort_runs C n xs = [] \<longleftrightarrow> xs = []"
  by (metis length_0_conv length_sort sort_runs.simps append_is_Nil_conv take_eq_Nil)

lemma length_sort_runs: "n \<noteq> 0 \<Longrightarrow> length (sort_runs C n xs) = length xs"
proof (induction C n xs rule: sort_runs.induct)
  case (1 C n xs)
  then show ?case by (cases "xs = []") (simp_all add: sort_runs.simps [of C n xs])
qed

lemma merge_pass_sort_runs: "n \<noteq> 0 \<Longrightarrow> merge_pass (le_of C) n (sort_runs C n xs) = sort_runs C (2 * n) xs"
proof (induction C "2 * n" xs rule: sort_runs.induct)
  case (1 C xs)
  show ?case
  proof (cases "xs = []")
    case False
    have "drop (2 * n) (sort_runs C n xs) = sort_runs C n (drop (2 * n) xs)"
      using 1(2) by (metis drop_drop mult_2 split_sort_runs(2))
    moreover have "merge (le_of C) (sort C (take n xs)) (sort C (take n (drop n xs))) = sort C (take (2 * n) xs)"
      by (simp add: merge_sort_append mult_2 take_add)
    moreover have "sort_runs C n xs \<noteq> []" using 1(2) False by (simp add: sort_runs_Nil_iff)
    moreover have "merge_pass (le_of C) n (sort_runs C n (drop (2 * n) xs)) = sort_runs C (2 * n) (drop (2 * n) xs)"
      using 1 False by simp
    ultimately show ?thesis
      using 1(2) False
      by (simp add: merge_pass.simps [of _ _ "sort_runs C n xs"] sort_runs.simps [of C "2 * n" xs] split_sort_runs)
  qed (simp add: merge_pass.simps)
qed

lemma merge_sort_sort_runs: "n \<noteq> 0 \<Longrightarrow> merge_sort (le_of C) n (sort_runs C n xs) = sort C xs"
proof (induction "length xs - n" arbitrary: n rule: less_induct)
  case less
  have "merge_sort (le_of C) n (sort_runs C n xs) =
      (if length xs \<le> 2 * n then sort_runs C (2 * n) xs
       else merge_sort (le_of C) (2 * n) (sort_runs C (2 * n) xs))"
    using less(2) by (subst merge_sort.simps) (simp add: merge_pass_sort_runs length_sort_runs)
  then show ?case using less(1) [of "2 * n"] less(2) by (simp add: sort_runs_short)
qed

lemma merge_sort_stable: "merge_sort (le_of C) 1 xs = sort C xs"
  using merge_sort_sort_runs [of "Suc 0" C xs] by (simp only: sort_runs_1 One_nat_def)

section \<open>The pointer program computes it\<close>

text \<open>\<open>links_to hs xs r\<close>: a walk along \<open>next\<close> meets \<open>xs\<close> and then \<open>r\<close>.\<close>

primrec links_to :: "handle_store \<Rightarrow> addr list \<Rightarrow> ptr \<Rightarrow> bool" where
  "links_to hs [] r \<longleftrightarrow> True"
| "links_to hs (a # as) r \<longleftrightarrow> app_next (hs a) = first_of as r \<and> links_to hs as r"

lemma links_to_append: "links_to hs (xs @ ys) r \<longleftrightarrow> links_to hs xs (first_of ys r) \<and> links_to hs ys r"
  by (induction xs) auto

lemma links_to_cong: "(\<And>a. a \<in> set xs \<Longrightarrow> app_next (hs' a) = app_next (hs a)) \<Longrightarrow> links_to hs xs r \<Longrightarrow> links_to hs' xs r"
  by (induction xs) auto

lemma in_order_links_to: "in_order hs xs \<Longrightarrow> links_to hs xs None"
proof -
  have "dlist (\<lambda>a. app_next (hs a)) pv p xs r \<Longrightarrow> links_to hs xs r" for pv p r
    by (induction xs arbitrary: p) auto
  then show "in_order hs xs \<Longrightarrow> links_to hs xs None" by (simp add: in_order_def)
qed

text \<open>Only the links of the order change.\<close>

definition same_rest :: "handle_store \<Rightarrow> handle_store \<Rightarrow> bool" where
  "same_rest hs hs' \<longleftrightarrow>
     (\<forall>a. hh_prev (hs' a) = hh_prev (hs a) \<and> hh_next (hs' a) = hh_next (hs a) \<and>
          hkey (hs' a) = hkey (hs a) \<and> keylen (hs' a) = keylen (hs a) \<and> hashv (hs' a) = hashv (hs a))"

lemma same_rest_refl [simp]: "same_rest hs hs"
  by (simp add: same_rest_def)

lemma same_rest_trans: "same_rest hs hs' \<Longrightarrow> same_rest hs' hs'' \<Longrightarrow> same_rest hs hs''"
  by (simp add: same_rest_def)

lemma same_rest_upd [simp]:
  "same_rest hs (upd_ptr p (app_next_update f) hs') \<longleftrightarrow> same_rest hs hs'"
  "same_rest hs (upd_ptr p (app_prev_update f) hs') \<longleftrightarrow> same_rest hs hs'"
  by (auto simp: same_rest_def upd_ptr_apply)

text \<open>
  The state of a merge: \<open>ds\<close> is the list built so far, \<open>ps\<close> the rest of the first run, \<open>zs\<close> the
  list from \<open>_hs_q\<close> on.
\<close>

definition built :: "handle_store \<Rightarrow> addr list \<Rightarrow> bool" where
  "built hs ds \<longleftrightarrow> (\<exists>r. dlist (\<lambda>a. app_next (hs a)) (\<lambda>a. app_prev (hs a)) None ds r)"

definition merging :: "handle_store \<Rightarrow> srt \<Rightarrow> addr list \<Rightarrow> addr list \<Rightarrow> addr list \<Rightarrow> bool" where
  "merging hs s ds ps zs \<longleftrightarrow>
     distinct (ds @ ps @ zs) \<and> srt_list s = first_of ds None \<and> srt_tail s = last_of None ds \<and>
     built (srt_hs s) ds \<and> unat (srt_psize s) = length ps \<and>
     (\<exists>r. srt_p s = first_of ps r \<and> links_to (srt_hs s) ps r) \<and>
     srt_q s = first_of zs None \<and> links_to (srt_hs s) zs None \<and> same_rest hs (srt_hs s)"

lemma built_snoc:
  assumes "built hs ds" "distinct (ds @ [a])"
  shows "built (upd_ptr (Some a) (app_prev_update (\<lambda>_. last_of None ds))
           (upd_ptr (last_of None ds) (app_next_update (\<lambda>_. Some a)) hs)) (ds @ [a])"
proof -
  obtain r where d: "dlist (\<lambda>a. app_next (hs a)) (\<lambda>a. app_prev (hs a)) None ds r"
    using assms(1) by (auto simp: built_def)
  let ?hs = "upd_ptr (Some a) (app_prev_update (\<lambda>_. last_of None ds))
      (upd_ptr (last_of None ds) (app_next_update (\<lambda>_. Some a)) hs)"
  have "dlist (\<lambda>a. app_next (?hs a)) (\<lambda>a. app_prev (?hs a)) None ds (Some a)"
    using assms(2) by (intro dlist_new_next [OF d]) (auto simp: upd_ptr_apply)
  then show ?thesis by (auto simp: built_def upd_ptr_apply)
qed

lemma put_last_store:
  "srt_hs (put_last (Some a, s)) = upd_ptr (Some a) (app_prev_update (\<lambda>_. srt_tail s))
     (upd_ptr (srt_tail s) (app_next_update (\<lambda>_. Some a)) (srt_hs s))"
  "srt_list (put_last (Some a, s)) = (if srt_tail s = None then Some a else srt_list s)"
  "srt_tail (put_last (Some a, s)) = Some a"
  "srt_p (put_last (Some a, s)) = srt_p s" "srt_q (put_last (Some a, s)) = srt_q s"
  "srt_psize (put_last (Some a, s)) = srt_psize s" "srt_qsize (put_last (Some a, s)) = srt_qsize s"
  by (simp_all add: put_last_def link_tail_def upd_ptr_def)

text \<open>An element that is in neither of the remaining lists is put at the end.\<close>

lemma merging_put:
  assumes "distinct (ds @ a # ps @ zs)" "srt_list s = first_of ds None" "srt_tail s = last_of None ds"
    and "built (srt_hs s) ds" "unat (srt_psize s) = length ps"
    and "srt_p s = first_of ps r" "links_to (srt_hs s) ps r"
    and "srt_q s = first_of zs None" "links_to (srt_hs s) zs None" "same_rest hs (srt_hs s)"
  shows "merging hs (put_last (Some a, s)) (ds @ [a]) ps zs"
proof -
  let ?s = "put_last (Some a, s)"
  have next_eq: "app_next (srt_hs ?s x) = app_next (srt_hs s x)" if "x \<notin> set ds" for x
    using that last_of_eq_Some [of ds x] assms(3) by (auto simp: put_last_store upd_ptr_apply)
  have "links_to (srt_hs ?s) ps r" "links_to (srt_hs ?s) zs None"
    using assms(1,7,9) next_eq by (auto intro: links_to_cong)
  moreover have "built (srt_hs ?s) (ds @ [a])"
    using built_snoc [OF assms(4), of a] assms(1,3) by (simp add: put_last_store)
  moreover have "first_of (ds @ [a]) None = srt_list ?s"
    using assms(2,3) by (cases ds) (simp_all add: put_last_store last_of_def)
  ultimately show ?thesis
    using assms by (auto simp: merging_def put_last_store)
qed

lemma merging_take_p:
  assumes "merging hs s ds (a # ps) zs"
  shows "merging hs (put_last (take_p s)) (ds @ [a]) ps zs \<and> srt_qsize (put_last (take_p s)) = srt_qsize s"
proof -
  obtain r where p: "srt_p s = Some a" "app_next (srt_hs s a) = first_of ps r" "links_to (srt_hs s) ps r"
    using assms by (auto simp: merging_def)
  have "unat (srt_psize s) = Suc (length ps)" using assms by (simp add: merging_def)
  then have size: "unat (srt_psize s - 1) = length ps"
    by (subst unat_minus_one) auto
  let ?s = "s\<lparr>srt_p := first_of ps r, srt_psize := srt_psize s - 1\<rparr>"
  have take: "take_p s = (Some a, ?s)" using p by (simp add: take_p_def next_of_def)
  have "merging hs (put_last (Some a, ?s)) (ds @ [a]) ps zs"
    using assms p size by (intro merging_put [where r = r]) (auto simp: merging_def)
  then show ?thesis by (simp add: take put_last_store)
qed

lemma merging_take_q:
  assumes "merging hs s ds ps (z # zs)"
  shows "merging hs (put_last (take_q s)) (ds @ [z]) ps zs \<and>
    srt_qsize (put_last (take_q s)) = srt_qsize s - 1"
proof -
  obtain r where p: "srt_p s = first_of ps r" "links_to (srt_hs s) ps r"
    using assms by (auto simp: merging_def)
  let ?s = "s\<lparr>srt_q := first_of zs None, srt_qsize := srt_qsize s - 1\<rparr>"
  have take: "take_q s = (Some z, ?s)" using assms by (simp add: take_q_def next_of_def merging_def)
  have "merging hs (put_last (Some z, ?s)) (ds @ [z]) ps zs"
    using assms p by (intro merging_put [where r = r]) (auto simp: merging_def)
  then show ?thesis by (simp add: take put_last_store)
qed

text \<open>What the next element is: the first that the merge of the runs yields.\<close>

lemma srt_merge_lists:
  assumes "merging hs s ds ps zs"
  shows "\<exists>s'. srt_merge cmpfcn s = Some s' \<and>
    merging hs s' (ds @ merge (\<lambda>a b. cmpfcn a b \<le> 0) ps (take (unat (srt_qsize s)) zs)) []
      (drop (unat (srt_qsize s)) zs)"
  using assms
proof (induction "length ps + unat (srt_qsize s)" arbitrary: s ds ps zs rule: less_induct)
  case less
  let ?le = "\<lambda>a b. cmpfcn a b \<le> 0"
  have psize: "srt_psize s = 0 \<longleftrightarrow> ps = []"
    using less(2) by (metis length_0_conv merging_def unat_eq_zero)
  have q: "srt_q s = first_of zs None" using less(2) by (simp add: merging_def)
  have qsize: "unat (srt_qsize s) = Suc (unat (srt_qsize s - 1))" if "srt_qsize s \<noteq> 0"
    using that by (metis Suc_pred' unat_gt_0 unat_minus_one)
  consider (stop) "ps = []" "srt_qsize s = 0 \<or> zs = []"
    | (p) a ps' where "ps = a # ps'" "srt_qsize s = 0 \<or> zs = [] \<or> ?le a (hd zs)"
    | (q) z zs' where "zs = z # zs'" "srt_qsize s \<noteq> 0" "ps = [] \<or> \<not> ?le (hd ps) z"
    by (metis list.collapse)
  then show ?case
  proof cases
    case stop
    then have "srt_merge cmpfcn s = Some s" using psize q by (subst srt_merge.simps) auto
    with stop less(2) show ?thesis by auto
  next
    case p
    have "srt_p s = Some a" using less(2) p(1) by (auto simp: merging_def)
    then have step: "srt_merge cmpfcn s = srt_merge cmpfcn (put_last (take_p s))"
      using p psize q by (subst srt_merge.simps) (cases zs, auto simp: pick_def)
    note m = merging_take_p [OF less(2) [unfolded p(1)]]
    have "merge ?le ps (take (unat (srt_qsize s)) zs) = a # merge ?le ps' (take (unat (srt_qsize s)) zs)"
      using p qsize by (cases zs; cases ps'; cases "srt_qsize s = 0") auto
    then show ?thesis
      using less(1) [of ps' "put_last (take_p s)" "ds @ [a]" zs] m p(1) by (simp add: step)
  next
    case q
    have step: "srt_merge cmpfcn s = srt_merge cmpfcn (put_last (take_q s))"
      using q psize \<open>srt_q s = first_of zs None\<close> less(2)
      by (subst srt_merge.simps) (cases ps, auto simp: pick_def merging_def)
    note m = merging_take_q [OF less(2) [unfolded q(1)]]
    have "merge ?le ps (take (unat (srt_qsize s)) zs) = z # merge ?le ps (take (unat (srt_qsize s - 1)) zs')"
      using q qsize by (cases ps) auto
    then show ?thesis
      using less(1) [of ps "put_last (take_q s)" "ds @ [z]" zs'] m q qsize by (simp add: step)
  qed
qed

lemma word_suc_less:
  assumes "i < (n :: 'a::len word)"
  shows "unat (i + 1) = Suc (unat i)"
proof -
  have "Suc (unat i) < 2 ^ LENGTH('a)"
    using assms unsigned_less [of n, where ?'a = nat] unfolding word_less_nat_alt by linarith
  then show ?thesis by (simp add: unat_word_ariths)
qed

text \<open>The second run starts after at most \<open>insize\<close> elements.\<close>

lemma srt_step_drop:
  assumes "links_to hs (a # xs) None" "i \<le> insize"
  shows "srt_step hs insize i psize a =
    Some (first_of (drop (unat insize - unat i) (a # xs)) None,
          psize + of_nat (min (unat insize - unat i) (length (a # xs))))"
  using assms
proof (induction xs arbitrary: i psize a)
  case Nil
  then show ?case by (subst srt_step.simps) (auto simp: word_less_nat_alt word_le_nat_alt min_def le_Suc_eq)
next
  case (Cons b xs)
  show ?case
  proof (cases "i < insize")
    case True
    then have "unat insize - unat i = Suc (unat insize - unat (i + 1))" "i + 1 \<le> insize"
      using word_suc_less [OF True] by (simp_all add: word_less_nat_alt word_le_nat_alt)
    then show ?thesis
      using Cons.IH [of b "i + 1" "psize + 1"] Cons.prems True
      by (subst srt_step.simps) (simp add: algebra_simps)
  qed (use Cons.prems in \<open>subst srt_step.simps, auto simp: not_less\<close>)
qed

text \<open>A pass: \<open>ds\<close> is built, \<open>xs\<close> is still to be merged.\<close>

definition passing :: "handle_store \<Rightarrow> srt \<Rightarrow> addr list \<Rightarrow> addr list \<Rightarrow> bool" where
  "passing hs s ds xs \<longleftrightarrow>
     distinct (ds @ xs) \<and> srt_list s = first_of ds None \<and> srt_tail s = last_of None ds \<and>
     built (srt_hs s) ds \<and> srt_p s = first_of xs None \<and> links_to (srt_hs s) xs None \<and>
     same_rest hs (srt_hs s)"

lemma passing_merge_start:
  assumes "passing hs s ds (a # xs)"
  obtains qn where "srt_step (srt_hs s) insize 0 0 a = Some qn"
    "merging hs (merge_start insize qn s) ds (take (unat insize) (a # xs)) (drop (unat insize) (a # xs))"
    "srt_qsize (merge_start insize qn s) = insize"
proof
  let ?n = "unat insize" and ?xs = "a # xs"
  let ?qn = "(first_of (drop ?n ?xs) None, of_nat (min ?n (length ?xs))) :: ptr \<times> u32"
  have links: "links_to (srt_hs s) (take ?n ?xs @ drop ?n ?xs) None" and p: "srt_p s = Some a"
    and dist: "distinct (ds @ take ?n ?xs @ drop ?n ?xs)"
    using assms unfolding append_take_drop_id by (auto simp: passing_def)
  show "srt_step (srt_hs s) insize 0 0 a = Some ?qn"
    using srt_step_drop [of "srt_hs s" a xs 0 insize 0] assms by (simp add: passing_def)
  have "?n < 2 ^ 32" using unsigned_less [of insize, where ?'a = nat] by simp
  then have "unat (of_nat (min ?n (length ?xs)) :: u32) = length (take ?n ?xs)"
    by (simp add: unsigned_of_nat take_bit_nat_eq_self)
  moreover have "first_of (take ?n ?xs) (first_of (drop ?n ?xs) None) = Some a"
    by (metis append_take_drop_id first_of_append first_of_simps(2))
  ultimately show "merging hs (merge_start insize ?qn s) ds (take ?n ?xs) (drop ?n ?xs)"
    using assms links p dist unfolding merging_def merge_start_def passing_def links_to_append
    by (auto intro!: exI [of _ "first_of (drop ?n ?xs) None"])
qed (simp add: merge_start_def)

function merges :: "nat \<Rightarrow> 'a list \<Rightarrow> nat" where
  "merges n xs = (if xs = [] \<or> n = 0 then 0 else Suc (merges n (drop (2 * n) xs)))"
  by pat_completeness auto
termination by (relation "measure (\<lambda>(n, xs). length xs)") auto

declare merges.simps [simp del]

lemma merges_Nil [simp]: "merges n [] = 0"
  by (simp add: merges.simps)

lemma merges_le: "merges n xs \<le> length xs"
proof (induction n xs rule: merges.induct)
  case (1 n xs)
  show ?case
  proof (cases "xs = [] \<or> n = 0")
    case True
    then show ?thesis by (subst merges.simps) simp
  next
    case False
    then have "length (drop (2 * n) xs) < length xs" by (cases xs) auto
    with 1 [OF False] False show ?thesis by (subst merges.simps) (simp del: length_drop)
  qed
qed

lemma merges_le_1: "n \<noteq> 0 \<Longrightarrow> merges n xs \<le> 1 \<longleftrightarrow> length xs \<le> 2 * n"
  by (cases "xs = []"; cases "length xs \<le> 2 * n") (simp_all add: merges.simps [of n xs] merges.simps [of n "drop (2 * n) xs"])

lemma srt_pass_lists:
  assumes "passing hs s ds xs" "insize \<noteq> 0"
  shows "\<exists>s'. srt_pass cmpfcn insize s m = Some (s', m + of_nat (merges (unat insize) xs)) \<and>
    passing hs s' (ds @ merge_pass (\<lambda>a b. cmpfcn a b \<le> 0) (unat insize) xs) []"
  using assms(1)
proof (induction "unat insize" xs arbitrary: s ds m rule: merges.induct)
  case (1 xs)
  let ?n = "unat insize" and ?le = "\<lambda>a b. cmpfcn a b \<le> 0"
  have n: "?n \<noteq> 0" using assms(2) by (simp add: unat_eq_zero)
  show ?case
  proof (cases xs)
    case Nil
    then show ?thesis
      using 1(2) by (subst srt_pass.simps) (simp add: passing_def merges.simps merge_pass.simps)
  next
    case (Cons a xs')
    have p: "srt_p s = Some a" and "xs \<noteq> []" using 1(2) Cons by (simp_all add: passing_def)
    from passing_merge_start [OF 1(2) [unfolded Cons], of insize] obtain qn where
      step: "srt_step (srt_hs s) insize 0 0 a = Some qn" and
      start: "merging hs (merge_start insize qn s) ds (take ?n xs) (drop ?n xs)"
        "srt_qsize (merge_start insize qn s) = insize"
      unfolding Cons by blast
    define ds' where "ds' = ds @ merge ?le (take ?n xs) (take ?n (drop ?n xs))"
    obtain s' where s': "srt_merge cmpfcn (merge_start insize qn s) = Some s'"
      "merging hs s' ds' [] (drop (2 * ?n) xs)"
      using srt_merge_lists [OF start(1), of cmpfcn] by (auto simp: start(2) ds'_def mult_2)
    then have "passing hs (s'\<lparr>srt_p := srt_q s'\<rparr>) ds' (drop (2 * ?n) xs)"
      by (simp add: passing_def merging_def)
    then obtain s'' where
      "srt_pass cmpfcn insize (s'\<lparr>srt_p := srt_q s'\<rparr>) (m + 1) =
        Some (s'', m + 1 + of_nat (merges ?n (drop (2 * ?n) xs)))"
      "passing hs s'' (ds' @ merge_pass ?le ?n (drop (2 * ?n) xs)) []"
      using 1(1) [of "s'\<lparr>srt_p := srt_q s'\<rparr>" ds' "m + 1"] Cons n by auto
    then show ?thesis
      using p step s'(1) n \<open>xs \<noteq> []\<close>
      by (subst srt_pass.simps) (simp add: merges.simps [of ?n xs] merge_pass.simps [of _ ?n xs] ds'_def)
  qed
qed

text \<open>The end of a pass cuts the list after its last element.\<close>

lemma built_in_order:
  assumes "built hs xs" "distinct xs"
  shows "in_order (upd_ptr (last_of None xs) (app_next_update (\<lambda>_. None)) hs) xs"
proof -
  obtain r where d: "dlist (\<lambda>a. app_next (hs a)) (\<lambda>a. app_prev (hs a)) None xs r"
    using assms(1) by (auto simp: built_def)
  show ?thesis unfolding in_order_def
    by (rule dlist_new_next [OF d assms(2)]) (auto simp: upd_ptr_apply)
qed

lemma srt_loop_sorts:
  assumes "insize = 2 ^ k" "k \<le> 31" "xs \<noteq> []" "length xs < 2 ^ 32" "distinct xs" "links_to hs xs None"
    and "same_rest hs0 hs"
    and "ys = merge_sort (\<lambda>a b. cmpfcn a b \<le> 0) (2 ^ k) xs"
  shows "\<exists>hs'. srt_loop cmpfcn insize hs (first_of xs None) = Some (hs', first_of ys None, last_of None ys) \<and>
    in_order hs' ys \<and> same_rest hs0 hs'"
  using assms(1-7) unfolding assms(8)
proof (induction "length xs - 2 ^ k" arbitrary: xs k insize hs rule: less_induct)
  case less
  let ?le = "\<lambda>a b. cmpfcn a b \<le> 0" and ?n = "2 ^ k :: nat"
  let ?ys = "merge_pass ?le ?n xs"
  have n: "unat insize = ?n" "insize \<noteq> 0" using less(2,3) unat_pow2 [of k] by (auto simp: unat_eq_zero)
  have start: "passing hs (pass_start hs (first_of xs None)) [] xs"
    using less by (simp add: passing_def pass_start_def built_def)
  obtain s where s: "srt_pass cmpfcn insize (pass_start hs (first_of xs None)) 0 = Some (s, of_nat (merges ?n xs))"
    "passing hs s ?ys []"
    using srt_pass_lists [OF start n(2), of cmpfcn 0] n by auto
  let ?hs = "upd_ptr (srt_tail s) (app_next_update (\<lambda>_. None)) (srt_hs s)"
  have "merges ?n xs < 2 ^ 32" using merges_le [of ?n xs] less(5) by simp
  then have one: "(of_nat (merges ?n xs) :: u32) \<le> 1 \<longleftrightarrow> length xs \<le> 2 * ?n"
    using merges_le_1 [of ?n xs] by (simp add: word_le_nat_alt unsigned_of_nat take_bit_nat_eq_self)
  have ord: "in_order ?hs ?ys" "same_rest hs0 ?hs"
    using s(2) built_in_order [of "srt_hs s" ?ys] same_rest_trans [OF less(8)] by (auto simp: passing_def)
  show ?case
  proof (cases "length xs \<le> 2 * ?n")
    case True
    then show ?thesis
      using s one ord by (subst srt_loop.simps) (simp add: passing_def merge_sort.simps [of _ ?n xs] Let_def)
  next
    case False
    then have "(2 :: nat) ^ Suc k < 2 ^ 32" using less(5) by simp
    then have "Suc k < 32" by (rule power_less_imp_less_exp [rotated]) simp
    then have k: "Suc k \<le> 31" by simp
    have dist: "distinct ?ys" "?ys \<noteq> []"
      using s(2) less(4) length_merge_pass [of ?n ?le xs] by (auto simp: passing_def simp del: length_merge_pass)
    have "\<exists>hs'. srt_loop cmpfcn (insize * 2) ?hs (first_of ?ys None) =
        Some (hs', first_of (merge_sort ?le (2 ^ Suc k) ?ys) None, last_of None (merge_sort ?le (2 ^ Suc k) ?ys)) \<and>
      in_order hs' (merge_sort ?le (2 ^ Suc k) ?ys) \<and> same_rest hs0 hs'"
    proof (rule less(1))
      have "length ?ys = length xs" "0 < ?n" by simp_all
      then show "length ?ys - 2 ^ Suc k < length xs - ?n" using False unfolding power_Suc by linarith
      show "links_to ?hs ?ys None" using ord(1) by (rule in_order_links_to)
    qed (use k dist ord less(2,5) in simp_all)
    then show ?thesis
      using s one False by (subst srt_loop.simps) (simp add: passing_def merge_sort.simps [of _ ?n xs] Let_def)
  qed
qed

section \<open>A sorted table\<close>

text \<open>The table after a new order of its elements.\<close>

lemma hash_rep_reorder:
  assumes rep: "hash_rep h es" and perm: "mset es' = mset es" and es: "es \<noteq> []"
    and ord: "in_order hs (map snd es')" and rest: "same_rest (handles h) hs"
  shows "hash_rep (h\<lparr>handles := hs, tbl := (tbl h)\<lparr>tail := last_of None (map snd es')\<rparr>,
    hash_head := first_of (map snd es') None\<rparr>) es'"
proof -
  have len: "length es' = length es" using perm by (metis size_mset)
  have sets: "set es' = set es" "set (map snd es') = set (map snd es)"
    using perm by (metis set_mset_mset, metis set_mset_mset mset_map)
  have dist: "distinct (map fst es')" "distinct (map snd es')"
    using rep perm by (metis hash_rep_def mset_map mset_eq_imp_distinct_iff)+
  have tab: "table_rep (handles h) (tbl h) (map snd es)" and key: "keyed (handles h) es"
    using rep es by (simp_all add: hash_rep_def)
  have "keyed hs es'"
    using key rest by (simp add: keyed_def sets same_rest_def)
  moreover have "buckets_ok hs ((tbl h)\<lparr>tail := last_of None (map snd es')\<rparr>) (set (map snd es'))"
  proof (rule buckets_ok_cong)
    show "buckets_ok (handles h) (tbl h) (set (map snd es'))"
      using tab unfolding sets(2) by (simp add: table_rep_def)
  qed (use rest in \<open>simp_all add: same_rest_def\<close>)
  ultimately show ?thesis
    using rep dist tab ord es len by (simp add: hash_rep_def table_rep_def)
qed

text \<open>Sorting ends for every comparison function and keeps the elements.\<close>

lemma HASH_SRT_rep:
  assumes rep: "hash_rep h es"
    and es'_def: "es' = merge_sort (\<lambda>x y. cmpfcn (snd x) (snd y) \<le> 0) 1 es"
  shows "\<exists>h'. HASH_SRT cmpfcn h = Some h' \<and> hash_rep h' es' \<and> mset es' = mset es"
proof (cases "es = []")
  case True
  then show ?thesis
    using rep by (simp add: HASH_SRT_def hash_rep_def es'_def merge_sort.simps merge_pass.simps)
next
  case False
  let ?xs = "map snd es"
  have head: "hash_head h = first_of ?xs None" and ord: "in_order (handles h) ?xs"
    and dist: "distinct ?xs" and len: "length es < 2 ^ 32"
    using rep by (simp_all add: hash_rep_def)
  have perm: "mset es' = mset es" by (simp add: es'_def mset_merge_sort)
  have ys: "map snd es' = merge_sort (\<lambda>a b. cmpfcn a b \<le> 0) (2 ^ 0) ?xs"
    by (simp add: es'_def map_merge_sort [where f = snd and le = "\<lambda>a b. cmpfcn a b \<le> 0"])
  obtain hs where loop: "srt_loop cmpfcn 1 (handles h) (first_of ?xs None) =
      Some (hs, first_of (map snd es') None, last_of None (map snd es'))"
    and hs: "in_order hs (map snd es')" "same_rest (handles h) hs"
    using srt_loop_sorts [of 1 0 ?xs "handles h" "handles h" "map snd es'" cmpfcn] False len dist
      in_order_links_to [OF ord] ys by auto
  obtain a xs where "?xs = a # xs" using False by (cases es) auto
  with loop have "HASH_SRT cmpfcn h =
      Some (h\<lparr>handles := hs, tbl := (tbl h)\<lparr>tail := last_of None (map snd es')\<rparr>,
        hash_head := first_of (map snd es') None\<rparr>)"
    by (simp add: HASH_SRT_def head)
  then show ?thesis using hash_rep_reorder [OF rep perm False hs] perm by blast
qed

text \<open>With a comparison it is the stable sort.\<close>

lemma HASH_SRT_stable:
  assumes "hash_rep h es" "compares cmpfcn C"
  shows "\<exists>h'. HASH_SRT cmpfcn h = Some h' \<and> hash_rep h' (sort (key snd C) es)"
proof -
  have le: "(\<lambda>x y. cmpfcn (snd x) (snd y) \<le> 0) = le_of (key snd C)"
    using assms(2) by (simp add: compares_def fun_eq_iff)
  show ?thesis using HASH_SRT_rep [OF assms(1) refl, of cmpfcn] unfolding le merge_sort_stable by blast
qed

end
