(* ===== verification/Uthash_Ops.thy ===== *)
theory Uthash_Ops
  imports Uthash_Sort
begin

text \<open>
  The operations of \<^verbatim>\<open>include/uthash.h\<close> that the program does not expand: insertion in the order
  of a comparison function (\<open>HASH_ADD_INORDER\<close> and its variants), replacement, \<open>HASH_CLEAR\<close>,
  \<open>HASH_OVERHEAD\<close>, and the forms for keys that are strings, integers or pointers.

  The theory proves that each of them does on the pointer structure what it does on the list of
  keys and elements, and collects all operations that change a table in one step relation, whose
  tables pass the integrity check and answer look-ups.
\<close>

section \<open>Insertion in order\<close>

text \<open>
  The walk to the first element that compares greater than the new one; \<open>NULL\<close> when there is
  none. \<open>_hs_iter\<close> starts at the head, which is not \<open>NULL\<close>.
\<close>

partial_function (option) HASH_AKBI_INNER_LOOP ::
    "cmpfcn \<Rightarrow> handle_store \<Rightarrow> addr \<Rightarrow> addr \<Rightarrow> ptr option" where
  "HASH_AKBI_INNER_LOOP cmpfcn hs a iter =
     (if 0 < cmpfcn iter a then Some (Some iter)
      else case app_next (hs iter) of
             None \<Rightarrow> Some None
           | Some iter \<Rightarrow> HASH_AKBI_INNER_LOOP cmpfcn hs a iter)"

declare HASH_AKBI_INNER_LOOP.simps [code]

definition link_before :: "addr \<Rightarrow> addr \<Rightarrow> uthash \<Rightarrow> uthash" where
  "link_before iter a h =
     (let prv = app_prev (handles h iter);
          hs = upd_hh a (\<lambda>x. x\<lparr>app_next := Some iter, app_prev := prv\<rparr>) (handles h);
          hs = upd_ptr prv (app_next_update (\<lambda>_. Some a)) hs;
          hs = upd_hh iter (app_prev_update (\<lambda>_. Some a)) hs
      in h\<lparr>handles := hs, hash_head := if prv = None then Some a else hash_head h\<rparr>)"

definition HASH_ADD_KEYPTR_BYHASHVALUE_INORDER ::
    "allocator \<Rightarrow> string \<Rightarrow> u32 \<Rightarrow> u32 \<Rightarrow> cmpfcn \<Rightarrow> addr \<Rightarrow> uthash \<Rightarrow> uthash process option" where
  "HASH_ADD_KEYPTR_BYHASHVALUE_INORDER mem keyptr klen hv cmpfcn a h =
     (let h = set_key keyptr klen hv a h in
      case hash_head h of
        None \<Rightarrow>
          (case HASH_MAKE_TABLE mem a (set_alone a h) of
             Exit \<Rightarrow> Some Exit
           | Run h \<Rightarrow> HASH_ADD_TO_TABLE mem hv a (h\<lparr>hash_head := Some a\<rparr>))
      | Some head \<Rightarrow>
          (case HASH_AKBI_INNER_LOOP cmpfcn (handles h) a head of
             None \<Rightarrow> None
           | Some None \<Rightarrow> HASH_ADD_TO_TABLE mem hv a (HASH_APPEND_LIST a h)
           | Some (Some iter) \<Rightarrow> HASH_ADD_TO_TABLE mem hv a (link_before iter a h)))"

definition HASH_ADD_KEYPTR_INORDER ::
    "allocator \<Rightarrow> string \<Rightarrow> u32 \<Rightarrow> cmpfcn \<Rightarrow> addr \<Rightarrow> uthash \<Rightarrow> uthash process option" where
  "HASH_ADD_KEYPTR_INORDER mem keyptr klen cmpfcn a h =
     HASH_ADD_KEYPTR_BYHASHVALUE_INORDER mem keyptr klen (HASH_JEN keyptr klen) cmpfcn a h"

text \<open>The macros that take the key from a field of the element pass the address of the field.\<close>

definition HASH_ADD_INORDER ::
    "allocator \<Rightarrow> string \<Rightarrow> u32 \<Rightarrow> cmpfcn \<Rightarrow> addr \<Rightarrow> uthash \<Rightarrow> uthash process option" where
  "HASH_ADD_INORDER mem field klen cmpfcn a h = HASH_ADD_KEYPTR_INORDER mem field klen cmpfcn a h"

definition HASH_ADD_BYHASHVALUE ::
    "allocator \<Rightarrow> string \<Rightarrow> u32 \<Rightarrow> u32 \<Rightarrow> addr \<Rightarrow> uthash \<Rightarrow> uthash process option" where
  "HASH_ADD_BYHASHVALUE mem field klen hv a h = HASH_ADD_KEYPTR_BYHASHVALUE mem field klen hv a h"

definition HASH_ADD_BYHASHVALUE_INORDER ::
    "allocator \<Rightarrow> string \<Rightarrow> u32 \<Rightarrow> u32 \<Rightarrow> cmpfcn \<Rightarrow> addr \<Rightarrow> uthash \<Rightarrow> uthash process option" where
  "HASH_ADD_BYHASHVALUE_INORDER mem field klen hv cmpfcn a h =
     HASH_ADD_KEYPTR_BYHASHVALUE_INORDER mem field klen hv cmpfcn a h"

section \<open>Replacement\<close>

text \<open>The element with the key, if any, is taken out and returned.\<close>

definition delete_found :: "ptr \<Rightarrow> uthash \<Rightarrow> uthash" where
  "delete_found replaced h = (case replaced of None \<Rightarrow> h | Some d \<Rightarrow> HASH_DELETE_HH d h)"

definition with_replaced :: "ptr \<Rightarrow> uthash process option \<Rightarrow> (ptr \<times> uthash) process option" where
  "with_replaced replaced r =
     (case r of None \<Rightarrow> None | Some Exit \<Rightarrow> Some Exit | Some (Run h) \<Rightarrow> Some (Run (replaced, h)))"

definition HASH_REPLACE_BYHASHVALUE ::
    "allocator \<Rightarrow> string \<Rightarrow> u32 \<Rightarrow> u32 \<Rightarrow> addr \<Rightarrow> uthash \<Rightarrow> (ptr \<times> uthash) process option" where
  "HASH_REPLACE_BYHASHVALUE mem field klen hv a h =
     (case HASH_FIND_BYHASHVALUE h field klen hv of
        None \<Rightarrow> None
      | Some replaced \<Rightarrow>
          with_replaced replaced
            (HASH_ADD_KEYPTR_BYHASHVALUE mem field klen hv a (delete_found replaced h)))"

definition HASH_REPLACE_BYHASHVALUE_INORDER ::
    "allocator \<Rightarrow> string \<Rightarrow> u32 \<Rightarrow> u32 \<Rightarrow> cmpfcn \<Rightarrow> addr \<Rightarrow> uthash \<Rightarrow> (ptr \<times> uthash) process option"
    where
  "HASH_REPLACE_BYHASHVALUE_INORDER mem field klen hv cmpfcn a h =
     (case HASH_FIND_BYHASHVALUE h field klen hv of
        None \<Rightarrow> None
      | Some replaced \<Rightarrow>
          with_replaced replaced
            (HASH_ADD_KEYPTR_BYHASHVALUE_INORDER mem field klen hv cmpfcn a (delete_found replaced h)))"

definition HASH_REPLACE ::
    "allocator \<Rightarrow> string \<Rightarrow> u32 \<Rightarrow> addr \<Rightarrow> uthash \<Rightarrow> (ptr \<times> uthash) process option" where
  "HASH_REPLACE mem field klen a h = HASH_REPLACE_BYHASHVALUE mem field klen (HASH_JEN field klen) a h"

definition HASH_REPLACE_INORDER ::
    "allocator \<Rightarrow> string \<Rightarrow> u32 \<Rightarrow> cmpfcn \<Rightarrow> addr \<Rightarrow> uthash \<Rightarrow> (ptr \<times> uthash) process option" where
  "HASH_REPLACE_INORDER mem field klen cmpfcn a h =
     HASH_REPLACE_BYHASHVALUE_INORDER mem field klen (HASH_JEN field klen) cmpfcn a h"

definition HASH_REPLACE_STR ::
    "allocator \<Rightarrow> string \<Rightarrow> addr \<Rightarrow> uthash \<Rightarrow> (ptr \<times> uthash) process option" where
  "HASH_REPLACE_STR mem strfield a h = HASH_REPLACE mem strfield (str_len strfield) a h"

text \<open>Keys that are an \<open>int\<close> or a pointer: their 4 or 8 bytes, whatever they are.\<close>

definition HASH_FIND_INT :: "uthash \<Rightarrow> string \<Rightarrow> ptr option" where
  "HASH_FIND_INT h findint = HASH_FIND h findint 4"

definition HASH_ADD_INT :: "allocator \<Rightarrow> string \<Rightarrow> addr \<Rightarrow> uthash \<Rightarrow> uthash process option" where
  "HASH_ADD_INT mem intfield a h = HASH_ADD_KEYPTR mem intfield 4 a h"

definition HASH_REPLACE_INT ::
    "allocator \<Rightarrow> string \<Rightarrow> addr \<Rightarrow> uthash \<Rightarrow> (ptr \<times> uthash) process option" where
  "HASH_REPLACE_INT mem intfield a h = HASH_REPLACE mem intfield 4 a h"

definition HASH_FIND_PTR :: "uthash \<Rightarrow> string \<Rightarrow> ptr option" where
  "HASH_FIND_PTR h findptr = HASH_FIND h findptr 8"

definition HASH_ADD_PTR :: "allocator \<Rightarrow> string \<Rightarrow> addr \<Rightarrow> uthash \<Rightarrow> uthash process option" where
  "HASH_ADD_PTR mem ptrfield a h = HASH_ADD_KEYPTR mem ptrfield 8 a h"

definition HASH_REPLACE_PTR ::
    "allocator \<Rightarrow> string \<Rightarrow> addr \<Rightarrow> uthash \<Rightarrow> (ptr \<times> uthash) process option" where
  "HASH_REPLACE_PTR mem ptrfield a h = HASH_REPLACE mem ptrfield 8 a h"

lemma key_of_fixed_length:
  "length k = 4 \<Longrightarrow> HASH_FIND_INT h k = HASH_FIND_STR h k \<and> HASH_ADD_INT mem k a h = HASH_ADD_STR mem k a h \<and>
     HASH_REPLACE_INT mem k a h = HASH_REPLACE_STR mem k a h"
  "length k = 8 \<Longrightarrow> HASH_FIND_PTR h k = HASH_FIND_STR h k \<and> HASH_ADD_PTR mem k a h = HASH_ADD_STR mem k a h \<and>
     HASH_REPLACE_PTR mem k a h = HASH_REPLACE_STR mem k a h"
  by (simp_all add: HASH_FIND_INT_def HASH_ADD_INT_def HASH_REPLACE_INT_def HASH_FIND_PTR_def HASH_ADD_PTR_def
      HASH_REPLACE_PTR_def HASH_FIND_STR_def HASH_ADD_STR_def HASH_REPLACE_STR_def str_len_def)

section \<open>Clearing and size\<close>

definition HASH_CLEAR :: "uthash \<Rightarrow> uthash" where
  "HASH_CLEAR h = (if hash_head h \<noteq> None then h\<lparr>hash_head := None\<rparr> else h)"

definition sizeof_handle :: u64 where "sizeof_handle = 56"

text \<open>Without a Bloom filter \<open>HASH_BLOOM_BYTELEN\<close> is 0.\<close>

definition HASH_OVERHEAD :: "uthash \<Rightarrow> u64" where
  "HASH_OVERHEAD h =
     (if hash_head h \<noteq> None
      then ucast (num_items (tbl h)) * sizeof_handle
        + ucast (num_buckets (tbl h)) * of_nat sizeof_bucket + of_nat sizeof_table + 0
      else 0)"

section \<open>Insertion at any place of the order\<close>

lemma dlist_insert:
  assumes "dlist nx pv None (xs @ b # ys) None" "distinct (xs @ b # ys)" "a \<notin> set (xs @ b # ys)"
    and "\<And>x. x \<noteq> a \<Longrightarrow> nx' x = (if pv b = Some x then Some a else nx x)"
    and "\<And>x. x \<noteq> a \<Longrightarrow> pv' x = (if x = b then Some a else pv x)"
    and "nx' a = Some b" "pv' a = pv b"
  shows "dlist nx' pv' None (xs @ a # b # ys) None"
proof -
  have pvb: "pv b = last_of None xs" using assms(1) by simp
  have ys: "pv b \<noteq> Some x" if "x \<in> set (b # ys)" for x
    using assms(2) that last_of_eq_Some [of xs x] by (auto simp: pvb)
  have "dlist nx pv None xs (Some b)" "distinct xs" using assms(1,2) by simp_all
  then have 1: "dlist nx' pv' None xs (Some a)"
  proof (rule dlist_new_next)
    fix x assume "x \<in> set xs"
    then have "x \<noteq> a" "x \<noteq> b" using assms(2,3) by auto
    then show "nx' x = (if last_of None xs = Some x then Some a else nx x)" "pv' x = pv x"
      by (simp_all add: assms(4,5) pvb)
  qed
  have "dlist nx pv (pv b) (b # ys) None" "distinct (b # ys)" using assms(1,2) by simp_all
  then have "dlist nx' pv' (Some a) (b # ys) None"
  proof (rule dlist_new_prev)
    fix x assume x: "x \<in> set (b # ys)"
    then have "x \<noteq> a" using assms(3) by auto
    then show "pv' x = (if first_of (b # ys) None = Some x then Some a else pv x)" "nx' x = nx x"
      using ys [OF x] by (auto simp: assms(4,5))
  qed
  with 1 show ?thesis using assms(6,7) pvb by simp
qed

text \<open>
  An element that is linked into the order of the others is added to the buckets. \<open>h1\<close> differs
  from \<open>h\<close> in the links of the order and in the new element only.
\<close>

lemma HASH_ADD_linked:
  assumes rep: "hash_rep h es" and es: "es \<noteq> []" and len: "Suc (length es) < 2 ^ 32"
    and k: "length k < 2 ^ 32" "k \<notin> fst ` set es" and a: "a \<notin> snd ` set es" and mem: "small_heap mem"
    and perm: "mset es' = add_mset (k, a) (mset es)"
    and frame: "\<And>x. x \<noteq> a \<Longrightarrow> hh_next (handles h1 x) = hh_next (handles h x) \<and>
      hh_prev (handles h1 x) = hh_prev (handles h x) \<and> hashv (handles h1 x) = hashv (handles h x) \<and>
      hkey (handles h1 x) = hkey (handles h x) \<and> keylen (handles h1 x) = keylen (handles h x)"
    and new: "hashv (handles h1 a) = HASH_JEN k (str_len k)" "hkey (handles h1 a) = k"
      "keylen (handles h1 a) = str_len k"
    and order: "in_order (handles h1) (map snd es')" "hash_head h1 = first_of (map snd es') None"
      "tail (tbl h1) = last_of None (map snd es')"
    and tbl1: "buckets (tbl h1) = buckets (tbl h)" "num_buckets (tbl h1) = num_buckets (tbl h)"
      "log2_num_buckets (tbl h1) = log2_num_buckets (tbl h)" "num_items (tbl h1) = num_items (tbl h)"
  shows "HASH_ADD_TO_TABLE mem (HASH_JEN k (str_len k)) a h1 = Some Exit \<or>
    (\<exists>h'. HASH_ADD_TO_TABLE mem (HASH_JEN k (str_len k)) a h1 = Some (Run h') \<and> hash_rep h' es')"
proof (rule HASH_ADD_STR_table [where D = "snd ` set es" and xs = "map snd es'"])
  have tab: "table_rep (handles h) (tbl h) (map snd es)" and key: "keyed (handles h) es"
    and dist: "distinct (map fst es)" "distinct (map snd es)"
    using rep es by (auto simp: hash_rep_def)
  have set': "set es' = insert (k, a) (set es)" and len': "length es' = Suc (length es)"
    using perm by (metis set_mset_add_mset_insert set_mset_mset, metis size_add_mset size_mset)
  have old: "x \<noteq> a" if "x \<in> snd ` set es" for x using a that by auto
  show "buckets_ok (handles h1) (tbl h1) (snd ` set es)"
  proof (rule buckets_ok_cong [where hs = "handles h" and t = "tbl h"])
    show "buckets_ok (handles h) (tbl h) (snd ` set es)" using tab by (simp add: table_rep_def)
  qed (use frame old in \<open>blast, simp_all add: tbl1\<close>)
  have "keyed (handles h1) es = keyed (handles h) es"
  proof (rule keyed_cong)
    fix x assume "x \<in> set (map snd es)"
    then have "x \<noteq> a" using old by auto
    from frame [OF this] show "hkey (handles h1 x) = hkey (handles h x) \<and>
        keylen (handles h1 x) = keylen (handles h x) \<and> hashv (handles h1 x) = hashv (handles h x)"
      by blast
  qed
  with key have "keyed (handles h1) es" by blast
  then show "keyed (handles h1) es'" using new k(1) by (auto simp: keyed_def set')
  show "num_items (tbl h1) + 1 = of_nat (length (map snd es'))"
    using tab by (simp add: tbl1 table_rep_def len')
  have "mset (map fst es') = mset (k # map fst es)" "mset (map snd es') = mset (a # map snd es)"
    using perm by simp_all
  then show "distinct (map fst es')" "distinct (map snd es')"
    using dist k(2) a by (metis distinct.simps(2) list.set_map mset_eq_imp_distinct_iff)+
  show "insert a (snd ` set es) = set (map snd es')" by (simp add: set')
  show "a \<notin> snd ` set es" "length es' < 2 ^ 32" "es' \<noteq> []" using a len len' by auto
qed (use mem new(1) order in simp_all)

text \<open>The new element stands before the first that compares greater.\<close>

definition ordered_insert :: "cmpfcn \<Rightarrow> string \<Rightarrow> addr \<Rightarrow> (string \<times> addr) list \<Rightarrow> (string \<times> addr) list" where
  "ordered_insert cmpfcn k a es =
     takeWhile (\<lambda>e. cmpfcn (snd e) a \<le> 0) es @ (k, a) # dropWhile (\<lambda>e. cmpfcn (snd e) a \<le> 0) es"

lemma mset_ordered_insert [simp]: "mset (ordered_insert cmpfcn k a es) = add_mset (k, a) (mset es)"
proof -
  have "mset es = mset (takeWhile (\<lambda>e. cmpfcn (snd e) a \<le> 0) es @ dropWhile (\<lambda>e. cmpfcn (snd e) a \<le> 0) es)"
    by simp
  then show ?thesis unfolding ordered_insert_def by (simp only: mset_append mset.simps) simp
qed

lemma last_of_append: "last_of p (xs @ ys) = last_of (last_of p xs) ys"
  by (simp add: last_of_def)

lemma HASH_AKBI_INNER_LOOP_first:
  "links_to hs (b # xs) None \<Longrightarrow> HASH_AKBI_INNER_LOOP cmpfcn hs a b =
     Some (first_of (dropWhile (\<lambda>x. cmpfcn x a \<le> 0) (b # xs)) None)"
proof (induction xs arbitrary: b)
  case Nil
  then show ?case by (subst HASH_AKBI_INNER_LOOP.simps) simp
next
  case (Cons c xs)
  then show ?case by (subst HASH_AKBI_INNER_LOOP.simps) simp
qed

lemma map_snd_dropWhile: "map snd (dropWhile (\<lambda>e. P (snd e)) es) = dropWhile P (map snd es)"
  by (induction es) auto

lemma set_key_store:
  "app_next (handles (set_key k l hv a h) x) = app_next (handles h x)"
  "app_prev (handles (set_key k l hv a h) x) = app_prev (handles h x)"
  "hash_head (set_key k l hv a h) = hash_head h" "tbl (set_key k l hv a h) = tbl h"
  by (simp_all add: set_key_def upd_hh_apply)

text \<open>Without a greater element the macro appends.\<close>

lemma inorder_append:
  assumes "hash_head h = None \<or>
    (\<exists>head. hash_head h = Some head \<and>
      HASH_AKBI_INNER_LOOP cmpfcn (handles (set_key k (str_len k) (HASH_JEN k (str_len k)) a h)) a head = Some None)"
  shows "HASH_ADD_INORDER mem k (str_len k) cmpfcn a h = HASH_ADD_STR mem k a h"
  using assms
  by (auto simp: HASH_ADD_INORDER_def HASH_ADD_KEYPTR_INORDER_def HASH_ADD_KEYPTR_BYHASHVALUE_INORDER_def
      HASH_ADD_STR_def HASH_ADD_KEYPTR_def HASH_ADD_KEYPTR_BYHASHVALUE_def set_key_store Let_def)

lemma link_before_ok:
  assumes ord: "in_order (handles h) (xs @ b # ys)" and dist: "distinct (xs @ b # ys)"
    and a: "a \<notin> set (xs @ b # ys)" and head: "hash_head h = first_of (xs @ b # ys) None"
    and h1_def: "h1 = link_before b a (set_key k l hv a h)"
  shows "in_order (handles h1) (xs @ a # b # ys)" "hash_head h1 = first_of (xs @ a # b # ys) None"
    "tbl h1 = tbl h"
    "x \<noteq> a \<Longrightarrow> hh_next (handles h1 x) = hh_next (handles h x) \<and> hh_prev (handles h1 x) = hh_prev (handles h x) \<and>
      hashv (handles h1 x) = hashv (handles h x) \<and> hkey (handles h1 x) = hkey (handles h x) \<and>
      keylen (handles h1 x) = keylen (handles h x)"
    "hashv (handles h1 a) = hv" "hkey (handles h1 a) = k" "keylen (handles h1 a) = l"
proof -
  have prev_b: "app_prev (handles h b) = last_of None xs" using ord by (simp add: in_order_def)
  have ab: "a \<noteq> b" and ap: "app_prev (handles h b) \<noteq> Some a"
    using a last_of_eq_Some [of xs a] by (auto simp: prev_b)
  note h1 = h1_def link_before_def Let_def set_key_store upd_ptr_apply upd_hh_apply
  show "in_order (handles h1) (xs @ a # b # ys)"
    unfolding in_order_def
    by (rule dlist_insert [OF ord [unfolded in_order_def] dist a]) (use ab ap in \<open>auto simp: h1\<close>)
  show "hash_head h1 = first_of (xs @ a # b # ys) None"
    using head prev_b by (cases xs) (auto simp: h1_def link_before_def Let_def set_key_store last_of_def)
  show "tbl h1 = tbl h" by (simp add: h1_def link_before_def Let_def set_key_store)
  show "x \<noteq> a \<Longrightarrow> hh_next (handles h1 x) = hh_next (handles h x) \<and> hh_prev (handles h1 x) = hh_prev (handles h x) \<and>
      hashv (handles h1 x) = hashv (handles h x) \<and> hkey (handles h1 x) = hkey (handles h x) \<and>
      keylen (handles h1 x) = keylen (handles h x)"
    by (simp add: h1 set_key_def)
  show "hashv (handles h1 a) = hv" "hkey (handles h1 a) = k" "keylen (handles h1 a) = l"
    using ab ap by (simp_all add: h1 set_key_def)
qed

lemma HASH_ADD_INORDER_rep:
  assumes rep: "hash_rep h es" and len: "Suc (length es) < 2 ^ 32"
    and k: "length k < 2 ^ 32" "k \<notin> fst ` set es" and a: "a \<notin> snd ` set es" and mem: "small_heap mem"
  shows "HASH_ADD_INORDER mem k (str_len k) cmpfcn a h = Some Exit \<or>
    (\<exists>h'. HASH_ADD_INORDER mem k (str_len k) cmpfcn a h = Some (Run h') \<and>
      hash_rep h' (ordered_insert cmpfcn k a es))"
proof -
  let ?P = "\<lambda>e. cmpfcn (snd e) a \<le> 0" and ?hv = "HASH_JEN k (str_len k)"
  let ?h = "set_key k (str_len k) ?hv a h"
  have head: "hash_head h = first_of (map snd es) None" and ord: "in_order (handles h) (map snd es)"
    and dist: "distinct (map snd es)" and tab: "es \<noteq> [] \<Longrightarrow> table_rep (handles h) (tbl h) (map snd es)"
    using rep by (simp_all add: hash_rep_def)
  have loop: "HASH_AKBI_INNER_LOOP cmpfcn (handles ?h) a b =
      Some (first_of (map snd (dropWhile ?P es)) None)" if "es = e # es0" "snd e = b" for e es0 b
  proof -
    have "links_to (handles ?h) (b # map snd es0) None"
      using links_to_cong [OF _ in_order_links_to [OF ord]] that by (simp add: set_key_store)
    then show ?thesis
      using map_snd_dropWhile [of "\<lambda>x. cmpfcn x a \<le> 0" es]
      by (simp only: HASH_AKBI_INNER_LOOP_first) (simp add: that)
  qed
  show ?thesis
  proof (cases "dropWhile ?P es")
    case Nil
    then have ins: "ordered_insert cmpfcn k a es = es @ [(k, a)]"
      by (simp add: ordered_insert_def dropWhile_eq_Nil_conv takeWhile_eq_all_conv)
    have "HASH_ADD_INORDER mem k (str_len k) cmpfcn a h = HASH_ADD_STR mem k a h"
      using loop Nil head by (intro inorder_append) (cases es, auto)
    then show ?thesis using HASH_ADD_STR_rep [OF rep len k a mem] by (simp add: ins)
  next
    case (Cons e es2)
    obtain kb b where e: "e = (kb, b)" by (cases e)
    let ?es1 = "takeWhile ?P es"
    have es: "es = ?es1 @ (kb, b) # es2" using takeWhile_dropWhile_id [of ?P es] Cons e by simp
    have ins: "ordered_insert cmpfcn k a es = ?es1 @ (k, a) # (kb, b) # es2"
      by (simp add: ordered_insert_def Cons e)
    have xs: "map snd es = map snd ?es1 @ b # map snd es2" by (subst es) simp
    have "es \<noteq> []" using Cons by auto
    let ?h1 = "link_before b a ?h"
    have add: "HASH_ADD_INORDER mem k (str_len k) cmpfcn a h = HASH_ADD_TO_TABLE mem ?hv a ?h1"
      using loop [OF _ refl] head \<open>es \<noteq> []\<close> Cons e
      by (cases es) (auto simp: HASH_ADD_INORDER_def HASH_ADD_KEYPTR_INORDER_def
          HASH_ADD_KEYPTR_BYHASHVALUE_INORDER_def set_key_store Let_def)
    have a': "a \<notin> set (map snd ?es1 @ b # map snd es2)" using a xs by (metis list.set_map)
    note ok = link_before_ok [OF ord [unfolded xs] dist [unfolded xs] a' head [unfolded xs] refl,
        where k = k and l = "str_len k" and hv = ?hv]
    have tl: "tail (tbl h) = last_of None (map snd es)"
      using tab [OF \<open>es \<noteq> []\<close>] by (simp add: table_rep_def)
    show ?thesis unfolding add
    proof (rule HASH_ADD_linked [OF rep \<open>es \<noteq> []\<close> len k a mem, where ?h1.0 = ?h1])
      show "tail (tbl ?h1) = last_of None (map snd (ordered_insert cmpfcn k a es))"
        unfolding ins ok(3) tl xs by (simp add: last_of_append)
      show "mset (ordered_insert cmpfcn k a es) = add_mset (k, a) (mset es)" by simp
    qed (use ok in \<open>simp_all add: ins\<close>)
  qed
qed

text \<open>With a comparison, insertion in order keeps a table sorted.\<close>

lemma sorted_hd_not_greater: "sorted C xs \<Longrightarrow> y \<in> set xs \<Longrightarrow> compare C (hd xs) y \<noteq> Greater"
  by (cases xs) (auto dest: sorted_Cons_imp_not_less)

lemma sorted_ordered_insert:
  assumes "compares cmpfcn C" "sorted (key snd C) es"
  shows "sorted (key snd C) (ordered_insert cmpfcn k a es)"
proof -
  let ?C = "key snd C"
  have le: "cmpfcn (snd e) a \<le> 0 \<longleftrightarrow> compare ?C e (k, a) \<noteq> Greater" for e :: "string \<times> addr"
    using assms(1) by (simp add: compares_def)
  let ?es1 = "takeWhile (\<lambda>e. compare ?C e (k, a) \<noteq> Greater) es"
    and ?es2 = "dropWhile (\<lambda>e. compare ?C e (k, a) \<noteq> Greater) es"
  have parts: "sorted ?C ?es1" "sorted ?C ?es2" "\<forall>x \<in> set ?es1. \<forall>y \<in> set ?es2. compare ?C x y \<noteq> Greater"
    using assms(2) sorted_append_iff [of ?C ?es1 ?es2] by simp_all
  have before: "compare ?C x (k, a) \<noteq> Greater" if "x \<in> set ?es1" for x
    using that by (rule set_takeWhileD [THEN conjunct2])
  have after: "compare ?C (k, a) y \<noteq> Greater" if "y \<in> set ?es2" for y
  proof -
    have "?es2 \<noteq> []" using that by (metis empty_iff list.set(1))
    from hd_dropWhile [OF this] have "compare ?C (hd ?es2) (k, a) = Greater" by blast
    then have "compare ?C (k, a) (hd ?es2) \<noteq> Greater" by (simp add: compare.greater_iff_sym_less)
    moreover have "compare ?C (hd ?es2) y \<noteq> Greater"
      using sorted_hd_not_greater [OF parts(2) that] .
    ultimately show ?thesis by (rule compare.trans_not_greater)
  qed
  have "sorted ?C ((k, a) # ?es2)"
    using parts(2) after by (intro sorted_ConsI) auto
  then have "sorted ?C (?es1 @ (k, a) # ?es2)"
    unfolding sorted_append_iff using parts before by auto
  then show ?thesis by (simp add: ordered_insert_def le)
qed

section \<open>Replacement and clearing on lists\<close>

definition without :: "string \<Rightarrow> (string \<times> addr) list \<Rightarrow> (string \<times> addr) list" where
  "without k es = filter (\<lambda>e. fst e \<noteq> k) es"

lemma hash_rep_find_delete:
  assumes rep: "hash_rep h es" and k: "length k < 2 ^ 32"
  shows "HASH_FIND_BYHASHVALUE h k (str_len k) (HASH_JEN k (str_len k)) = Some (map_of es k)"
    "hash_rep (delete_found (map_of es k) h) (without k es)"
proof -
  show "HASH_FIND_BYHASHVALUE h k (str_len k) (HASH_JEN k (str_len k)) = Some (map_of es k)"
    using HASH_FIND_STR_rep [OF rep k]
    by (auto simp: HASH_FIND_STR_def HASH_FIND_def HASH_FIND_BYHASHVALUE_def split: if_splits)
  show "hash_rep (delete_found (map_of es k) h) (without k es)"
  proof (cases "map_of es k")
    case None
    then have "without k es = es" by (auto simp: without_def map_of_eq_None_iff filter_id_conv)
    with None rep show ?thesis by (simp add: delete_found_def)
  next
    case (Some d)
    then obtain es1 es2 where es: "es = es1 @ (k, d) # es2" by (meson map_of_SomeD split_list)
    have "k \<notin> fst ` set es1" "k \<notin> fst ` set es2" using hash_rep_distinct [OF rep] by (auto simp: es)
    then have "filter (\<lambda>e. fst e \<noteq> k) es1 = es1" "filter (\<lambda>e. fst e \<noteq> k) es2 = es2"
      by (auto simp: filter_id_conv)
    then have "without k es = es1 @ es2" by (simp add: es without_def)
    with Some rep HASH_DELETE_rep [of h es1 k d es2] show ?thesis by (simp add: es delete_found_def)
  qed
qed

text \<open>The new element may be the old one.\<close>

lemma replace_room:
  assumes "hash_rep h es" "a \<notin> snd ` set es \<or> map_of es k = Some a"
  shows "k \<notin> fst ` set (without k es)" "a \<notin> snd ` set (without k es)" "length (without k es) \<le> length es"
proof -
  show "k \<notin> fst ` set (without k es)" "length (without k es) \<le> length es" by (auto simp: without_def)
  have "fst e = k" if "map_of es k = Some a" "e \<in> set es" "snd e = a" for e
    using that hash_rep_distinct [OF assms(1)]
    by (metis distinct_map inj_onD map_of_SomeD prod.collapse snd_conv fst_conv)
  with assms(2) show "a \<notin> snd ` set (without k es)" by (auto simp: without_def)
qed

lemma HASH_REPLACE_STR_rep:
  assumes rep: "hash_rep h es" and len: "Suc (length es) < 2 ^ 32" and k: "length k < 2 ^ 32"
    and a: "a \<notin> snd ` set es \<or> map_of es k = Some a" and mem: "small_heap mem"
  shows "HASH_REPLACE_STR mem k a h = Some Exit \<or>
    (\<exists>h'. HASH_REPLACE_STR mem k a h = Some (Run (map_of es k, h')) \<and> hash_rep h' (without k es @ [(k, a)]))"
proof -
  note fd = hash_rep_find_delete [OF rep k] and room = replace_room [OF rep a]
  have "HASH_REPLACE_STR mem k a h =
      with_replaced (map_of es k) (HASH_ADD_STR mem k a (delete_found (map_of es k) h))"
    by (simp add: HASH_REPLACE_STR_def HASH_REPLACE_def HASH_REPLACE_BYHASHVALUE_def fd(1) HASH_ADD_STR_def
        HASH_ADD_KEYPTR_def)
  then show ?thesis
    using HASH_ADD_STR_rep [OF fd(2) _ k room(1,2) mem] room(3) len by (auto simp: with_replaced_def)
qed

lemma HASH_REPLACE_INORDER_rep:
  assumes rep: "hash_rep h es" and len: "Suc (length es) < 2 ^ 32" and k: "length k < 2 ^ 32"
    and a: "a \<notin> snd ` set es \<or> map_of es k = Some a" and mem: "small_heap mem"
  shows "HASH_REPLACE_INORDER mem k (str_len k) cmpfcn a h = Some Exit \<or>
    (\<exists>h'. HASH_REPLACE_INORDER mem k (str_len k) cmpfcn a h = Some (Run (map_of es k, h')) \<and>
      hash_rep h' (ordered_insert cmpfcn k a (without k es)))"
proof -
  note fd = hash_rep_find_delete [OF rep k] and room = replace_room [OF rep a]
  have "HASH_REPLACE_INORDER mem k (str_len k) cmpfcn a h = with_replaced (map_of es k)
      (HASH_ADD_INORDER mem k (str_len k) cmpfcn a (delete_found (map_of es k) h))"
    by (simp add: HASH_REPLACE_INORDER_def HASH_REPLACE_BYHASHVALUE_INORDER_def fd(1) HASH_ADD_INORDER_def
        HASH_ADD_KEYPTR_INORDER_def)
  then show ?thesis
    using HASH_ADD_INORDER_rep [OF fd(2) _ k room(1,2) mem, of cmpfcn] room(3) len
    by (auto simp: with_replaced_def)
qed

lemma HASH_CLEAR_rep: "hash_rep (HASH_CLEAR h) []"
  by (rule hash_rep_empty) (simp add: HASH_CLEAR_def)

section \<open>The interface with sorting and replacement\<close>

text \<open>
  More operations of an ordered table: a sort that permutes the elements, a replacement that
  returns the old element, and clearing.
\<close>

locale sortable_table = ordered_table rep look add del key_ok mem_ok limit
  for rep :: "'t \<Rightarrow> ('k \<times> 'a) list \<Rightarrow> bool"
    and look :: "'t \<Rightarrow> 'k \<Rightarrow> 'a option option"
    and add :: "'m \<Rightarrow> 'k \<Rightarrow> 'a \<Rightarrow> 't \<Rightarrow> 't process option"
    and del :: "'a \<Rightarrow> 't \<Rightarrow> 't"
    and key_ok :: "'k \<Rightarrow> bool" and mem_ok :: "'m \<Rightarrow> bool" and limit :: nat +
  fixes srt :: "'c \<Rightarrow> 't \<Rightarrow> 't option"
    and order :: "'c \<Rightarrow> ('k \<times> 'a) list \<Rightarrow> ('k \<times> 'a) list"
    and replace :: "'m \<Rightarrow> 'k \<Rightarrow> 'a \<Rightarrow> 't \<Rightarrow> ('a option \<times> 't) process option"
    and clear :: "'t \<Rightarrow> 't"
  assumes srt_rep: "rep t es \<Longrightarrow> \<exists>t'. srt c t = Some t' \<and> rep t' (order c es)"
    and order_perm: "mset (order c es) = mset es"
    and replace_rep: "rep t es \<Longrightarrow> Suc (length es) < limit \<Longrightarrow> key_ok k \<Longrightarrow>
      a \<notin> snd ` set es \<or> map_of es k = Some a \<Longrightarrow> mem_ok mem \<Longrightarrow>
      replace mem k a t = Some Exit \<or>
      (\<exists>t'. replace mem k a t = Some (Run (map_of es k, t')) \<and>
        rep t' (filter (\<lambda>e. fst e \<noteq> k) es @ [(k, a)]))"
    and clear_rep: "rep (clear t) []"
begin

lemma look_after_srt:
  assumes "rep t es" "srt c t = Some t'" "key_ok k"
  shows "look t' k = look t k"
proof -
  have rep': "rep t' (order c es)" using srt_rep [OF assms(1), of c] assms(2) by simp
  have "map_of (order c es) k = map_of es k"
    using rep_distinct [OF rep'] rep_distinct [OF assms(1)] order_perm [of c es]
    by (metis map_of_inject_set mset_eq_setD)
  then show ?thesis using look_rep [OF rep' assms(3)] look_rep [OF assms(1,3)] by simp
qed

lemma look_after_replace:
  assumes "rep t es" "Suc (length es) < limit" "key_ok k" "a \<notin> snd ` set es \<or> map_of es k = Some a"
    and "mem_ok mem" "replace mem k a t = Some (Run (old, t'))" "key_ok k'"
  shows "look t k = Some old \<and> look t' k' = (if k' = k then Some (Some a) else look t k')"
proof -
  have t': "old = map_of es k" "rep t' (filter (\<lambda>e. fst e \<noteq> k) es @ [(k, a)])"
    using replace_rep [OF assms(1-5)] assms(6) by auto
  have "map_of (filter (\<lambda>e. fst e \<noteq> k) es @ [(k, a)]) k' = (if k' = k then Some a else map_of es k')"
    by (induction es) auto
  then show ?thesis
    using t' look_rep [OF assms(1,3)] look_rep [OF assms(1,7)] look_rep [OF t'(2) assms(7)] by simp
qed

lemma look_after_clear: "key_ok k \<Longrightarrow> look (clear t) k = Some None"
  using look_rep [OF clear_rep] by simp

end

text \<open>The order that \<open>HASH_SRT\<close> makes.\<close>

definition sort_order :: "cmpfcn \<Rightarrow> (string \<times> addr) list \<Rightarrow> (string \<times> addr) list" where
  "sort_order cmpfcn = merge_sort (\<lambda>x y. cmpfcn (snd x) (snd y) \<le> 0) 1"

lemma mset_sort_order [simp]: "mset (sort_order cmpfcn es) = mset es"
  by (simp add: sort_order_def mset_merge_sort)

lemma HASH_SRT_order: "hash_rep h es \<Longrightarrow> \<exists>h'. HASH_SRT cmpfcn h = Some h' \<and> hash_rep h' (sort_order cmpfcn es)"
  using HASH_SRT_rep [OF _ refl] by (fastforce simp: sort_order_def)

interpretation st: sortable_table hash_rep HASH_FIND_STR HASH_ADD_STR HASH_DELETE_HH
    "\<lambda>k. length k < 2 ^ 32" small_heap "2 ^ 32" HASH_SRT sort_order HASH_REPLACE_STR HASH_CLEAR
  by unfold_locales
    (rule HASH_SRT_order mset_sort_order HASH_REPLACE_STR_rep [unfolded without_def] HASH_CLEAR_rep; assumption?)+

section \<open>All operations\<close>

text \<open>\<open>table_run mem h es\<close>: the operations of the library lead from the empty table to \<open>h\<close>.\<close>

inductive table_run :: "allocator \<Rightarrow> uthash \<Rightarrow> (string \<times> addr) list \<Rightarrow> bool" for mem where
  tr_empty: "hash_head h = None \<Longrightarrow> table_run mem h []"
| tr_add: "table_run mem h es \<Longrightarrow> length k < 2 ^ 32 \<Longrightarrow> k \<notin> fst ` set es \<Longrightarrow> a \<notin> snd ` set es \<Longrightarrow>
    Suc (length es) < 2 ^ 32 \<Longrightarrow> HASH_ADD_STR mem k a h = Some (Run h') \<Longrightarrow>
    table_run mem h' (es @ [(k, a)])"
| tr_add_inorder: "table_run mem h es \<Longrightarrow> length k < 2 ^ 32 \<Longrightarrow> k \<notin> fst ` set es \<Longrightarrow> a \<notin> snd ` set es \<Longrightarrow>
    Suc (length es) < 2 ^ 32 \<Longrightarrow> HASH_ADD_INORDER mem k (str_len k) cmpfcn a h = Some (Run h') \<Longrightarrow>
    table_run mem h' (ordered_insert cmpfcn k a es)"
| tr_replace: "table_run mem h es \<Longrightarrow> length k < 2 ^ 32 \<Longrightarrow> a \<notin> snd ` set es \<or> map_of es k = Some a \<Longrightarrow>
    Suc (length es) < 2 ^ 32 \<Longrightarrow> HASH_REPLACE_STR mem k a h = Some (Run (old, h')) \<Longrightarrow>
    table_run mem h' (without k es @ [(k, a)])"
| tr_replace_inorder: "table_run mem h es \<Longrightarrow> length k < 2 ^ 32 \<Longrightarrow> a \<notin> snd ` set es \<or> map_of es k = Some a \<Longrightarrow>
    Suc (length es) < 2 ^ 32 \<Longrightarrow> HASH_REPLACE_INORDER mem k (str_len k) cmpfcn a h = Some (Run (old, h')) \<Longrightarrow>
    table_run mem h' (ordered_insert cmpfcn k a (without k es))"
| tr_del: "table_run mem h (es1 @ (k, a) # es2) \<Longrightarrow> table_run mem (HASH_DELETE_HH a h) (es1 @ es2)"
| tr_sort: "table_run mem h es \<Longrightarrow> HASH_SRT cmpfcn h = Some h' \<Longrightarrow> table_run mem h' (sort_order cmpfcn es)"
| tr_clear: "table_run mem h es \<Longrightarrow> table_run mem (HASH_CLEAR h) []"

lemma table_run_rep: "table_run mem h es \<Longrightarrow> small_heap mem \<Longrightarrow> hash_rep h es"
proof (induction rule: table_run.induct)
  case (tr_add h es k a h')
  then show ?case using HASH_ADD_STR_rep [of h es k a mem] by auto
next
  case (tr_add_inorder h es k a cmpfcn h')
  then show ?case using HASH_ADD_INORDER_rep [of h es k a mem cmpfcn] by auto
next
  case (tr_replace h es k a old h')
  then show ?case using HASH_REPLACE_STR_rep [of h es k a mem] by auto
next
  case (tr_replace_inorder h es k a cmpfcn old h')
  then show ?case using HASH_REPLACE_INORDER_rep [of h es k a mem cmpfcn] by auto
next
  case (tr_sort h es cmpfcn h')
  then show ?case using HASH_SRT_order [of h es cmpfcn] by auto
qed (auto intro: hash_rep_empty HASH_DELETE_rep HASH_CLEAR_rep)

lemma hash_run_table_run: "hash_run mem h es \<Longrightarrow> table_run mem h es"
  by (induction rule: hash_run.induct) (auto intro: table_run.intros)

lemma hash_rep_checks:
  assumes rep: "hash_rep h es"
  shows "HASH_FSCK h = Some True"
    "HASH_ITER (\<lambda>_. handles h) (\<lambda>a xs. xs @ [a]) (hash_head h) [] = Some (map snd es)"
proof -
  show "HASH_FSCK h = Some True" by (rule HASH_FSCK_rep [OF rep])
  have "fold (\<lambda>a xs. xs @ [a]) ys zs = zs @ ys" for ys zs :: "addr list"
    by (induction ys arbitrary: zs) auto
  then show "HASH_ITER (\<lambda>_. handles h) (\<lambda>a xs. xs @ [a]) (hash_head h) [] = Some (map snd es)"
    using HASH_ITER_read [OF rep, where links = "\<lambda>_. handles h" and body = "\<lambda>a xs. xs @ [a]" and s = "[]"]
    by simp
qed

text \<open>C19: After any sequence of the operations of the hash table, insertions, insertions in order,
  replacements, removals, sorts and clearings, whatever doublings of the buckets happened on the
  way, the integrity check passes, a look-up ends and finds the element of the key, and an
  iteration visits the elements in their order.\<close>

theorem uthash_operations:
  assumes "small_heap mem" "table_run mem h es" "length k < 2 ^ 32"
  shows "HASH_FSCK h = Some True \<and> HASH_FIND_STR h k = Some (map_of es k) \<and>
    HASH_ITER (\<lambda>_. handles h) (\<lambda>a xs. xs @ [a]) (hash_head h) [] = Some (map snd es)"
  using hash_rep_checks [OF table_run_rep [OF assms(2,1)]] ht.look_rep [OF table_run_rep [OF assms(2,1)] assms(3)] by simp

text \<open>Addresses in descending order.\<close>

definition by_addr_desc :: cmpfcn where
  "by_addr_desc a b = int b - int a"

lemma uthash_operations_witness:
  "\<exists>h'. HASH_SRT by_addr_desc sample_table = Some h' \<and> HASH_FSCK h' = Some True \<and>
     HASH_FIND_STR h' ''cpu'' = Some (Some 16) \<and>
     HASH_ITER (\<lambda>_. handles h') (\<lambda>a xs. xs @ [a]) (hash_head h') [] = Some [32, 16]"
proof -
  let ?es = "[(''cpu'', 16), (''mem'', 32)]"
  have run: "table_run heap_32G sample_table ?es" by (rule hash_run_table_run [OF sample_run])
  obtain h' where h': "HASH_SRT by_addr_desc sample_table = Some h'"
    using HASH_SRT_order [OF table_run_rep [OF run heap_32G_small], of by_addr_desc] by blast
  have order: "sort_order by_addr_desc ?es = [(''mem'', 32), (''cpu'', 16)]" by code_simp
  have "table_run heap_32G h' [(''mem'', 32), (''cpu'', 16)]"
    using tr_sort [OF run h'] by (simp only: order)
  from uthash_operations [OF heap_32G_small this, of "''cpu''"] h' show ?thesis by simp
qed

text \<open>C34: HASH_SORT ends, and with a comparison function that is a total preorder it puts the elements
  of a table in the order that the stable sort of the library gives: elements that compare equal
  stay in their order. The buckets and so all look-ups are untouched.\<close>

theorem uthash_sort:
  assumes "small_heap mem" "table_run mem h es" "compares cmpfcn C"
  shows "\<exists>h'. HASH_SRT cmpfcn h = Some h' \<and> table_run mem h' (sort (key snd C) es) \<and>
    HASH_FSCK h' = Some True \<and>
    HASH_ITER (\<lambda>_. handles h') (\<lambda>a xs. xs @ [a]) (hash_head h') [] = Some (sort C (map snd es))"
proof -
  have rep: "hash_rep h es" by (rule table_run_rep [OF assms(2,1)])
  have le: "(\<lambda>x y. cmpfcn (snd x) (snd y) \<le> 0) = le_of (key snd C)" "(\<lambda>x y. cmpfcn x y \<le> 0) = le_of C"
    using assms(3) by (simp_all add: compares_def fun_eq_iff)
  have order: "sort_order cmpfcn es = sort (key snd C) es"
    unfolding sort_order_def le merge_sort_stable ..
  have "map snd (sort (key snd C) es) = sort C (map snd es)"
    using map_merge_sort [of snd "le_of C" 1 es] by (simp only: merge_sort_stable flip: compare_key_apply)
  moreover obtain h' where h': "HASH_SRT cmpfcn h = Some h'" using HASH_SRT_order [OF rep] by blast
  have "table_run mem h' (sort (key snd C) es)" using tr_sort [OF assms(2) h'] by (simp add: order)
  ultimately show ?thesis
    using h' hash_rep_checks [OF table_run_rep [OF _ assms(1)], of h' "sort (key snd C) es"] by simp
qed

lemma uthash_sort_witness:
  "(\<exists>h'. HASH_SRT by_addr_desc sample_table = Some h' \<and>
      HASH_ITER (\<lambda>_. handles h') (\<lambda>a xs. xs @ [a]) (hash_head h') [] = Some [32, 16]) \<and>
   (\<exists>h'. HASH_SRT (\<lambda>_ _. 0) sample_table = Some h' \<and>
      HASH_ITER (\<lambda>_. handles h') (\<lambda>a xs. xs @ [a]) (hash_head h') [] = Some [16, 32])"
proof -
  note run = hash_run_table_run [OF sample_run]
  have 1: "compares by_addr_desc (reversed default)"
    by (auto simp: compares_def by_addr_desc_def)
  have 2: "compares (\<lambda>_ _. 0) flat" by (simp add: compares_def flat.rep_eq)
  have "compare default (32 :: nat) 16 = Greater" by simp
  then have "sort (reversed default) [16, 32 :: nat] = [32, 16]" by simp
  moreover have "sort flat [16, 32 :: nat] = [16, 32]" by (simp add: flat.rep_eq)
  ultimately show ?thesis
    using uthash_sort [OF heap_32G_small run 1] uthash_sort [OF heap_32G_small run 2] by auto
qed

end
