(* ===== verification/Uthash_Select.thy ===== *)
theory Uthash_Select
  imports Uthash_Options
begin

text \<open>
  \<open>HASH_SELECT\<close> of \<^verbatim>\<open>include/uthash.h\<close>: the elements of one table that satisfy a condition are added
  to a second table through a second handle in each element. The second handles are the store of
  the second table, so the first table is only read.

  The theory proves that the second table has exactly the selected elements, passes the integrity
  check and answers look-ups, and that its tail pointer is left at its first element, so that a
  later insertion breaks its order.
\<close>

section \<open>The program\<close>

text \<open>The second handle of an element is filled and linked after the last selected element.\<close>

definition select_link :: "uthash \<Rightarrow> addr \<Rightarrow> ptr \<Rightarrow> uthash \<Rightarrow> uthash" where
  "select_link src a last_elt dst =
     (let x = handles src a;
          hs = upd_hh a (\<lambda>y. y\<lparr>hkey := hkey x, keylen := keylen x, hashv := hashv x,
                               app_prev := last_elt, app_next := None\<rparr>) (handles dst)
      in dst\<lparr>handles := upd_ptr last_elt (app_next_update (\<lambda>_. Some a)) hs\<rparr>)"

definition select_table :: "allocator \<Rightarrow> addr \<Rightarrow> uthash \<Rightarrow> uthash process" where
  "select_table mem a dst =
     (if hash_head dst = None then HASH_MAKE_TABLE mem a (dst\<lparr>hash_head := Some a\<rparr>) else Run dst)"

definition select_one :: "allocator \<Rightarrow> uthash \<Rightarrow> addr \<Rightarrow> ptr \<times> uthash \<Rightarrow> (ptr \<times> uthash) process option" where
  "select_one mem src a st =
     (case select_table mem a (select_link src a (fst st) (snd st)) of
        Exit \<Rightarrow> Some Exit
      | Run dst \<Rightarrow>
          (case HASH_ADD_TO_BKT mem (HASH_TO_BKT (hashv (handles dst a)) (num_buckets (tbl dst))) a dst of
             None \<Rightarrow> None
           | Some Exit \<Rightarrow> Some Exit
           | Some (Run dst) \<Rightarrow>
               Some (Run (Some a, dst\<lparr>tbl := (tbl dst)\<lparr>num_items := num_items (tbl dst) + 1\<rparr>\<rparr>))))"

text \<open>The loops over a bucket of the source and over its buckets.\<close>

partial_function (option) select_chain ::
    "allocator \<Rightarrow> (addr \<Rightarrow> bool) \<Rightarrow> uthash \<Rightarrow> ptr \<Rightarrow> ptr \<times> uthash \<Rightarrow> (ptr \<times> uthash) process option" where
  "select_chain mem cond src src_hh st =
     (case src_hh of
        None \<Rightarrow> Some (Run st)
      | Some a \<Rightarrow>
          if cond a then
            (case select_one mem src a st of
               None \<Rightarrow> None
             | Some r \<Rightarrow>
                 (case r of
                    Exit \<Rightarrow> Some Exit
                  | Run st \<Rightarrow> select_chain mem cond src (hh_next (handles src a)) st))
          else select_chain mem cond src (hh_next (handles src a)) st)"

declare select_chain.simps [code]

primrec select_buckets ::
    "allocator \<Rightarrow> (addr \<Rightarrow> bool) \<Rightarrow> uthash \<Rightarrow> UT_hash_bucket list \<Rightarrow> ptr \<times> uthash \<Rightarrow>
     (ptr \<times> uthash) process option" where
  "select_buckets mem cond src [] st = Some (Run st)"
| "select_buckets mem cond src (bk # bs) st =
     (case select_chain mem cond src (hh_head bk) st of
        None \<Rightarrow> None
      | Some Exit \<Rightarrow> Some Exit
      | Some (Run st) \<Rightarrow> select_buckets mem cond src bs st)"

definition HASH_SELECT :: "allocator \<Rightarrow> (addr \<Rightarrow> bool) \<Rightarrow> uthash \<Rightarrow> uthash \<Rightarrow> uthash process option" where
  "HASH_SELECT mem cond src dst =
     (if hash_head src = None then Some (Run dst)
      else case select_buckets mem cond src (take (unat (num_buckets (tbl src))) (buckets (tbl src)))
                  (None, dst) of
             None \<Rightarrow> None
           | Some Exit \<Rightarrow> Some Exit
           | Some (Run st) \<Rightarrow> Some (Run (snd st)))"

section \<open>One element\<close>

text \<open>The second table holds the elements \<open>es\<close>, but for its tail.\<close>

definition with_tail :: "ptr \<Rightarrow> uthash \<Rightarrow> uthash" where
  "with_tail p h = h\<lparr>tbl := (tbl h)\<lparr>tail := p\<rparr>\<rparr>"

definition selected :: "uthash \<Rightarrow> (string \<times> addr) list \<Rightarrow> bool" where
  "selected h es \<longleftrightarrow> hash_rep (with_tail (last_of None (map snd es)) h) es"

lemma with_tail_simps [simp]:
  "handles (with_tail p h) = handles h" "hash_head (with_tail p h) = hash_head h"
  "buckets (tbl (with_tail p h)) = buckets (tbl h)" "num_buckets (tbl (with_tail p h)) = num_buckets (tbl h)"
  "log2_num_buckets (tbl (with_tail p h)) = log2_num_buckets (tbl h)"
  "num_items (tbl (with_tail p h)) = num_items (tbl h)" "tail (tbl (with_tail p h)) = p"
  by (simp_all add: with_tail_def)

lemma buckets_ok_with_tail [simp]: "buckets_ok hs (tbl (with_tail p h)) D = buckets_ok hs (tbl h) D"
  by (simp add: buckets_ok_def)

text \<open>\<open>HASH_ADD_TO_BKT\<close> with the number of items counted afterwards.\<close>

lemma HASH_ADD_TO_BKT_ok:
  assumes ok: "buckets_ok (handles h) (tbl h) D" and mem: "small_heap mem" and a: "a \<notin> D"
  defines "b \<equiv> HASH_TO_BKT (hashv (handles h a)) (num_buckets (tbl h))"
  obtains "HASH_ADD_TO_BKT mem b a h = Some Exit"
  | h' where "HASH_ADD_TO_BKT mem b a h = Some (Run h')" "buckets_ok (handles h') (tbl h') (insert a D)"
      "same_app (handles h) (handles h')" "hash_head h' = hash_head h" "num_items (tbl h') = num_items (tbl h)"
proof -
  let ?h = "h\<lparr>tbl := (tbl h)\<lparr>num_items := num_items (tbl h) - 1\<rparr>\<rparr>"
  have eq: "HASH_ADD_TO_TABLE mem (hashv (handles h a)) a ?h = HASH_ADD_TO_BKT mem b a h"
    by (simp add: HASH_ADD_TO_TABLE_def b_def)
  have "buckets_ok (handles ?h) (tbl ?h) D" using ok by (simp add: buckets_ok_def)
  from HASH_ADD_TO_TABLE_ok [OF this mem a, of "hashv (handles h a)", unfolded eq]
  show thesis using that by auto
qed

lemma selected_cases:
  assumes "selected h es"
  shows "length es < 2 ^ 32" "distinct (map fst es)" "distinct (map snd es)"
    "hash_head h = first_of (map snd es) None" "in_order (handles h) (map snd es)" "keyed (handles h) es"
    "es \<noteq> [] \<Longrightarrow> num_items (tbl h) = of_nat (length es) \<and> buckets_ok (handles h) (tbl h) (set (map snd es))"
  using assms by (simp_all add: selected_def hash_rep_def table_rep_def)

text \<open>The first selected element makes the table.\<close>

lemma select_table_ok:
  assumes sel: "selected dst es" and d1: "hash_head d1 = hash_head dst" "tbl d1 = tbl dst"
    and frame: "\<And>y. y \<in> set (map snd es) \<Longrightarrow> hh_next (handles d1 y) = hh_next (handles dst y) \<and>
      hh_prev (handles d1 y) = hh_prev (handles dst y) \<and> hashv (handles d1 y) = hashv (handles dst y)"
    and run: "select_table mem a d1 = Run d2"
  shows "handles d2 = handles d1 \<and> hash_head d2 = first_of (map snd es @ [a]) None \<and>
    buckets_ok (handles d2) (tbl d2) (set (map snd es)) \<and> num_items (tbl d2) = of_nat (length es)"
proof (cases "es = []")
  case True
  then have "hash_head d1 = None" using selected_cases(4) [OF sel] d1 by simp
  then have made: "HASH_MAKE_TABLE mem a (d1\<lparr>hash_head := Some a\<rparr>) = Run d2"
    using run by (simp add: select_table_def)
  then have "hash_head d2 = Some a" by (auto simp: HASH_MAKE_TABLE_def split: if_splits)
  then show ?thesis using fresh_table_ok [OF made] True by simp
next
  case False
  note old = selected_cases [OF sel]
  have "hash_head d1 \<noteq> None" using old(4) d1 False by (cases es) auto
  then have "d2 = d1" using run by (auto simp: select_table_def)
  moreover have "buckets_ok (handles d1) (tbl d1) (set (map snd es))"
  proof (rule buckets_ok_cong [OF frame])
    show "buckets_ok (handles dst) (tbl dst) (set (map snd es))" using old(7) [OF False] by blast
  qed (simp_all add: d1)
  ultimately show ?thesis using old(4) old(7) [OF False] d1 False by (cases es) auto
qed

lemma select_one_selected:
  assumes sel: "selected dst es" and last_elt: "last_elt = last_of None (map snd es)" and mem: "small_heap mem"
    and x: "hkey (handles src a) = k" "length k < 2 ^ 32" "keylen (handles src a) = str_len k"
      "hashv (handles src a) = HASH_JEN k (str_len k)"
    and new: "k \<notin> fst ` set es" "a \<notin> snd ` set es" "Suc (length es) < 2 ^ 32"
  shows "select_one mem src a (last_elt, dst) = Some Exit \<or>
    (\<exists>dst'. select_one mem src a (last_elt, dst) = Some (Run (Some a, dst')) \<and> selected dst' (es @ [(k, a)]))"
proof -
  let ?xs = "map snd es"
  define d1 where "d1 = select_link src a last_elt dst"
  note old = selected_cases [OF sel]
  have a: "a \<notin> set ?xs" using new(2) by simp
  have last_a: "last_elt \<noteq> Some a" using a last_of_eq_Some [of ?xs a] by (auto simp: last_elt)
  note link = d1_def select_link_def Let_def upd_ptr_apply upd_hh_apply
  have d1: "hash_head d1 = hash_head dst" "tbl d1 = tbl dst" "hashv (handles d1 a) = HASH_JEN k (str_len k)"
    "hkey (handles d1 a) = k" "keylen (handles d1 a) = str_len k"
    using last_a x by (simp_all add: link)
  have frame: "hh_next (handles d1 y) = hh_next (handles dst y) \<and> hh_prev (handles d1 y) = hh_prev (handles dst y) \<and>
      hashv (handles d1 y) = hashv (handles dst y) \<and> hkey (handles d1 y) = hkey (handles dst y) \<and>
      keylen (handles d1 y) = keylen (handles dst y)" if "y \<in> set ?xs" for y
    using that a by (auto simp: link)
  have order: "in_order (handles d1) (?xs @ [a])"
    unfolding in_order_def
  proof (rule dlist_snoc [OF old(5) [unfolded in_order_def] old(3) a])
    show "app_next (handles d1 a) = None" "app_prev (handles d1 a) = last_of None ?xs"
      using last_a by (simp_all add: link last_elt)
    fix y assume "y \<in> set ?xs"
    with a have "y \<noteq> a" by auto
    then show "app_next (handles d1 y) = (if last_of None ?xs = Some y then Some a else app_next (handles dst y))"
      "app_prev (handles d1 y) = app_prev (handles dst y)"
      by (simp_all add: link last_elt)
  qed
  have "keyed (handles d1) es = keyed (handles dst) es"
    by (rule keyed_cong) (use frame in blast)
  then have key: "keyed (handles d1) (es @ [(k, a)])" using old(6) d1 x(2) by (auto simp: keyed_def)
  show ?thesis
  proof (cases "select_table mem a d1")
    case Exit
    then show ?thesis by (simp add: select_one_def d1_def)
  next
    case (Run d2)
    have d2: "handles d2 = handles d1" "hash_head d2 = first_of (?xs @ [a]) None"
      "buckets_ok (handles d2) (tbl d2) (set ?xs)" "num_items (tbl d2) = of_nat (length es)"
      using select_table_ok [OF sel d1(1,2) _ Run] frame by auto
    let ?b = "HASH_TO_BKT (hashv (handles d2 a)) (num_buckets (tbl d2))"
    show ?thesis
    proof (rule HASH_ADD_TO_BKT_ok [OF d2(3) mem a])
      assume "HASH_ADD_TO_BKT mem ?b a d2 = Some Exit"
      then show ?thesis using Run by (simp add: select_one_def d1_def)
    next
      fix d3 assume d3: "HASH_ADD_TO_BKT mem ?b a d2 = Some (Run d3)"
        "buckets_ok (handles d3) (tbl d3) (insert a (set ?xs))" "same_app (handles d2) (handles d3)"
        "hash_head d3 = hash_head d2" "num_items (tbl d3) = num_items (tbl d2)"
      let ?d = "d3\<lparr>tbl := (tbl d3)\<lparr>num_items := num_items (tbl d3) + 1\<rparr>\<rparr>"
      have same: "in_order (handles d3) (?xs @ [a])" "keyed (handles d3) (es @ [(k, a)])"
        using order key same_app_links [OF d3(3) [unfolded d2(1)]] in_order_cong [of "?xs @ [a]" "handles d3" "handles d1"]
          keyed_cong [of "es @ [(k, a)]" "handles d3" "handles d1"] by simp_all
      have "buckets_ok (handles d3) (tbl ?d) (insert a (set ?xs))" using d3(2) by (simp add: buckets_ok_def)
      then have "selected ?d (es @ [(k, a)])"
        using same new old d2 d3 x(2) by (simp add: selected_def hash_rep_def table_rep_def)
      then show ?thesis using Run d3(1) by (simp add: select_one_def d1_def)
    qed
  qed
qed

section \<open>All elements\<close>

text \<open>The key with which an element is selected.\<close>

definition keyed_elt :: "uthash \<Rightarrow> addr \<Rightarrow> string \<times> addr" where
  "keyed_elt src a = (hkey (handles src a), a)"

lemma map_keyed_elt:
  assumes "hash_rep src es"
  shows "map (keyed_elt src) (map snd es) = es" "inj_on (\<lambda>a. hkey (handles src a)) (set (map snd es))"
proof -
  have key: "keyed (handles src) es" using assms by (simp add: hash_rep_def)
  show "map (keyed_elt src) (map snd es) = es"
    unfolding map_map by (rule map_idI) (use keyedD [OF key] in \<open>force simp: keyed_elt_def\<close>)
  then have "map (\<lambda>a. hkey (handles src a)) (map snd es) = map fst es"
    by (metis (no_types, lifting) keyed_elt_def fst_conv list.map_comp map_eq_conv o_apply)
  moreover have "distinct (map fst es)" using assms by (simp add: hash_rep_def)
  ultimately show "inj_on (\<lambda>a. hkey (handles src a)) (set (map snd es))"
    by (metis distinct_map)
qed

text \<open>\<open>ys\<close> are the elements selected so far.\<close>

definition selecting :: "uthash \<Rightarrow> addr list \<Rightarrow> ptr \<times> uthash \<Rightarrow> bool" where
  "selecting src ys st \<longleftrightarrow> fst st = last_of None ys \<and> selected (snd st) (map (keyed_elt src) ys)"

lemma select_chain_selecting:
  assumes src: "hash_rep src es" and mem: "small_heap mem"
  shows "walk (handles src) c \<Longrightarrow> distinct (ys @ c) \<Longrightarrow> set (ys @ c) \<subseteq> set (map snd es) \<Longrightarrow> selecting src ys st \<Longrightarrow>
    select_chain mem cond src (first_of c None) st = Some Exit \<or>
    (\<exists>st'. select_chain mem cond src (first_of c None) st = Some (Run st') \<and>
      selecting src (ys @ filter cond c) st')"
proof (induction c arbitrary: ys st)
  case Nil
  then show ?case by (simp add: select_chain.simps)
next
  case (Cons a c)
  have next_a: "hh_next (handles src a) = first_of c None" "walk (handles src) c" using Cons.prems(1) by simp_all
  show ?case
  proof (cases "cond a")
    case False
    have "distinct (ys @ c)" "set (ys @ c) \<subseteq> set (map snd es)" using Cons.prems by auto
    from Cons.IH [OF next_a(2) this Cons.prems(4)] show ?thesis
      using False next_a by (simp add: select_chain.simps [of _ _ _ "Some a"])
  next
    case True
    have mem_a: "a \<in> set (map snd es)" and a: "a \<notin> set ys" using Cons.prems(2,3) by auto
    then obtain k where k: "(k, a) \<in> set es" by auto
    have x: "hkey (handles src a) = k" "length k < 2 ^ 32" "keylen (handles src a) = str_len k"
      "hashv (handles src a) = HASH_JEN k (str_len k)"
      using src keyedD [of "handles src" es k a] k by (simp_all add: hash_rep_def)
    let ?es = "map (keyed_elt src) ys"
    have "hkey (handles src y) \<noteq> k" if "y \<in> set ys" for y
    proof
      assume "hkey (handles src y) = k"
      moreover have "y \<in> set (map snd es)" using that Cons.prems(3) by auto
      ultimately have "y = a" using inj_onD [OF map_keyed_elt(2) [OF src] _ _ mem_a] x(1) by simp
      with that a show False by simp
    qed
    then have new: "k \<notin> fst ` set ?es" "a \<notin> snd ` set ?es" using a by (force simp: keyed_elt_def)+
    have "length (ys @ [a]) \<le> length es"
    proof -
      have "length (ys @ [a]) = card (set (ys @ [a]))" using Cons.prems(2) by (intro distinct_card [symmetric]) auto
      also have "\<dots> \<le> card (set (map snd es))" using Cons.prems(3) by (intro card_mono) auto
      finally show ?thesis using card_length [of "map snd es"] by simp
    qed
    moreover have "length es < 2 ^ 32" using src by (simp add: hash_rep_def)
    ultimately have len: "Suc (length ?es) < 2 ^ 32" by simp
    have st: "selected (snd st) ?es" "fst st = last_of None (map snd ?es)"
      using Cons.prems(4) by (simp_all add: selecting_def keyed_elt_def comp_def)
    from select_one_selected [OF st mem x new len] show ?thesis
    proof
      assume "select_one mem src a (fst st, snd st) = Some Exit"
      then show ?thesis using True by (simp add: select_chain.simps [of _ _ _ "Some a"])
    next
      assume "\<exists>dst'. select_one mem src a (fst st, snd st) = Some (Run (Some a, dst')) \<and> selected dst' (?es @ [(k, a)])"
      then obtain dst' where d: "select_one mem src a st = Some (Run (Some a, dst'))" "selected dst' (?es @ [(k, a)])"
        by auto
      then have "selecting src (ys @ [a]) (Some a, dst')"
        by (simp add: selecting_def keyed_elt_def x(1))
      with Cons.IH [OF next_a(2), of "ys @ [a]" "(Some a, dst')"] Cons.prems(2,3) show ?thesis
        using True d(1) next_a by (simp add: select_chain.simps [of _ _ _ "Some a"])
    qed
  qed
qed

lemma select_buckets_selecting:
  assumes src: "hash_rep src es" and mem: "small_heap mem"
  shows "length bs = length cs \<Longrightarrow> (\<And>b. b < length cs \<Longrightarrow> bucket_ok (handles src) (bs ! b) (cs ! b)) \<Longrightarrow>
    distinct (ys @ concat cs) \<Longrightarrow> set (ys @ concat cs) \<subseteq> set (map snd es) \<Longrightarrow> selecting src ys st \<Longrightarrow>
    select_buckets mem cond src bs st = Some Exit \<or>
    (\<exists>st'. select_buckets mem cond src bs st = Some (Run st') \<and>
      selecting src (ys @ filter cond (concat cs)) st')"
proof (induction bs arbitrary: cs ys st)
  case Nil
  then show ?case by simp
next
  case (Cons bk bs)
  then obtain c cs' where cs: "cs = c # cs'" by (cases cs) auto
  have ok: "bucket_ok (handles src) bk c" using Cons.prems(2) [of 0] cs by simp
  have rest: "length bs = length cs'" "\<And>b. b < length cs' \<Longrightarrow> bucket_ok (handles src) (bs ! b) (cs' ! b)"
    using Cons.prems(1) Cons.prems(2) [of "Suc _"] cs by auto
  have "distinct (ys @ c)" "set (ys @ c) \<subseteq> set (map snd es)" using Cons.prems(3,4) cs by auto
  from select_chain_selecting [OF src mem bucket_ok_walk [OF ok] this Cons.prems(5), of cond]
  show ?case
  proof
    assume "select_chain mem cond src (first_of c None) st = Some Exit"
    then show ?thesis using ok by (simp add: bucket_ok_def)
  next
    assume "\<exists>st'. select_chain mem cond src (first_of c None) st = Some (Run st') \<and>
      selecting src (ys @ filter cond c) st'"
    then obtain st' where st': "select_chain mem cond src (hh_head bk) st = Some (Run st')"
      "selecting src (ys @ filter cond c) st'"
      using ok by (auto simp: bucket_ok_def)
    have "distinct ((ys @ filter cond c) @ concat cs')" "set ((ys @ filter cond c) @ concat cs') \<subseteq> set (map snd es)"
      using Cons.prems(3,4) cs by auto
    from Cons.IH [OF rest this st'(2)] show ?thesis using st'(1) by (simp add: cs)
  qed
qed

lemma HASH_SELECT_selected:
  assumes src: "hash_rep src es" and mem: "small_heap mem" and dst: "hash_head dst = None"
  shows "HASH_SELECT mem cond src dst = Some Exit \<or>
    (\<exists>dst' es'. HASH_SELECT mem cond src dst = Some (Run dst') \<and> selected dst' es' \<and>
      mset es' = mset (filter (\<lambda>e. cond (snd e)) es))"
proof (cases "es = []")
  case True
  then have "HASH_SELECT mem cond src dst = Some (Run dst)"
    using src by (simp add: HASH_SELECT_def hash_rep_def)
  moreover have "selected dst []" using dst by (simp add: selected_def hash_rep_empty)
  ultimately show ?thesis using True by (intro disjI2 exI [of _ dst] exI [of _ "[]"]) simp
next
  case False
  let ?xs = "map snd es"
  have tab: "table_rep (handles src) (tbl src) ?xs" and dist: "distinct ?xs" and head: "hash_head src \<noteq> None"
    using src False by (auto simp: hash_rep_def neq_Nil_conv)
  obtain cs where len: "length cs = 2 ^ unat (log2_num_buckets (tbl src))"
    and nb: "num_buckets (tbl src) = 2 ^ unat (log2_num_buckets (tbl src))"
    and log: "unat (log2_num_buckets (tbl src)) \<le> 30"
    and ch: "in_chains (handles src) (buckets (tbl src)) cs (set ?xs)"
    using tab by (auto simp: table_rep_def buckets_ok_def)
  have all: "take (unat (num_buckets (tbl src))) (buckets (tbl src)) = buckets (tbl src)"
    using chains_length [OF ch] log by (simp add: nb unat_pow2 len)
  have "cs \<noteq> []" using len by auto
  note part = in_chains_partition [OF ch this]
  have start: "selecting src [] (None, dst)"
    using dst by (simp add: selecting_def selected_def hash_rep_empty)
  have perm: "mset (map (keyed_elt src) (filter cond (concat cs))) = mset (filter (\<lambda>e. cond (snd e)) es)"
  proof -
    have "mset (concat cs) = mset ?xs" using part dist by (metis set_eq_iff_mset_eq_distinct)
    then have "mset (map (keyed_elt src) (filter cond (concat cs))) = mset (map (keyed_elt src) (filter cond ?xs))"
      by (simp only: mset_map mset_filter)
    also have "map (keyed_elt src) (filter cond ?xs) = filter (\<lambda>e. cond (snd e)) (map (keyed_elt src) ?xs)"
      by (simp add: filter_map keyed_elt_def comp_def)
    finally show ?thesis by (simp only: map_keyed_elt(1) [OF src])
  qed
  have "select_buckets mem cond src (buckets (tbl src)) (None, dst) = Some Exit \<or>
    (\<exists>st'. select_buckets mem cond src (buckets (tbl src)) (None, dst) = Some (Run st') \<and>
      selecting src ([] @ filter cond (concat cs)) st')"
    using select_buckets_selecting [OF src mem chains_length [OF ch] chains_bucket [OF ch] _ _ start, of cond] part
    by simp
  then show ?thesis
  proof
    assume "select_buckets mem cond src (buckets (tbl src)) (None, dst) = Some Exit"
    then show ?thesis using head by (auto simp: HASH_SELECT_def all)
  next
    assume "\<exists>st'. select_buckets mem cond src (buckets (tbl src)) (None, dst) = Some (Run st') \<and>
      selecting src ([] @ filter cond (concat cs)) st'"
    then obtain st' where "select_buckets mem cond src (buckets (tbl src)) (None, dst) = Some (Run st')"
      "selected (snd st') (map (keyed_elt src) (filter cond (concat cs)))"
      by (auto simp: selecting_def)
    then show ?thesis using head perm by (auto simp: HASH_SELECT_def all)
  qed
qed

text \<open>A look-up does not read the tail.\<close>

lemma HASH_FIND_STR_with_tail: "HASH_FIND_STR (with_tail p h) k = HASH_FIND_STR h k"
  by (simp add: HASH_FIND_STR_def HASH_FIND_def HASH_FIND_BYHASHVALUE_def)

lemma HASH_FSCK_with_tail: "HASH_FSCK (with_tail p h) = HASH_FSCK h"
  unfolding HASH_FSCK_def with_tail_simps ..

text \<open>
  A selection into an empty table ends the process or gives a table that passes the integrity
  check and in which a look-up finds the elements that satisfy the condition.
\<close>

theorem uthash_select:
  assumes "small_heap mem" "table_run mem src es" "hash_head dst = None" "length k < 2 ^ 32"
  shows "HASH_SELECT mem cond src dst = Some Exit \<or>
    (\<exists>dst'. HASH_SELECT mem cond src dst = Some (Run dst') \<and> HASH_FSCK dst' = Some True \<and>
      HASH_FIND_STR dst' k = Some (map_of (filter (\<lambda>e. cond (snd e)) es) k))"
proof -
  have src: "hash_rep src es" by (rule table_run_rep [OF assms(2,1)])
  have "HASH_FSCK dst' = Some True \<and> HASH_FIND_STR dst' k = Some (map_of (filter (\<lambda>e. cond (snd e)) es) k)"
    if dst': "selected dst' es'" "mset es' = mset (filter (\<lambda>e. cond (snd e)) es)" for dst' es'
  proof -
    note rep = dst'(1) [unfolded selected_def]
    have "distinct (map fst es')" "distinct (map fst (filter (\<lambda>e. cond (snd e)) es))"
      using selected_cases(2) [OF dst'(1)] dst'(2) by (simp, metis mset_eq_imp_distinct_iff mset_map)
    then have "map_of es' = map_of (filter (\<lambda>e. cond (snd e)) es)"
      using dst'(2) by (metis map_of_inject_set mset_eq_setD)
    then show ?thesis
      using HASH_FSCK_rep [OF rep] ht.look_rep [OF rep assms(4)]
      by (simp add: HASH_FIND_STR_with_tail HASH_FSCK_with_tail)
  qed
  then show ?thesis using HASH_SELECT_selected [OF src assms(1,3), of cond] by blast
qed

section \<open>The tail of the second table\<close>

text \<open>
  \<open>HASH_MAKE_TABLE\<close> sets the tail to the first selected element, and no later step of the selection
  moves it. An insertion into the second table links the new element after its tail, so the
  elements after the first one drop out of the order: the integrity check fails.
\<close>

definition select_all :: uthash where
  "select_all = (case HASH_SELECT heap_32G (\<lambda>_. True) sample_table no_table of Some (Run h) \<Rightarrow> h | _ \<Rightarrow> no_table)"

lemma select_then_add_breaks:
  "tail (tbl select_all) = hash_head select_all \<and> HASH_COUNT select_all = 2 \<and>
   HASH_FSCK select_all = Some True \<and> HASH_FSCK (added ''net'' 48 select_all) = Some False"
  by code_simp

end
