(* ===== verification/Registry_Hash.thy ===== *)
theory Registry_Hash
  imports Registry Uthash
begin

text \<open>
  The registry is a hash table. \<^verbatim>\<open>Registry\<close> reads it as the list of its entries and a pointer
  to an entry as an index; here \<open>getMetricFromHashTable\<close> runs on the table of \<^verbatim>\<open>Uthash\<close>, with the
  entries in a store of their own, and the list is shown to be an abstraction of it.
\<close>

section \<open>The registry as a table\<close>

record hash_registry =
  htab :: uthash
  entry_at :: "addr \<Rightarrow> metric_registry"

text \<open>The \<open>malloc\<close> of a new entry returns the address \<open>a\<close>.\<close>

definition hash_getMetric ::
    "allocator \<Rightarrow> long \<Rightarrow> string \<Rightarrow> bool \<Rightarrow> addr \<Rightarrow> hash_registry \<Rightarrow>
     (ptr \<times> hash_registry) c_result process option" where
  "hash_getMetric mem junk key create a hr =
     (case HASH_FIND_STR (htab hr) key of
        None \<Rightarrow> None
      | Some None \<Rightarrow>
          if create then
            (case HASH_ADD_STR mem (mkey (new_entry mem junk key)) a (htab hr) of
               None \<Rightarrow> None
             | Some Exit \<Rightarrow> Some Exit
             | Some (Run t) \<Rightarrow>
                 Some (Run (Ret (if mhead (new_entry mem junk key) = None then None else Some a,
                   \<lparr>htab = t, entry_at = (entry_at hr)(a := new_entry mem junk key)\<rparr>))))
          else Some (Run (UB NullDeref))
      | Some (Some b) \<Rightarrow>
          Some (Run (Ret (if mhead (entry_at hr b) = None then None else Some b, hr))))"

text \<open>The entries at the addresses \<open>xs\<close>, in this order, are the list \<open>reg\<close>.\<close>

definition reg_rep :: "hash_registry \<Rightarrow> addr list \<Rightarrow> metric_registry list \<Rightarrow> bool" where
  "reg_rep hr xs reg \<longleftrightarrow>
     hash_rep (htab hr) (map (\<lambda>a. (mkey (entry_at hr a), a)) xs) \<and> reg = map (entry_at hr) xs"


lemma registry_find_map_of:
  "map_of (map (\<lambda>a. (mkey (f a), a)) xs) key = map_option ((!) xs) (registry_find key (map f xs))"
  by (induction xs) (auto simp: option.map_comp comp_def split: option.split)

lemma reg_rep_find:
  assumes "reg_rep hr xs reg" "length key < 64"
  shows "HASH_FIND_STR (htab hr) key = Some (map_option ((!) xs) (registry_find key reg))"
proof -
  have "length key < 2 ^ 32" using assms(2) by simp
  moreover have "hash_rep (htab hr) (map (\<lambda>a. (mkey (entry_at hr a), a)) xs)" "reg = map (entry_at hr) xs"
    using assms(1) by (simp_all add: reg_rep_def)
  ultimately show ?thesis using ht.look_rep by (simp add: registry_find_map_of)
qed

lemma reg_rep_distinct:
  assumes "reg_rep hr xs reg"
  shows "distinct xs" "distinct (map mkey reg)"
proof -
  have "distinct (map fst (map (\<lambda>a. (mkey (entry_at hr a), a)) xs))"
    "distinct (map snd (map (\<lambda>a. (mkey (entry_at hr a), a)) xs))" "reg = map (entry_at hr) xs"
    using assms hash_rep_distinct unfolding reg_rep_def by blast+
  then show "distinct xs" "distinct (map mkey reg)" by (simp_all add: comp_def)
qed

text \<open>A field of an entry that is not its key is written in place.\<close>

lemma reg_rep_update:
  assumes rep: "reg_rep hr xs reg" and i: "i < length reg" and key: "mkey en = mkey (reg ! i)"
  shows "reg_rep (hr\<lparr>entry_at := (entry_at hr)(xs ! i := en)\<rparr>) xs (reg[i := en])"
proof -
  have dist: "distinct xs" and reg: "reg = map (entry_at hr) xs"
    using rep reg_rep_distinct [OF rep] by (simp_all add: reg_rep_def)
  have lt: "i < length xs" using i reg by simp
  have keys: "map (\<lambda>a. (mkey (((entry_at hr)(xs ! i := en)) a), a)) xs = map (\<lambda>a. (mkey (entry_at hr a), a)) xs"
    using key reg lt by auto
  have "map ((entry_at hr)(xs ! i := en)) xs = reg[i := en]"
    using dist lt by (auto simp: reg nth_list_update nth_eq_iff_index_eq intro: nth_equalityI)
  moreover have "hash_rep (htab hr) (map (\<lambda>a. (mkey (((entry_at hr)(xs ! i := en)) a), a)) xs)"
    using rep unfolding keys by (simp add: reg_rep_def)
  ultimately show ?thesis by (simp add: reg_rep_def del: fun_upd_apply)
qed

lemma reg_rep_append:
  assumes rep: "reg_rep hr xs reg" and new: "a \<notin> set xs" "mkey en = key" "length key < 64"
    and find: "registry_find key reg = None" and len: "Suc (length reg) < 2 ^ 32" and mem: "small_heap mem"
  shows "HASH_ADD_STR mem key a (htab hr) = Some Exit \<or>
    (\<exists>t. HASH_ADD_STR mem key a (htab hr) = Some (Run t) \<and>
       reg_rep \<lparr>htab = t, entry_at = (entry_at hr)(a := en)\<rparr> (xs @ [a]) (reg @ [en]))"
proof -
  let ?es = "map (\<lambda>a. (mkey (entry_at hr a), a)) xs"
  have reg: "reg = map (entry_at hr) xs" and h: "hash_rep (htab hr) ?es" using rep by (auto simp: reg_rep_def)
  have k: "key \<notin> fst ` set ?es" using find by (auto simp: registry_find_None reg)
  have a: "a \<notin> snd ` set ?es" using new(1) by auto
  have len': "Suc (length ?es) < 2 ^ 32" "length key < 2 ^ 32" using len new(3) by (auto simp: reg)
  have "map (\<lambda>x. (mkey (((entry_at hr)(a := en)) x), x)) (xs @ [a]) = ?es @ [(key, a)]"
    and "map ((entry_at hr)(a := en)) (xs @ [a]) = reg @ [en]"
    using new by (auto simp: reg)
  with ht.add_rep [OF h len' k a mem] show ?thesis
    unfolding reg_rep_def hash_registry.select_convs by metis
qed

text \<open>C10: getMetricFromHashTable on the hash table does what it does on the list of the entries:
  it finds the same entry, it adds a new one behind the others, it dereferences NULL in the same
  case. The only thing the table adds is that the process ends when it gets no memory for its
  buckets. Keys of 64 characters and more are stored cut and are left out.\<close>

theorem registry_hash_refines:
  assumes "reg_rep hr xs reg" "a \<notin> set xs" "length key < 64" "Suc (length reg) < 2 ^ 32" "small_heap mem"
  shows "hash_getMetric mem junk key create a hr = Some Exit \<or>
    (case getMetricFromHashTable mem junk key create reg of
       UB u \<Rightarrow> hash_getMetric mem junk key create a hr = Some (Run (UB u))
     | Ret (q, reg') \<Rightarrow> \<exists>hr' xs'.
         hash_getMetric mem junk key create a hr = Some (Run (Ret (map_option ((!) xs') q, hr'))) \<and>
         reg_rep hr' xs' reg' \<and> (xs' = xs \<or> xs' = xs @ [a]))"
proof (cases "registry_find key reg")
  case (Some i)
  then have "i < length reg" using registry_find_Some by blast
  then have "entry_at hr (xs ! i) = reg ! i" using assms(1) by (auto simp: reg_rep_def)
  then show ?thesis
    using Some assms(1) reg_rep_find [OF assms(1,3)]
    by (auto simp: hash_getMetric_def getMetricFromHashTable_def entry_head_def)
next
  case None
  note find = reg_rep_find [OF assms(1,3), unfolded None option.map]
  let ?en = "new_entry mem junk key"
  have key: "mkey ?en = key" using assms(3) by (simp add: new_entry_def)
  have len: "length xs = length reg" using assms(1) by (simp add: reg_rep_def)
  show ?thesis
  proof (cases create)
    case True
    from reg_rep_append [OF assms(1,2) key assms(3) None assms(4,5)] show ?thesis
    proof
      assume "\<exists>t. HASH_ADD_STR mem key a (htab hr) = Some (Run t) \<and>
        reg_rep \<lparr>htab = t, entry_at = (entry_at hr)(a := ?en)\<rparr> (xs @ [a]) (reg @ [?en])"
      then obtain t where t: "HASH_ADD_STR mem key a (htab hr) = Some (Run t)"
        "reg_rep \<lparr>htab = t, entry_at = (entry_at hr)(a := ?en)\<rparr> (xs @ [a]) (reg @ [?en])" by blast
      have "hash_getMetric mem junk key create a hr = Some (Run (Ret (if mhead ?en = None then None else Some a,
          \<lparr>htab = t, entry_at = (entry_at hr)(a := ?en)\<rparr>)))"
        using True t(1) by (simp add: hash_getMetric_def find key)
      moreover have "getMetricFromHashTable mem junk key create reg =
          Ret (if mhead ?en = None then None else Some (length reg), reg @ [?en])"
        using True None by (simp add: getMetricFromHashTable_def entry_head_def Let_def nth_append)
      ultimately show ?thesis
        using t(2) len by (intro disjI2) (auto intro!: exI [of _ "xs @ [a]"] simp: nth_append)
    qed (use True find in \<open>simp add: hash_getMetric_def key\<close>)
  qed (use None find in \<open>simp add: hash_getMetric_def getMetricFromHashTable_def\<close>)
qed

definition sample_registry :: hash_registry where
  "sample_registry = \<lparr>htab = sample_table,
     entry_at = (\<lambda>a. new_entry (\<lambda>n. True) 0 (if a = 16 then ''cpu'' else ''mem''))\<rparr>"

lemma sample_registry_rep:
  "reg_rep sample_registry [16, 32] [new_entry (\<lambda>n. True) 0 ''cpu'', new_entry (\<lambda>n. True) 0 ''mem'']"
  using hash_run_rep [OF sample_run heap_32G_small]
  by (simp add: reg_rep_def sample_registry_def new_entry_def)

lemma registry_hash_refines_witness:
  "\<exists>hr'. hash_getMetric heap_32G 0 ''mem'' True 48 sample_registry = Some (Run (Ret (Some 32, hr')))"
proof -
  have "hash_getMetric heap_32G 0 ''mem'' True 48 sample_registry \<noteq> Some Exit"
    using reg_rep_find [OF sample_registry_rep, of "''mem''"]
    by (simp add: hash_getMetric_def new_entry_def)
  then show ?thesis
    using registry_hash_refines [OF sample_registry_rep, of 48 "''mem''" heap_32G 0 True]
    by (auto simp: heap_32G_small getMetricFromHashTable_def new_entry_def entry_head_def
        getNewHeadBlock_def split: if_splits)
qed

end
