(* ===== verification/Background.thy ===== *)
theory Background
  imports Downsample Retention
begin

text \<open>
  The background threads of \<^verbatim>\<open>src/retention.c\<close> and \<^verbatim>\<open>src/downsample.c\<close>: the loops that sleep in
  steps of a second, the functions that start and stop them, and the file variables they use.

  A thread sees the world as a function of the seconds since its start: when \<open>g_stop\<close> is set, how
  long a pass takes, and what the other threads made of the engine by the time a pass begins. A
  loop that never ends is \<open>None\<close>.
\<close>

section \<open>The loops\<close>

record world =
  stop_flag :: "nat \<Rightarrow> bool"
  pass_time :: "nat \<Rightarrow> nat"
  others :: "nat \<Rightarrow> engine \<Rightarrow> engine"
  epoch :: long

text \<open>The value of \<open>time(NULL)\<close> at second \<open>t\<close>.\<close>

definition clock :: "world \<Rightarrow> nat \<Rightarrow> long" where
  "clock w t = epoch w + of_nat t"

text \<open>\<open>for (i = 0; i < n && !g_stop; i++) sleep(1)\<close>, from second \<open>t\<close>.\<close>

primrec nap :: "world \<Rightarrow> nat \<Rightarrow> nat \<Rightarrow> nat" where
  "nap w 0 t = t"
| "nap w (Suc n) t = (if stop_flag w t then t else nap w n (t + 1))"

partial_function (option) retention_thread ::
    "world \<Rightarrow> RetentionConfig \<Rightarrow> nat \<Rightarrow> engine \<Rightarrow> (nat \<times> engine) option" where
  "retention_thread w cfg t e =
     (if stop_flag w t then Some (t, e)
      else let t = nap w 60 t in
        if stop_flag w t then retention_thread w cfg t e
        else retention_thread w cfg (t + pass_time w t) (run_expiry cfg (clock w t) (others w t e)))"

definition THREAD_SLEEP_SECONDS :: nat where
  "THREAD_SLEEP_SECONDS = 300"

partial_function (option) downsample_thread ::
    "world \<Rightarrow> allocator \<Rightarrow> string \<Rightarrow> nat \<Rightarrow> engine \<Rightarrow> (nat \<times> engine) c_result option" where
  "downsample_thread w mem dataDir t e =
     (if stop_flag w t then Some (Ret (t, e))
      else let t = nap w THREAD_SLEEP_SECONDS t in
        if stop_flag w t then Some (Ret (t, e))
        else case downsample_run_now mem (clock w t) dataDir (others w t e) of
               UB u \<Rightarrow> Some (UB u)
             | Ret e \<Rightarrow> downsample_thread w mem dataDir (t + pass_time w t) e)"

section \<open>Starting and stopping\<close>

text \<open>
  The static variables of a file; \<open>created\<close> says whether \<open>pthread_create\<close> succeeds, and a handle
  that was never set is \<open>False\<close>. Joining it reads through a null pointer in glibc.
\<close>

record retention_vars =
  g_cfg :: RetentionConfig
  r_dataDir :: string
  r_stop :: bool
  r_thread :: bool

definition no_rules :: RetentionConfig where
  "no_rules = \<lparr>rules = [], rule_count = 0\<rparr>"

definition retention_init :: retention_vars where
  "retention_init = \<lparr>g_cfg = no_rules, r_dataDir = [], r_stop = False, r_thread = False\<rparr>"

definition retention_start ::
    "RetentionConfig \<Rightarrow> string \<Rightarrow> bool \<Rightarrow> retention_vars \<Rightarrow> retention_vars" where
  "retention_start cfg dataDir created v =
     (if rule_count cfg = 0 then v
      else v\<lparr>g_cfg := cfg, r_dataDir := bounded 512 dataDir, r_stop := False,
             r_thread := created \<or> r_thread v\<rparr>)"

definition retention_stop :: "retention_vars \<Rightarrow> retention_vars c_result" where
  "retention_stop v =
     (if rule_count (g_cfg v) = 0 then Ret v
      else if r_thread v then Ret (v\<lparr>r_stop := True\<rparr>) else UB NullDeref)"

record downsample_vars =
  d_dataDir :: string
  d_stop :: bool
  d_thread :: bool

definition downsample_init :: downsample_vars where
  "downsample_init = \<lparr>d_dataDir = [], d_stop = False, d_thread = False\<rparr>"

definition downsample_start :: "string \<Rightarrow> bool \<Rightarrow> downsample_vars \<Rightarrow> downsample_vars" where
  "downsample_start dataDir created v =
     v\<lparr>d_dataDir := bounded 512 dataDir, d_stop := False, d_thread := created \<or> d_thread v\<rparr>"

definition downsample_stop :: "downsample_vars \<Rightarrow> downsample_vars c_result" where
  "downsample_stop v = (if d_thread v then Ret (v\<lparr>d_stop := True\<rparr>) else UB NullDeref)"

section \<open>The times of the passes\<close>

text \<open>
  \<open>passes w n T t ps\<close>: with the flag set from second \<open>T\<close> on, a thread that is at the top of its
  loop at second \<open>t\<close> begins its passes at the seconds \<open>ps\<close>: each \<open>n\<close> seconds after the end of the
  one before, as long as the flag is not set by then.
\<close>

primrec passes :: "world \<Rightarrow> nat \<Rightarrow> nat \<Rightarrow> nat \<Rightarrow> nat list \<Rightarrow> bool" where
  "passes w n T t [] \<longleftrightarrow> T \<le> t + n"
| "passes w n T t (p # ps) \<longleftrightarrow> p = t + n \<and> p < T \<and> passes w n T (p + pass_time w p) ps"

text \<open>The end of the last pass.\<close>

primrec passes_end :: "world \<Rightarrow> nat \<Rightarrow> nat list \<Rightarrow> nat" where
  "passes_end w t [] = t"
| "passes_end w t (p # ps) = passes_end w (p + pass_time w p) ps"

definition expiry_pass :: "world \<Rightarrow> RetentionConfig \<Rightarrow> nat \<Rightarrow> engine \<Rightarrow> engine" where
  "expiry_pass w cfg p e = run_expiry cfg (clock w p) (others w p e)"

primrec downsample_passes ::
    "world \<Rightarrow> allocator \<Rightarrow> string \<Rightarrow> nat list \<Rightarrow> engine \<Rightarrow> engine c_result" where
  "downsample_passes w mem dataDir [] e = Ret e"
| "downsample_passes w mem dataDir (p # ps) e =
     (case downsample_run_now mem (clock w p) dataDir (others w p e) of
        UB u \<Rightarrow> UB u
      | Ret e \<Rightarrow> downsample_passes w mem dataDir ps e)"

lemma nap_stop:
  "(\<And>s. stop_flag w s \<longleftrightarrow> T \<le> s) \<Longrightarrow> nap w n t = (if T \<le> t then t else min (t + n) T)"
  by (induction n arbitrary: t) (auto simp: min_def)

lemma passes_exist:
  assumes "0 < n"
  shows "\<exists>ps. passes w n T t ps"
proof (induction "T - t" arbitrary: t rule: less_induct)
  case less
  show ?case
  proof (cases "T \<le> t + n")
    case True
    then show ?thesis by (intro exI [of _ "[]"]) simp
  next
    case False
    have "T - (t + n + pass_time w (t + n)) < T - t" using False assms by linarith
    from less [OF this] obtain ps where "passes w n T (t + n + pass_time w (t + n)) ps" by blast
    with False show ?thesis by (intro exI [of _ "(t + n) # ps"]) simp
  qed
qed

lemma retention_thread_passes:
  assumes flag: "\<And>s. stop_flag w s \<longleftrightarrow> T \<le> s" and "passes w 60 T t ps"
  shows "retention_thread w cfg t e = Some (max T (passes_end w t ps), fold (expiry_pass w cfg) ps e)"
  using assms(2)
proof (induction ps arbitrary: t e)
  case Nil
  have stop: "retention_thread w cfg (max T t) e = Some (max T t, e)"
    by (simp add: retention_thread.simps flag)
  then show ?case
    using Nil by (cases "T \<le> t")
      (simp_all add: retention_thread.simps [of w cfg t] flag nap_stop [OF flag] max_def min_def)
next
  case (Cons p ps)
  then have "p = t + 60" "t + 60 < T" by simp_all
  then show ?case
    using Cons by (simp add: retention_thread.simps [of w cfg t] flag nap_stop [OF flag] Let_def expiry_pass_def)
qed

lemma downsample_thread_passes:
  assumes flag: "\<And>s. stop_flag w s \<longleftrightarrow> T \<le> s" and "passes w THREAD_SLEEP_SECONDS T t ps"
  shows "downsample_thread w mem dataDir t e =
    Some (case downsample_passes w mem dataDir ps e of
            UB u \<Rightarrow> UB u | Ret e \<Rightarrow> Ret (max T (passes_end w t ps), e))"
  using assms(2)
proof (induction ps arbitrary: t e)
  case Nil
  then show ?case
    by (simp add: downsample_thread.simps [of w mem dataDir t] flag nap_stop [OF flag] Let_def max_def min_def)
next
  case (Cons p ps)
  then have p: "p = t + THREAD_SLEEP_SECONDS" "t + THREAD_SLEEP_SECONDS < T" by simp_all
  then show ?case
    using Cons by (cases "downsample_run_now mem (clock w p) dataDir (others w p e)")
      (simp_all add: downsample_thread.simps [of w mem dataDir t] flag nap_stop [OF flag] Let_def
        split: c_result.split)
qed

section \<open>Properties\<close>

text \<open>C22: both background threads end. With g_stop set from second T on, the expiry thread
  and, unless a pass crashes, the downsampling thread make their passes one period (60 and 300
  seconds) after the start and after the end of the pass before, none begins once the flag is set,
  and the thread ends at second T or with the pass that runs then.\<close>

theorem background_threads_end:
  assumes flag: "\<And>s. stop_flag w s \<longleftrightarrow> T \<le> s"
  shows "(\<exists>ps. passes w 60 T 0 ps \<and>
      retention_thread w cfg 0 e = Some (max T (passes_end w 0 ps), fold (expiry_pass w cfg) ps e)) \<and>
    (\<exists>ps. passes w THREAD_SLEEP_SECONDS T 0 ps \<and>
      downsample_thread w mem dataDir 0 e =
        Some (case downsample_passes w mem dataDir ps e of
                UB u \<Rightarrow> UB u | Ret e \<Rightarrow> Ret (max T (passes_end w 0 ps), e)))"
proof -
  obtain ps qs where "passes w 60 T 0 ps" "passes w THREAD_SLEEP_SECONDS T 0 qs"
    using passes_exist [of 60 w T 0] passes_exist [of THREAD_SLEEP_SECONDS w T 0]
    by (auto simp: THREAD_SLEEP_SECONDS_def)
  then show ?thesis
    using retention_thread_passes [OF flag] downsample_thread_passes [OF flag] by blast
qed

definition quiet_world :: "nat \<Rightarrow> world" where
  "quiet_world T = \<lparr>stop_flag = (\<lambda>s. T \<le> s), pass_time = (\<lambda>_. 5), others = (\<lambda>_ e. e), epoch = 0\<rparr>"

lemma background_threads_end_witness:
  "\<exists>e'. retention_thread (quiet_world 130) no_rules 0 \<lparr>registry = [], store = sample_disk\<rparr> = Some (130, e')"
proof -
  have "\<And>s. stop_flag (quiet_world 130) s \<longleftrightarrow> 130 \<le> s" by (simp add: quiet_world_def)
  from background_threads_end [OF this] obtain ps where ps: "passes (quiet_world 130) 60 130 0 ps"
    "retention_thread (quiet_world 130) no_rules 0 \<lparr>registry = [], store = sample_disk\<rparr> =
      Some (max 130 (passes_end (quiet_world 130) 0 ps), fold (expiry_pass (quiet_world 130) no_rules) ps \<lparr>registry = [], store = sample_disk\<rparr>)"
    by blast
  have "passes_end (quiet_world 130) 0 ps \<le> 130"
    using ps(1) by (cases ps; cases "tl ps"; cases "tl (tl ps)") (auto simp: quiet_world_def)
  with ps(2) show ?thesis by (auto simp: max_def)
qed

text \<open>
  Stopping a thread crashes exactly when its creation failed: the start functions report the failure
  and go on, and the stop functions join the handle that was never set. For the expiry thread this
  needs a rule, without one nothing is started and nothing joined.
\<close>

lemma stop_crash:
  "(case retention_stop (retention_start cfg dataDir created retention_init) of
      UB u \<Rightarrow> u = NullDeref \<and> rule_count cfg \<noteq> 0 \<and> \<not> created
    | Ret v \<Rightarrow> rule_count cfg = 0 \<or> created) \<and>
   (case downsample_stop (downsample_start dataDir created' downsample_init) of
      UB u \<Rightarrow> u = NullDeref \<and> \<not> created' | Ret v \<Rightarrow> created')"
  by (simp add: retention_stop_def retention_start_def retention_init_def no_rules_def
      downsample_stop_def downsample_start_def downsample_init_def)

end
