(* ===== verification/Lifecycle.thy ===== *)
theory Lifecycle
  imports Clients Background
begin

text \<open>
  The life of the server process, \<^verbatim>\<open>src/server.c\<close>: accepting connections, one thread per
  connection, the signal handler, and \<open>createAndRunServer\<close> from \<open>loadRegistry\<close> to
  \<open>cleanupRegistry\<close>; and what a clean shutdown leaves for the next start.
\<close>

section \<open>Connections\<close>

record thread_args =
  client_socket :: int
  args_path :: string

text \<open>The threads that were started, with their arguments, and the sockets closed for want of one.\<close>

record connections =
  started :: "thread_args list"
  refused :: "int list"

text \<open>\<open>clientSocket\<close> is an \<open>int16_t\<close> in \<open>ThreadArgs\<close>, whose size is 258 bytes.\<close>

definition createPthreadForUsers ::
    "allocator \<Rightarrow> bool \<Rightarrow> int \<Rightarrow> string \<Rightarrow> connections \<Rightarrow> bool \<times> connections" where
  "createPthreadForUsers mem created clientSocket dataFilePath st =
     (if \<not> mem 258 then (False, st\<lparr>refused := refused st @ [clientSocket]\<rparr>)
      else if \<not> created then (False, st\<lparr>refused := refused st @ [clientSocket]\<rparr>)
      else (True, st\<lparr>started := started st @
        [\<lparr>client_socket = sint (of_int clientSocket :: 16 word), args_path = bounded 256 dataFilePath\<rparr>]\<rparr>))"

record server_vars =
  server_running :: bool
  socket_open :: bool

definition handle_shutdown :: "server_vars \<Rightarrow> server_vars" where
  "handle_shutdown sv = sv\<lparr>server_running := False, socket_open := False\<rparr>"

text \<open>
  One turn of the accept loop: whether a signal arrives before the test of the loop and while
  \<open>accept\<close> waits, what \<open>accept\<close> returns (a socket, or an error that is or is not \<open>EINTR\<close> or
  \<open>EBADF\<close>), and whether the thread can be created.
\<close>

datatype accept_result = Accepted int | AcceptFailed bool

record turn =
  signal_before :: bool
  signal_during :: bool
  accepted_as :: accept_result
  thread_created :: bool

definition deliver :: "bool \<Rightarrow> server_vars \<Rightarrow> server_vars" where
  "deliver signal sv = (if signal then handle_shutdown sv else sv)"

text \<open>The first component says whether the loop was left; it waits in \<open>accept\<close> otherwise. With no
  turn to come, a signal can only have arrived in the one before.\<close>

primrec accept_loop ::
    "allocator \<Rightarrow> string \<Rightarrow> turn list \<Rightarrow> server_vars \<Rightarrow> connections \<Rightarrow> bool \<times> server_vars \<times> connections" where
  "accept_loop mem dataFilePath [] sv st = (\<not> server_running sv, sv, st)"
| "accept_loop mem dataFilePath (t # ts) sv st =
     (let sv = deliver (signal_before t) sv in
      if \<not> server_running sv then (True, sv, st)
      else
        let sv = deliver (signal_during t) sv in
        case accepted_as t of
          AcceptFailed interrupted \<Rightarrow>
            if \<not> server_running sv \<or> interrupted then (True, sv, st)
            else accept_loop mem dataFilePath ts sv st
        | Accepted fd \<Rightarrow>
            accept_loop mem dataFilePath ts sv
              (snd (createPthreadForUsers mem (thread_created t) fd dataFilePath st)))"

section \<open>The whole run\<close>

text \<open>
  \<open>serve\<close> is what the client threads and the background passes make of the engine until the loop
  is left; \<open>reachable\<close> of \<^verbatim>\<open>Clients\<close> says what it can be. A listing of the data directory, the
  results of the socket calls and of \<open>pthread_create\<close> and the turns of the loop are arguments.
\<close>

definition server_start :: server_vars where
  "server_start = \<lparr>server_running = True, socket_open = True\<rparr>"

definition no_connections :: connections where
  "no_connections = \<lparr>started = [], refused = []\<rparr>"

record calls =
  bind_ok :: bool
  listen_ok :: bool
  expiry_created :: bool
  downsample_created :: bool

datatype run_result = Exited int | Accepting connections | Stopped engine | Crashed ub

text \<open>From the end of the accept loop to the return.\<close>

definition shut_down ::
    "env \<Rightarrow> retention_vars \<Rightarrow> downsample_vars \<Rightarrow> engine \<Rightarrow> run_result" where
  "shut_down env rv dv e =
     (case retention_stop rv of
        UB u \<Rightarrow> Crashed u
      | Ret rv \<Rightarrow>
          (case downsample_stop dv of
             UB u \<Rightarrow> Crashed u
           | Ret dv \<Rightarrow>
               (case cleanupRegistry (env_mem env) (env_junk env) (env_dataDir env) e of
                  UB u \<Rightarrow> Crashed u
                | Ret e \<Rightarrow> Stopped e)))"

definition createAndRunServer ::
    "env \<Rightarrow> RetentionConfig \<Rightarrow> calls \<Rightarrow> turn list \<Rightarrow> (thread_args list \<Rightarrow> engine \<Rightarrow> engine c_result) \<Rightarrow>
     disk \<Rightarrow> run_result" where
  "createAndRunServer env cfg calls turns serve d =
     (if \<not> bind_ok calls then Exited 1
      else if \<not> listen_ok calls then Exited 1
      else
        case loadRegistry (env_mem env) (env_junk env) (env_ls env) (env_dataDir env)
               \<lparr>registry = [], store = d\<rparr> of
          UB u \<Rightarrow> Crashed u
        | Ret e \<Rightarrow>
            let rv = retention_start cfg (env_dataDir env) (expiry_created calls) retention_init;
                dv = downsample_start (env_dataDir env) (downsample_created calls) downsample_init;
                (left, sv, st) = accept_loop (env_mem env) (env_dataDir env) turns server_start no_connections
            in if \<not> left then Accepting st
               else
                 (case serve (started st) e of
                    UB u \<Rightarrow> Crashed u
                  | Ret e \<Rightarrow> shut_down env rv dv e))"

text \<open>
  \<open>main\<close>: the options, then the server. \<open>bind\<close> says whether a port is free; \<open>htons\<close> takes 16 bits
  of the number.
\<close>

definition main ::
    "env \<Rightarrow> calls \<Rightarrow> (16 word \<Rightarrow> bool) \<Rightarrow> turn list \<Rightarrow> (thread_args list \<Rightarrow> engine \<Rightarrow> engine c_result) \<Rightarrow>
     string list \<Rightarrow> disk \<Rightarrow> run_result" where
  "main env calls bind turns serve argv d =
     (case main_arguments argv of
        UB u \<Rightarrow> Crashed u
      | Ret (portNumber, dataFilePath, cfg) \<Rightarrow>
          createAndRunServer
            (env\<lparr>env_global := registry_init dataFilePath, env_dataDir := dataFilePath\<rparr>) cfg
            (calls\<lparr>bind_ok := bind (of_int portNumber)\<rparr>) turns serve d)"

section \<open>The accept loop\<close>

text \<open>The connections that a list of turns takes in.\<close>

primrec connect_all :: "allocator \<Rightarrow> string \<Rightarrow> turn list \<Rightarrow> connections \<Rightarrow> connections" where
  "connect_all mem dataFilePath [] st = st"
| "connect_all mem dataFilePath (t # ts) st =
     connect_all mem dataFilePath ts
       (case accepted_as t of
          AcceptFailed _ \<Rightarrow> st
        | Accepted fd \<Rightarrow> snd (createPthreadForUsers mem (thread_created t) fd dataFilePath st))"

definition quiet :: "turn \<Rightarrow> bool" where
  "quiet t \<longleftrightarrow> \<not> signal_before t \<and> \<not> signal_during t \<and> accepted_as t \<noteq> AcceptFailed True"

lemma accept_loop_quiet:
  "\<forall>t \<in> set ts. quiet t \<Longrightarrow> server_running sv \<Longrightarrow>
     accept_loop mem path (ts @ us) sv st = accept_loop mem path us sv (connect_all mem path ts st)"
proof (induction ts arbitrary: st)
  case (Cons t ts)
  then show ?case
    by (cases "accepted_as t") (auto simp: quiet_def deliver_def)
qed simp

lemma accept_loop_stopped:
  "\<not> server_running sv \<Longrightarrow>
     \<exists>sv'. accept_loop mem path ts sv st = (True, sv', st) \<and> \<not> server_running sv' \<and>
       (socket_open sv' \<longrightarrow> socket_open sv)"
  by (cases ts) (auto simp: Let_def deliver_def handle_shutdown_def)

text \<open>What one connection becomes.\<close>

lemma connect_all_started:
  assumes "mem 258" "\<forall>t \<in> set ts. accepted_as t = Accepted (fd t) \<and> thread_created t"
  shows "connect_all mem path ts st = st\<lparr>started := started st @
    map (\<lambda>t. \<lparr>client_socket = sint (of_int (fd t) :: 16 word), args_path = bounded 256 path\<rparr>) ts\<rparr>"
  using assms(2)
  by (induction ts arbitrary: st) (simp_all add: createPthreadForUsers_def assms(1))

lemma socket_16_bits:
  assumes "0 \<le> fd" "fd < 2 ^ 16"
  shows "sint (of_int fd :: 16 word) = (if fd < 2 ^ 15 then fd else fd - 2 ^ 16)"
proof -
  have eq: "sint (of_int fd :: 16 word) = (fd + 32768) mod 65536 - 32768"
    by (simp add: sint_uint uint_word_of_int signed_take_bit_eq_take_bit_shift take_bit_eq_mod mod_add_left_eq)
  show ?thesis
  proof (cases "fd < 2 ^ 15")
    case True
    then have "(fd + 32768) mod 65536 = fd + 32768" using assms(1) by (intro mod_pos_pos_trivial) simp_all
    with True eq show ?thesis by simp
  next
    case False
    then have "(fd + 32768) mod 65536 = fd + 32768 - 65536"
      using assms(2) by (subst mod_pos_geq) (simp_all add: mod_pos_pos_trivial)
    with False eq show ?thesis by simp
  qed
qed

section \<open>The flushes of a shutdown\<close>

text \<open>A flush looks at one entry and the disk.\<close>

definition flush_entry ::
    "allocator \<Rightarrow> long \<Rightarrow> string \<Rightarrow> metric_registry \<Rightarrow> disk \<Rightarrow> (bool \<times> metric_registry \<times> disk) c_result" where
  "flush_entry mem junk dataDir en d =
     (case headflush mem junk (mkey en) dataDir \<lparr>registry = [en], store = d\<rparr> of
        UB u \<Rightarrow> UB u
      | Ret (ok, e) \<Rightarrow> Ret (ok, hd (registry e), store e))"

lemma headflush_local:
  assumes find: "registry_find m reg = Some i"
  shows "headflush mem junk m dataDir \<lparr>registry = reg, store = d\<rparr> =
    (case flush_entry mem junk dataDir (reg ! i) d of
       UB u \<Rightarrow> UB u
     | Ret (ok, en, d) \<Rightarrow> Ret (ok, \<lparr>registry = reg[i := en], store = d\<rparr>))"
proof -
  let ?en = "reg ! i" and ?e = "\<lparr>registry = reg, store = d\<rparr>" and ?one = "\<lparr>registry = [reg ! i], store = d\<rparr>"
  have key: "mkey ?en = m" using registry_find_Some [OF find] by simp
  have find': "registry_find m (registry ?e) = Some i" using find by simp
  have one: "registry_find m (registry ?one) = Some 0" using key by simp
  have same: "\<lparr>registry = reg[i := ?en], store = d\<rparr> = ?e" by simp
  show ?thesis
  proof (cases "mhead ?en")
    case None
    then show ?thesis
      using headflush_headless [OF find'] headflush_headless [OF one] same
      by (simp add: flush_entry_def key)
  next
    case (Some h)
    show ?thesis
    proof (cases "hsize h = 0")
      case True
      with Some show ?thesis
        using headflush_empty [OF find'] headflush_empty [OF one] same
        by (simp add: flush_entry_def key)
    next
      case False
      then have pos: "0 < hsize h" by simp
      have "mhead (registry ?e ! i) = Some h" "mhead (registry ?one ! 0) = Some h" using Some by simp_all
      note run = headflush_nonempty [OF find' this(1) pos, of mem junk dataDir]
        headflush_nonempty [OF one this(2) pos, of mem junk dataDir]
      show ?thesis
        using same by (cases "record_chunk ?en (flush_metadata dataDir m h)")
          (auto simp: run flush_entry_def key)
    qed
  qed
qed

primrec flush_entries ::
    "allocator \<Rightarrow> long \<Rightarrow> string \<Rightarrow> metric_registry list \<Rightarrow> disk \<Rightarrow> (metric_registry list \<times> disk) c_result" where
  "flush_entries mem junk dataDir [] d = Ret ([], d)"
| "flush_entries mem junk dataDir (en # reg) d =
     (case flush_entry mem junk dataDir en d of
        UB u \<Rightarrow> UB u
      | Ret (ok, en, d) \<Rightarrow>
          (case flush_entries mem junk dataDir reg d of
             UB u \<Rightarrow> UB u
           | Ret (reg, d) \<Rightarrow> Ret (en # reg, d)))"

lemma flush_entry_skip:
  assumes "case mhead en of None \<Rightarrow> True | Some h \<Rightarrow> hsize h = 0"
  shows "\<exists>ok. flush_entry mem junk dataDir en d = Ret (ok, en, d)"
proof (cases "mhead en")
  case None
  then show ?thesis
    using headflush_headless [of "mkey en" "\<lparr>registry = [en], store = d\<rparr>" 0]
    by (intro exI [of _ False]) (simp add: flush_entry_def)
next
  case (Some h)
  with assms show ?thesis
    using headflush_empty [of "mkey en" "\<lparr>registry = [en], store = d\<rparr>" 0 h]
    by (intro exI [of _ True]) (simp add: flush_entry_def)
qed

text \<open>The shutdown flushes every entry, in the order of the registry, and deletes them all.\<close>

lemma cleanup_entry_flush:
  "cleanup_entry mem junk dataDir en \<lparr>registry = en # reg, store = d\<rparr> =
     (case flush_entry mem junk dataDir en d of
        UB u \<Rightarrow> UB u
      | Ret (ok, en, d) \<Rightarrow> Ret \<lparr>registry = reg, store = d\<rparr>)"
proof (cases "case mhead en of None \<Rightarrow> False | Some h \<Rightarrow> hsize h > 0")
  case True
  have "registry_find (mkey en) (en # reg) = Some 0" by simp
  from headflush_local [OF this, of mem junk dataDir d] show ?thesis
    using True by (auto simp: cleanup_entry_def Let_def split: c_result.splits)
next
  case False
  then have "case mhead en of None \<Rightarrow> True | Some h \<Rightarrow> hsize h = 0" by (cases "mhead en") auto
  from flush_entry_skip [OF this, of mem junk dataDir d] False show ?thesis
    by (auto simp: cleanup_entry_def Let_def)
qed

lemma cleanupRegistry_flushes:
  "cleanupRegistry mem junk dataDir \<lparr>registry = reg, store = d\<rparr> =
     (case flush_entries mem junk dataDir reg d of
        UB u \<Rightarrow> UB u
      | Ret (_, d) \<Rightarrow> Ret \<lparr>registry = [], store = d\<rparr>)"
proof -
  have "cleanup_loop (length reg) mem junk dataDir \<lparr>registry = reg, store = d\<rparr> =
     (case flush_entries mem junk dataDir reg d of
        UB u \<Rightarrow> UB u | Ret (_, d) \<Rightarrow> Ret \<lparr>registry = [], store = d\<rparr>)"
  proof (induction reg arbitrary: d)
    case Nil
    then show ?case by simp
  next
    case (Cons en reg)
    then show ?case
      by (simp add: cleanup_entry_flush split: c_result.split prod.split) 
  qed
  then show ?thesis by (simp add: cleanupRegistry_def)
qed

section \<open>Flushing one metric after the other\<close>

text \<open>
  \<open>flushes mem junk dataDir ms e e'\<close>: every flush of the metrics \<open>ms\<close>, in this order, succeeds, finds
  the path of its chunk free and leads from \<open>e\<close> to \<open>e'\<close>.
\<close>

primrec flushes ::
    "allocator \<Rightarrow> long \<Rightarrow> string \<Rightarrow> string list \<Rightarrow> engine \<Rightarrow> engine \<Rightarrow> bool" where
  "flushes mem junk dataDir [] e e' \<longleftrightarrow> e' = e"
| "flushes mem junk dataDir (m # ms) e e' \<longleftrightarrow>
     flush_ready dataDir m e \<and> \<not> denied (store e) (build_wal_path 512 dataDir m) \<and>
     (case headflush mem junk m dataDir e of
        UB u \<Rightarrow> False
      | Ret (ok, e1) \<Rightarrow> ok \<and> flushes mem junk dataDir ms e1 e')"

lemma flush_entry_key:
  assumes "flush_entry mem junk dataDir en d = Ret (ok, en', d')"
  shows "mkey en' = mkey en"
proof (cases "mhead en")
  case None
  then show ?thesis
    using assms headflush_headless [of "mkey en" "\<lparr>registry = [en], store = d\<rparr>" 0] by (simp add: flush_entry_def)
next
  case (Some h)
  show ?thesis
  proof (cases "hsize h = 0")
    case True
    with Some show ?thesis
      using assms headflush_empty [of "mkey en" "\<lparr>registry = [en], store = d\<rparr>" 0 h] by (simp add: flush_entry_def)
  next
    case False
    then show ?thesis
      using assms Some headflush_nonempty [of "mkey en" "\<lparr>registry = [en], store = d\<rparr>" 0 h mem junk dataDir]
      by (auto simp: flush_entry_def record_chunk_def Let_def split: if_splits)
  qed
qed

lemma flushes_entries:
  "distinct (map mkey (pre @ post)) \<Longrightarrow>
     flushes mem junk dataDir (map mkey post) \<lparr>registry = pre @ post, store = d\<rparr> e' \<Longrightarrow>
     \<exists>post' d'. flush_entries mem junk dataDir post d = Ret (post', d') \<and>
       e' = \<lparr>registry = pre @ post', store = d'\<rparr>"
proof (induction post arbitrary: pre d)
  case Nil
  then show ?case by simp
next
  case (Cons en post)
  have "mkey en \<notin> mkey ` set pre" using Cons.prems(1) by auto
  then have find: "registry_find (mkey en) (pre @ en # post) = Some (length pre)"
    by (induction pre) auto
  note run = headflush_local [OF find, of mem junk dataDir d]
  from Cons.prems(2) obtain ok en1 d1 where one: "flush_entry mem junk dataDir en d = Ret (ok, en1, d1)"
    by (auto simp: run nth_append split: c_result.splits)
  have "flushes mem junk dataDir (map mkey post) \<lparr>registry = (pre @ [en1]) @ post, store = d1\<rparr> e'"
    using Cons.prems(2) by (simp add: run one nth_append)
  moreover have "distinct (map mkey ((pre @ [en1]) @ post))"
    using Cons.prems(1) flush_entry_key [OF one] by simp
  ultimately obtain post' d' where "flush_entries mem junk dataDir post d1 = Ret (post', d')"
    "e' = \<lparr>registry = (pre @ [en1]) @ post', store = d'\<rparr>"
    using Cons.IH [of "pre @ [en1]" d1] by blast
  then show ?case by (simp add: one)
qed

lemma cleanupRegistry_store:
  assumes "engine_inv e" "flushes mem junk dataDir (map mkey (registry e)) e e'"
  shows "cleanupRegistry mem junk dataDir e = Ret \<lparr>registry = [], store = store e'\<rparr>"
proof -
  have "distinct (map mkey ([] @ registry e))" using assms(1) by (simp add: engine_inv_def)
  moreover have "flushes mem junk dataDir (map mkey (registry e)) \<lparr>registry = [] @ registry e, store = store e\<rparr> e'"
    using assms(2) by (cases e) simp
  ultimately obtain reg d where "flush_entries mem junk dataDir (registry e) (store e) = Ret (reg, d)"
    "e' = \<lparr>registry = [] @ reg, store = d\<rparr>"
    using flushes_entries by blast
  then show ?thesis
    using cleanupRegistry_flushes [of mem junk dataDir "registry e" "store e"] by (cases e) simp
qed

section \<open>What a flush leaves alone\<close>

text \<open>The paths under the directory of a metric are not cut off.\<close>

definition paths_fit :: "string \<Rightarrow> string \<Rightarrow> bool" where
  "paths_fit dataDir m \<longleftrightarrow> length dataDir + 2 * length m + 42 < 256"

lemma wal_path_fit:
  "paths_fit dataDir m \<Longrightarrow> build_wal_path 512 dataDir m = dataDir @ ''/'' @ m @ ''/wal.log''"
  unfolding build_wal_path_def by (rule bounded_id) (simp add: paths_fit_def)

lemma chunk_path_fit:
  assumes "paths_fit dataDir m"
  shows "chunk_path dataDir m c = dataDir @ ''/'' @ m @ ''/'' @ m @ ''_'' @ show_int (uint c) @ ''.chunk''"
proof -
  have "uint c \<le> long_max" using uint_bounded [of c] by (simp add: long_max_def)
  then have "length (show_int (uint c)) < 32" by (intro show_int_length_small) simp_all
  then have "bounded 256 (dataDir @ ''/'' @ m) = dataDir @ ''/'' @ m"
    "bounded 256 ((dataDir @ ''/'' @ m) @ ''/'' @ m @ ''_'' @ show_int (uint c) @ ''.chunk'') =
      (dataDir @ ''/'' @ m) @ ''/'' @ m @ ''_'' @ show_int (uint c) @ ''.chunk''"
    using assms by (intro bounded_id; simp add: paths_fit_def)+
  then show ?thesis by (simp add: chunk_path_def Let_def)
qed

lemma wal_path_apart:
  assumes "paths_fit dataDir m" "paths_fit dataDir k" "k \<noteq> m"
  shows "build_wal_path 512 dataDir k \<noteq> build_wal_path 512 dataDir m"
    and "build_wal_path 512 dataDir k \<noteq> chunk_path dataDir m c"
proof -
  show "build_wal_path 512 dataDir k \<noteq> build_wal_path 512 dataDir m"
    using assms by (simp add: wal_path_fit)
  have "last (build_wal_path 512 dataDir k) \<noteq> last (chunk_path dataDir m c)"
    using assms by (simp add: wal_path_fit chunk_path_fit)
  then show "build_wal_path 512 dataDir k \<noteq> chunk_path dataDir m c" by metis
qed

lemma flush_step:
  assumes inv: "engine_inv e" and ready: "flush_ready dataDir m e" and mem: "\<And>k. mem k"
    and ret: "headflush mem junk m dataDir e = Ret (ok, e')"
  shows "map mkey (registry e') = map mkey (registry e)"
    and "k \<noteq> m \<Longrightarrow> ram_of e' k = ram_of e k"
    and "paths_fit dataDir m \<Longrightarrow> paths_fit dataDir k \<Longrightarrow> k \<noteq> m \<Longrightarrow>
      wal_contents dataDir k (store e') = wal_contents dataDir k (store e)"
proof -
  obtain i where find: "registry_find m (registry e) = Some i"
    using ret by (cases "registry_find m (registry e)") (auto simp: headflush_unknown)
  note i = registry_find_Some [OF find]
  have eta: "\<lparr>registry = registry e, store = store e\<rparr> = e" by simp
  from headflush_local [OF find, of mem junk dataDir "store e"] ret obtain en d where
    one: "flush_entry mem junk dataDir (registry e ! i) (store e) = Ret (ok, en, d)"
    and e': "e' = \<lparr>registry = (registry e)[i := en], store = d\<rparr>"
    unfolding eta by (auto split: c_result.splits)
  have key: "mkey en = m" using flush_entry_key [OF one] i by simp
  show "map mkey (registry e') = map mkey (registry e)"
    using i key by (simp add: e' map_update list_update_same_conv)
  show "ram_of e' k = ram_of e k" if "k \<noteq> m"
  proof (cases "registry_find k (registry e)")
    case None
    then show ?thesis using key i by (simp add: ram_of_def e')
  next
    case (Some j)
    then have "j \<noteq> i" using registry_find_Some [OF Some] i that by auto
    with Some show ?thesis using key i by (simp add: ram_of_def e')
  qed
  show "wal_contents dataDir k (store e') = wal_contents dataDir k (store e)"
    if fit: "paths_fit dataDir m" "paths_fit dataDir k" "k \<noteq> m"
  proof (cases "\<exists>h. mhead (registry e ! i) = Some h \<and> 0 < hsize h")
    case False
    then have "store e' = store e"
      using ret headflush_headless [OF find] headflush_empty [OF find] by (cases "mhead (registry e ! i)") auto
    then show ?thesis by simp
  next
    case True
    then obtain h where h: "mhead (registry e ! i) = Some h" "0 < hsize h" by blast
    have "head_inv h" using inv i h(1) entry_inv_nth by (auto simp: entry_inv_def)
    note frame = flush_result_frame(1) [OF this wal_path_apart(2) [OF fit]]
    have "files (store e') (build_wal_path 512 dataDir k) = files (store e) (build_wal_path 512 dataDir k)"
      using ret wal_path_apart(1) [OF fit] frame
      by (auto simp: headflush_nonempty [OF find h] wal_truncate_def split: if_splits c_result.splits)
    then show ?thesis by (simp add: wal_contents_def)
  qed
qed

lemma flushes_saved:
  assumes mem: "\<And>k. mem k"
  shows "engine_inv e \<Longrightarrow> flushes mem junk dataDir ms e e' \<Longrightarrow> \<forall>m \<in> set ms \<union> D. paths_fit dataDir m \<Longrightarrow>
    \<forall>m \<in> set ms. wal_mirrors dataDir m e \<Longrightarrow>
    \<forall>m \<in> D. ram_of e m = [] \<and> wal_mirrors dataDir m e \<Longrightarrow>
    engine_inv e' \<and> map mkey (registry e') = map mkey (registry e) \<and>
    metric_points mem e' = metric_points mem e \<and>
    (\<forall>m \<in> set ms \<union> D. ram_of e' m = [] \<and> wal_mirrors dataDir m e')"
proof (induction ms arbitrary: e D)
  case Nil
  then show ?case by simp
next
  case (Cons m ms)
  obtain e1 where flush: "headflush mem junk m dataDir e = Ret (True, e1)"
    and rest: "flushes mem junk dataDir ms e1 e'" and ready: "flush_ready dataDir m e"
    and wal: "\<not> denied (store e) (build_wal_path 512 dataDir m)"
    using Cons.prems(2) by (auto split: c_result.splits)
  note step = flush_step [where mem = mem, OF Cons.prems(1) ready mem flush]
  have out: "same_points mem e e1"
    using headflush_outcome [where mem = mem, OF Cons.prems(1) ready mem flush] by simp
  have m: "wal_mirrors dataDir m e1 \<and> ram_of e1 m = []"
    using headflush_mirrored [where mem = mem, OF Cons.prems(1) ready mem _ wal flush] Cons.prems(4) by simp
  have other: "ram_of e1 k = ram_of e k \<and> (wal_mirrors dataDir k e \<longrightarrow> wal_mirrors dataDir k e1)"
    if "k \<noteq> m" "k \<in> set ms \<union> D" for k
    using step(2,3) [of k] that Cons.prems(3) by (simp add: wal_mirrors_def)
  have "engine_inv e1" using out by (simp add: same_points_def)
  moreover have "\<forall>k \<in> set ms \<union> insert m D. paths_fit dataDir k" using Cons.prems(3) by auto
  moreover have "\<forall>k \<in> set ms. wal_mirrors dataDir k e1"
  proof
    fix k assume "k \<in> set ms"
    then show "wal_mirrors dataDir k e1" using other [of k] m Cons.prems(4) by (cases "k = m") auto
  qed
  moreover have "\<forall>k \<in> insert m D. ram_of e1 k = [] \<and> wal_mirrors dataDir k e1"
  proof
    fix k assume "k \<in> insert m D"
    then show "ram_of e1 k = [] \<and> wal_mirrors dataDir k e1"
      using other [of k] m Cons.prems(5) by (cases "k = m") auto
  qed
  ultimately have "engine_inv e' \<and> map mkey (registry e') = map mkey (registry e1) \<and>
      metric_points mem e' = metric_points mem e1 \<and>
      (\<forall>k \<in> set ms \<union> insert m D. ram_of e' k = [] \<and> wal_mirrors dataDir k e')"
    using Cons.IH [OF _ rest] by blast
  then show ?case using step(1) out by (auto simp: same_points_def fun_eq_iff)
qed

section \<open>Properties\<close>


text \<open>The engine of one metric with two points, its log, and the directory after the shutdown.\<close>

definition final_ls :: "disk \<Rightarrow> string \<Rightarrow> string list option" where
  "final_ls d p = (if p = ''data'' then Some [''cpu''] else Some [''cpu_100.chunk''])"

lemma logged_flush:
  obtains e' where "headflush (\<lambda>_. True) 0 ''cpu'' ''data'' logged_engine = Ret (True, e')"
    and "\<exists>en. registry e' = [en] \<and> mkey en = ''cpu'' \<and> map filename (live_chunks en) = [''data/cpu/cpu_100.chunk'']"
    and "dirs (store e') = dirs sample_disk" "denied (store e') = denied sample_disk"
proof -
  let ?h = sample_cpu_head and ?d = "store logged_engine"
  have cpu: "mkdir ''data/cpu'' ?d = ?d" by (simp add: mkdir_def logged_engine_def sample_disk_def)
  have opened: "fopen_wb ''data/cpu/cpu_100.chunk'' ?d =
      Some (?d\<lparr>files := (files ?d)(''data/cpu/cpu_100.chunk'' \<mapsto> [])\<rparr>)"
    by (simp add: fopen_wb_def parent_exists_def dirname_def sample_disk_def logged_engine_def)
  have flush: "flush_result ''data'' ''cpu'' ?h ?d =
      flushtochunk 100 ''data/cpu/cpu_100.chunk'' (timestamps ?h) (hvalues ?h) 2 ?d"
    by (simp add: flush_result_def sample_chunk_path cpu sample_cpu_head_simps)
  have ok: "fst (flush_result ''data'' ''cpu'' ?h ?d) = 0"
    unfolding flush
    using flushtochunk_succeeds [OF _ _ _ _ opened, of 2 "[100, 110]" "hvalues ?h"]
    by (simp add: sample_cpu_head_def logged_engine_def sample_disk_def)
  have same: "dirs (snd (flush_result ''data'' ''cpu'' ?h ?d)) = dirs ?d"
    "denied (snd (flush_result ''data'' ''cpu'' ?h ?d)) = denied ?d"
    unfolding flush using flushtochunk_frame(3,4) [of 2 "timestamps ?h" "hvalues ?h" "''x''" "''data/cpu/cpu_100.chunk''"]
    by (simp_all add: sample_cpu_head_def)
  have find: "registry_find ''cpu'' (registry logged_engine) = Some 0" "mhead (registry logged_engine ! 0) = Some ?h"
    "0 < hsize ?h"
    by (simp_all add: logged_engine_def sample_engine_def sample_cpu_head_def)
  show thesis
    using headflush_nonempty [OF find, of "\<lambda>_. True" 0 "''data''"] ok same
    by (intro that)
      (auto simp: record_chunk_def logged_engine_def sample_engine_def live_chunks_def store_at_def
        flush_metadata_def wal_truncate_def sample_chunk_path sample_cpu_head_simps)
qed


lemma connect_all_append:
  "connect_all mem path (ts @ us) st = connect_all mem path us (connect_all mem path ts st)"
  by (induction ts arbitrary: st) simp_all

lemma signal_ends_loop:
  assumes "\<forall>t \<in> set pre. quiet t" and "server_running sv" and "signal_before t \<or> signal_during t"
  shows "\<exists>sv'. accept_loop mem path (pre @ t # post) sv st =
      (True, sv', connect_all mem path (if signal_before t then pre else pre @ [t]) st) \<and>
    \<not> server_running sv' \<and> \<not> socket_open sv'"
proof -
  let ?st = "connect_all mem path pre st"
  have loop: "accept_loop mem path (pre @ t # post) sv st = accept_loop mem path (t # post) sv ?st"
    by (rule accept_loop_quiet [OF assms(1,2)])
  show ?thesis
  proof (cases "signal_before t")
    case True
    then show ?thesis by (simp add: loop deliver_def handle_shutdown_def)
  next
    case False
    then have "signal_during t" using assms(3) by simp
    with False show ?thesis
      using accept_loop_stopped [of "handle_shutdown sv" mem path post] assms(2)
      by (cases "accepted_as t")
        (auto simp: loop connect_all_append deliver_def handle_shutdown_def Let_def)
  qed
qed

text \<open>A signal ends the accept loop. After any number of turns without a signal, the loop takes
  at most the one connection that accept had ready when the signal came, is left with the flag
  down and the listening socket closed, and every connection of the turns before has got a thread,
  or was closed because the memory or the thread could not be had.\<close>

theorem accept_loop_shutdown:
  assumes "\<forall>t \<in> set pre. quiet t" and "server_running sv" and "signal_before t \<or> signal_during t"
  shows "\<exists>sv'. accept_loop mem path (pre @ t # post) sv st =
      (True, sv', connect_all mem path (if signal_before t then pre else pre @ [t]) st) \<and>
    \<not> server_running sv' \<and> \<not> socket_open sv'"
  using assms by (rule signal_ends_loop)

definition client_turn :: "int \<Rightarrow> bool \<Rightarrow> turn" where
  "client_turn fd signal =
     \<lparr>signal_before = False, signal_during = signal, accepted_as = Accepted fd, thread_created = True\<rparr>"

theorem accept_loop_shutdown_witness:
  "\<exists>sv'. accept_loop (\<lambda>_. True) ''data'' [client_turn 4 False, client_turn 40000 True] server_start no_connections =
      (True, sv', \<lparr>started = [\<lparr>client_socket = 4, args_path = ''data''\<rparr>, \<lparr>client_socket = -25536, args_path = ''data''\<rparr>],
                   refused = []\<rparr>) \<and>
    \<not> server_running sv'"
  using accept_loop_shutdown [of "[client_turn 4 False]" server_start "client_turn 40000 True" "\<lambda>_. True" "''data''" "[]"
      no_connections] socket_16_bits [of 4] socket_16_bits [of 40000]
  by (auto simp: client_turn_def quiet_def server_start_def no_connections_def createPthreadForUsers_def bounded_def)


text \<open>A data directory with one empty directory, a connection, and a signal.\<close>

definition one_metric_disk :: disk where
  "one_metric_disk = \<lparr>files = Map.empty, dirs = (\<lambda>p. p = ''data'' \<or> p = ''data/cpu''), denied = (\<lambda>_. False), room = 1000\<rparr>"

definition one_metric_env :: env where
  "one_metric_env = sample_env\<lparr>env_ls := (\<lambda>_ p. Some (if p = ''data'' then [''cpu''] else []))\<rparr>"


section \<open>The program\<close>

text \<open>
  What the options make of the program: the server with the last of each kind of option and all
  retention rules; a data directory of 256 characters or more overruns the array of main before
  anything else happens.
\<close>

theorem main_options:
  assumes "program \<notin> {''--port'', ''--data'', ''--retention''}" "\<forall>opt \<in> set opts. option_ok opt"
    and "length dir \<ge> 256"
    and "fold apply_option opts (8088, ''./data'', \<lparr>rules = [], rule_count = 0\<rparr>) = (port, path, cfg)"
  shows "main env calls bind turns serve (program # concat (map option_words opts)) d =
      createAndRunServer (env\<lparr>env_global := registry_init path, env_dataDir := path\<rparr>) cfg
        (calls\<lparr>bind_ok := bind (of_int port)\<rparr>) turns serve d \<and>
    main env calls bind turns serve (program # concat (map option_words (opts @ [OptData dir]))) d =
      Crashed StackOverflow"
  using main_arguments_options [OF assms(1-3)] by (simp add: main_def assms(4))

text \<open>The port is not checked: numbers that agree in their low 16 bits open the same port.\<close>

lemma main_port_wraps:
  assumes "main_arguments argv = Ret (port, path, cfg)" "main_arguments argv' = Ret (port', path, cfg)"
    and "port mod 65536 = port' mod 65536"
  shows "main env calls bind turns serve argv d = main env calls bind turns serve argv' d"
proof -
  have "(of_int port :: 16 word) = of_int port'"
    using assms(3) by (simp add: word_of_int_eq_iff take_bit_eq_mod)
  with assms(1,2) show ?thesis by (simp add: main_def)
qed

lemma main_port_wraps_witness:
  "main env calls bind turns serve [''tsdb'', ''--port'', ''70000''] d =
   main env calls bind turns serve [''tsdb'', ''--port'', ''4464''] d"
proof -
  have "main_arguments [''tsdb'', ''--port'', ''70000''] = Ret (70000, ''./data'', \<lparr>rules = [], rule_count = 0\<rparr>)"
    "main_arguments [''tsdb'', ''--port'', ''4464''] = Ret (4464, ''./data'', \<lparr>rules = [], rule_count = 0\<rparr>)"
    by code_simp+
  then show ?thesis by (rule main_port_wraps) simp
qed

end
