(* ===== verification/Crash_Safety.thy ===== *)
theory Crash_Safety
  imports Lifecycle
begin

text \<open>
  The promise of the write-ahead log for the whole engine, across \<^verbatim>\<open>src/registry.c\<close>,
  \<^verbatim>\<open>src/wal.c\<close>, \<^verbatim>\<open>src/retention.c\<close> and \<^verbatim>\<open>src/server.c\<close>: any sequence of puts, flushes and expiry
  passes over any number of metrics, then a crash and a start over the data directory.
\<close>

section \<open>Events\<close>

text \<open>A put with its answer, a flush, a pass of the expiry. Queries change nothing.\<close>

datatype event = Put string long cdouble bool | Flush string | Expire

text \<open>
  The device takes another record of the metric, also after the flush of a full head block.
\<close>

definition log_ready :: "allocator \<Rightarrow> long \<Rightarrow> string \<Rightarrow> string \<Rightarrow> engine \<Rightarrow> bool" where
  "log_ready mem junk dataDir m e \<longleftrightarrow>
     wal_ready dataDir m 1 (store e) \<and>
     (length (ram_of e m) \<ge> HEAD_CAPACITY \<longrightarrow>
       (case headflush mem junk m dataDir e of
          UB _ \<Rightarrow> True | Ret (_, e1) \<Rightarrow> wal_ready dataDir m 1 (store e1)))"

inductive event_step ::
    "allocator \<Rightarrow> long \<Rightarrow> string \<Rightarrow> engine \<Rightarrow> event \<Rightarrow> engine \<Rightarrow> bool" for mem junk dataDir where
  put: "length m < 64 \<Longrightarrow> paths_fit dataDir m \<Longrightarrow> flush_ready dataDir m e \<Longrightarrow> log_ready mem junk dataDir m e \<Longrightarrow>
    Head_PUT mem junk m t v dataDir e = Ret (ok, e') \<Longrightarrow> event_step mem junk dataDir e (Put m t v ok) e'"
| flush: "paths_fit dataDir m \<Longrightarrow> flush_ready dataDir m e \<Longrightarrow> \<not> denied (store e) (build_wal_path 512 dataDir m) \<Longrightarrow>
    headflush mem junk m dataDir e = Ret (ok, e') \<Longrightarrow> event_step mem junk dataDir e (Flush m) e'"
| expire: "event_step mem junk dataDir e Expire (run_expiry cfg now e)"

inductive event_run ::
    "allocator \<Rightarrow> long \<Rightarrow> string \<Rightarrow> engine \<Rightarrow> event list \<Rightarrow> engine \<Rightarrow> bool" for mem junk dataDir where
  run_none: "event_run mem junk dataDir e [] e"
| run_snoc: "event_run mem junk dataDir e evs e1 \<Longrightarrow> event_step mem junk dataDir e1 ev e2 \<Longrightarrow>
    event_run mem junk dataDir e (evs @ [ev]) e2"

text \<open>The points of a metric that were acknowledged, with the values a chunk keeps.\<close>

fun acked_point :: "string \<Rightarrow> event \<Rightarrow> point list" where
  "acked_point m (Put k t v ok) = (if k = m \<and> ok then [(t, val_image v)] else [])"
| "acked_point m (Flush k) = []"
| "acked_point m Expire = []"

definition acked :: "string \<Rightarrow> event list \<Rightarrow> point list" where
  "acked m evs = concat (map (acked_point m) evs)"

section \<open>The invariant\<close>

text \<open>Every log holds the points of the head block of its metric and no chunk file is a log.\<close>

definition durable :: "string \<Rightarrow> engine \<Rightarrow> bool" where
  "durable dataDir e \<longleftrightarrow> engine_inv e \<and>
     (\<forall>m. paths_fit dataDir m \<longrightarrow> wal_mirrors dataDir m e \<and> build_wal_path 512 dataDir m \<notin> set (chunk_files e))"

lemma durableD:
  assumes "durable dataDir e"
  shows "engine_inv e" "paths_fit dataDir m \<Longrightarrow> wal_mirrors dataDir m e"
    "paths_fit dataDir m \<Longrightarrow> build_wal_path 512 dataDir m \<notin> set (chunk_files e)"
  using assms by (simp_all add: durable_def)

lemma durable_created:
  assumes dur: "durable dataDir e" and len: "length m < 64" and mem: "\<And>k. mem k"
    and get: "getMetricFromHashTable mem junk m True (registry e) = Ret (Some i, reg)"
  shows "durable dataDir (e\<lparr>registry := reg\<rparr>)"
proof -
  note created = getMetric_create [where mem = mem and dataDir = dataDir, OF durableD(1) [OF dur] len mem get]
  have "ram_of (e\<lparr>registry := reg\<rparr>) k = ram_of e k" for k
  proof (cases "registry_find m (registry e)")
    case (Some j)
    with get show ?thesis by (auto simp: getMetricFromHashTable_def)
  next
    case None
    with get have reg: "reg = registry e @ [new_entry mem junk m]"
      by (auto simp: getMetricFromHashTable_def Let_def)
    then show ?thesis
      using new_entry_props(3) [where mem = mem, OF mem]
      by (auto simp: ram_of_def registry_find_append nth_append dest: registry_find_Some split: option.split)
  qed
  then show ?thesis using dur created by (simp add: durable_def wal_mirrors_def)
qed

lemma durable_logged:
  assumes dur: "durable dataDir e" and fit: "paths_fit dataDir m" and ready: "wal_ready dataDir m 1 (store e)"
    and find: "registry_find m (registry e) = Some i" and head: "mhead (registry e ! i) \<noteq> None"
    and put: "PUT_value (head_at e i) t v = (ok, h)"
  shows "durable dataDir (logged dataDir m t v ok (set_head e i h))"
proof -
  let ?e = "set_head e i h"
  note i = registry_find_Some [OF find]
  note out = set_head_PUT [OF durableD(1) [OF dur] find head_at_Some [OF head] put]
  have ram: "ram_of ?e k = ram_of e k @ (if k = m \<and> ok then [(t, v)] else [])" for k
  proof (cases "k = m")
    case True
    with ram_of_set_head(1) [OF durableD(1) [OF dur] find head put] show ?thesis by simp
  next
    case False
    then have "registry_find k (registry e) \<noteq> Some i" using i registry_find_Some by blast
    then show ?thesis using False by (auto simp: ram_of_def set_head_def split: option.split)
  qed
  have log: "wal_contents dataDir k (wal_append dataDir m t v (store e)) =
      wal_contents dataDir k (store e) @ (if k = m then [(t, v)] else [])" if "paths_fit dataDir k" for k
  proof (cases "k = m")
    case True
    with wal_append_readyD(2) [of dataDir m 0 "store e" t v] ready show ?thesis by simp
  next
    case False
    from wal_append_frame(1) [OF wal_path_apart(1) [OF fit that False]] False show ?thesis
      by (simp add: wal_contents_def)
  qed
  show ?thesis
    using dur out ram log by (cases ok) (simp_all add: durable_def logged_def wal_mirrors_def engine_inv_def chunk_files_def)
qed

lemma headflush_chunk_files:
  assumes inv: "engine_inv e" and ret: "headflush mem junk m dataDir e = Ret (ok, e')"
  shows "set (chunk_files e') \<subseteq> set (chunk_files e) \<union> range (chunk_path dataDir m)"
proof -
  from ret obtain i where find: "registry_find m (registry e) = Some i"
    by (cases "registry_find m (registry e)") (auto simp: headflush_unknown)
  note i = registry_find_Some [OF find]
  have en: "entry_inv (registry e ! i)" using inv i entry_inv_nth by blast
  consider "store e' = store e" "registry e' = registry e"
    | h where "mhead (registry e ! i) = Some h" "0 < hsize h"
    using ret headflush_headless [OF find, of mem junk dataDir] headflush_empty [OF find, of _ mem junk dataDir]
    by (cases "mhead (registry e ! i)") auto
  then show ?thesis
  proof cases
    case 1
    then show ?thesis by (simp add: chunk_files_def)
  next
    case 2
    note run = headflush_nonempty [OF find 2, of mem junk dataDir]
    show ?thesis
    proof (cases "fst (flush_result dataDir m h (store e)) = 0")
      case False
      with ret run show ?thesis by (auto simp: chunk_files_def)
    next
      case True
      then obtain en where rec: "record_chunk (registry e ! i) (flush_metadata dataDir m h) = Ret en"
        using ret run by (auto split: c_result.splits)
      then have "chunkCount (registry e ! i) < 16384"
        using record_chunk_full [OF en] by (metis c_result.distinct(1) not_le)
      from record_chunk_Ret [OF en this] rec obtain cap where
        "en = (registry e ! i)\<lparr>chunkCapacity := cap,
          chunks := store_at (chunks (registry e ! i)) (chunkCount (registry e ! i)) (flush_metadata dataDir m h),
          chunkCount := chunkCount (registry e ! i) + 1\<rparr>"
        by (metis c_result.inject(1))
      then have "map filename (live_chunks (en\<lparr>mhead := h'\<rparr>)) =
          map filename (live_chunks (registry e ! i)) @ [chunk_path dataDir m (chunk_id h)]" for h'
        using live_chunks_recorded [OF en] by (simp add: flush_metadata_def)
      from chunk_files_update [OF _ this] i ret run True rec show ?thesis by fastforce
    qed
  qed
qed

lemma durable_flush:
  assumes dur: "durable dataDir e" and mem: "\<And>k. mem k" and fit: "paths_fit dataDir m"
    and ready: "flush_ready dataDir m e" and wal: "\<not> denied (store e) (build_wal_path 512 dataDir m)"
    and ret: "headflush mem junk m dataDir e = Ret (ok, e')"
  shows "durable dataDir e'"
proof -
  note inv = durableD(1) [OF dur]
  note step = flush_step [where mem = mem, OF inv ready mem ret]
  note out = headflush_outcome [where mem = mem, OF inv ready mem ret]
  have "wal_mirrors dataDir k e' \<and> build_wal_path 512 dataDir k \<notin> set (chunk_files e')" if "paths_fit dataDir k" for k
  proof (cases "k = m")
    case True
    with headflush_mirrored [where mem = mem, OF inv ready mem durableD(2) [OF dur fit] wal ret] out
    show ?thesis by simp
  next
    case False
    have "build_wal_path 512 dataDir k \<notin> range (chunk_path dataDir m)"
      using wal_path_apart(2) [OF fit that False] by auto
    then have "build_wal_path 512 dataDir k \<notin> set (chunk_files e')"
      using headflush_chunk_files [OF inv ret] durableD(3) [OF dur that] by blast
    moreover have "wal_mirrors dataDir k e'"
      using step(2) [OF False] step(3) [OF fit that False] durableD(2) [OF dur that] by (simp add: wal_mirrors_def)
    ultimately show ?thesis by simp
  qed
  moreover have "engine_inv e'" using out by (simp add: same_points_def)
  ultimately show ?thesis by (simp add: durable_def)
qed

lemma durable_put:
  assumes dur: "durable dataDir e" and mem: "\<And>k. mem k" and len: "length m < 64" and fit: "paths_fit dataDir m"
    and ready: "flush_ready dataDir m e" and log: "log_ready mem junk dataDir m e"
    and ret: "Head_PUT mem junk m t v dataDir e = Ret (ok, e')"
  shows "durable dataDir e'"
proof -
  from ret obtain i reg where get: "getMetricFromHashTable mem junk m True (registry e) = Ret (Some i, reg)"
    by (auto simp: Head_PUT_def split: c_result.splits option.splits prod.splits)
  define e1 where "e1 = e\<lparr>registry := reg\<rparr>"
  have dur1: "durable dataDir e1" using durable_created [where mem = mem, OF dur len mem get] by (simp add: e1_def)
  note created = getMetric_create [where mem = mem and dataDir = dataDir, OF durableD(1) [OF dur] len mem get, folded e1_def]
  have e1: "registry_find m (registry e1) = Some i" "mhead (registry e1 ! i) \<noteq> None" "store e1 = store e"
    using created by (simp_all add: e1_def)
  have wal: "wal_ready dataDir m 1 (store e)" using log by (simp add: log_ready_def)
  obtain res h1 where put: "PUT_value (head_at e1 i) t v = (res, h1)" by fastforce
  show ?thesis
  proof (cases "\<not> res \<and> hsize h1 \<ge> HEAD_CAPACITY")
    case False
    with ret Head_PUT_direct [OF get put [unfolded e1_def]] have "e' = logged dataDir m t v res (set_head e1 i h1)"
      by (auto simp: e1_def)
    then show ?thesis using durable_logged [OF dur1 fit _ e1(1,2) put] wal e1(3) by simp
  next
    case True
    with put have "\<not> accepts (head_at e1 i) t" using PUT_value_accepts [of "head_at e1 i" t v] by simp
    with put have h1: "h1 = head_at e1 i" using PUT_value_rejected by auto
    have "entry_inv (registry e1 ! i)"
      using durableD(1) [OF dur1] registry_find_Some [OF e1(1)] entry_inv_nth by blast
    then have "head_inv (head_at e1 i)" using head_at_Some [OF e1(2)] by (simp add: entry_inv_def)
    moreover have "ram_of e1 m = head_points (head_at e1 i)"
      using e1(1) head_at_Some [OF e1(2)] by (simp add: ram_of_def ram_points_def)
    ultimately have full: "length (ram_of e m) \<ge> HEAD_CAPACITY"
      using True ram_of_created [where mem = mem, OF len mem get] by (simp add: h1 e1_def)
    then have "registry_find m (registry e) \<noteq> None" by (auto simp: ram_of_def HEAD_CAPACITY_def split: option.splits)
    then have "reg = registry e" using get by (auto simp: getMetricFromHashTable_def)
    then have same: "e1 = e" by (simp add: e1_def)
    have "set_head e1 i h1 = e1" using set_head_same [OF e1(2)] h1 by simp
    with ret Head_PUT_full [OF get put [unfolded e1_def]] True obtain flushed e3 h3 where
      flush: "headflush mem junk m dataDir e = Ret (flushed, e3)"
      and put3: "PUT_value (head_at e3 i) t v = (ok, h3)"
      and e': "e' = logged dataDir m t v ok (set_head e3 i h3)"
      by (auto simp: e1_def [symmetric] same split: c_result.splits prod.splits)
    have "\<not> denied (store e) (build_wal_path 512 dataDir m)" using wal by (simp add: wal_ready_def Let_def)
    note dur3 = durable_flush [where mem = mem, OF dur mem fit ready this flush]
    have "registry_find m (registry e3) = Some i" "mhead (registry e3 ! i) \<noteq> None"
      using headflush_outcome [where mem = mem, OF durableD(1) [OF dur] ready mem flush] e1(1,2) by (simp_all add: same)
    moreover have "wal_ready dataDir m 1 (store e3)" using log full flush by (simp add: log_ready_def)
    ultimately show ?thesis using durable_logged [OF dur3 fit _ _ _ put3] e' by simp
  qed
qed

lemma registry_find_keys: "map mkey reg = map mkey reg' \<Longrightarrow> registry_find k reg = registry_find k reg'"
proof (induction reg arbitrary: reg')
  case (Cons en reg)
  then show ?case by (cases reg') auto
qed simp

lemma durable_expire:
  assumes dur: "durable dataDir e"
  shows "durable dataDir (run_expiry cfg now e)"
proof -
  note inv = durableD(1) [OF dur]
  obtain reg d where run: "expire_registry cfg now (registry e) (store e) = (reg, d)" by fastforce
  have "\<forall>en \<in> set (registry e). entry_inv en" using inv by (simp add: engine_inv_def)
  from expire_registry_spec [OF this, of cfg now "store e"] run
  have all: "list_all2 (entry_expired cfg now) (registry e) reg"
    and files: "\<And>p. files d p = (if p \<in> (\<Union>en \<in> set (registry e). expired_files cfg now en) \<and> \<not> denied (store e) p
      then None else files (store e) p)" by auto
  from all have "map mkey reg = map mkey (registry e)"
    by (induction rule: list_all2_induct) (simp_all add: entry_expired_def)
  note find = registry_find_keys [OF this]
  have ram: "ram_of \<lparr>registry = reg, store = d\<rparr> k = ram_of e k" for k
    using all by (auto simp: ram_of_def find entry_expired_def dest!: registry_find_Some list_all2_nthD split: option.split)
  have gone: "(\<Union>en \<in> set (registry e). expired_files cfg now en) \<subseteq> set (chunk_files e)"
    by (auto simp: expired_files_def chunk_files_def)
  have kept: "set (chunk_files \<lparr>registry = reg, store = d\<rparr>) \<subseteq> set (chunk_files e)"
    unfolding chunk_files_def using all by (induction rule: list_all2_induct) (auto simp: entry_expired_def)
  have "engine_inv (run_expiry cfg now e)" by (rule run_expiry_inv [OF inv])
  moreover have "run_expiry cfg now e = \<lparr>registry = reg, store = d\<rparr>" by (simp add: run_expiry_def run)
  moreover have "wal_mirrors dataDir m \<lparr>registry = reg, store = d\<rparr> \<and>
      build_wal_path 512 dataDir m \<notin> set (chunk_files \<lparr>registry = reg, store = d\<rparr>)" if "paths_fit dataDir m" for m
  proof -
    note m = durableD(2,3) [OF dur that]
    have "files d (build_wal_path 512 dataDir m) = files (store e) (build_wal_path 512 dataDir m)"
      using files m(2) gone by auto
    then show ?thesis using m kept ram [of m] by (auto simp: wal_mirrors_def wal_contents_def)
  qed
  ultimately show ?thesis by (simp add: durable_def)
qed

lemma event_step_durable:
  assumes mem: "\<And>k. mem k" shows "event_step mem junk dataDir e ev e' \<Longrightarrow> durable dataDir e \<Longrightarrow> durable dataDir e'"
proof (induction rule: event_step.induct)
  case (put m e t v ok e')
  then show ?case using durable_put [where mem = mem, OF _ mem] by blast
next
  case (flush m e ok e')
  then show ?case using durable_flush [where mem = mem, OF _ mem] by blast
next
  case (expire e cfg now)
  then show ?case by (rule durable_expire)
qed

lemma event_step_points:
  assumes mem: "\<And>k. mem k"
  shows "event_step mem junk dataDir e ev e' \<Longrightarrow> durable dataDir e \<Longrightarrow> ev \<noteq> Expire \<Longrightarrow>
    metric_points mem e' m = metric_points mem e m @ acked_point m ev"
proof (induction rule: event_step.induct)
  case (put k e t v ok e')
  then show ?case using Head_PUT_outcome [where mem = mem, OF durableD(1) _ _ mem]
    by (fastforce simp: put_outcome_def stored_point_def)
next
  case (flush k e ok e')
  then show ?case using headflush_outcome [where mem = mem, OF durableD(1) _ mem] by (fastforce simp: same_points_def)
qed simp

lemma event_run_durable:
  assumes mem: "\<And>k. mem k"
  shows "event_run mem junk dataDir e evs e' \<Longrightarrow> durable dataDir e \<Longrightarrow> durable dataDir e' \<and>
    (Expire \<notin> set evs \<longrightarrow> metric_points mem e' m = metric_points mem e m @ acked m evs)"
proof (induction rule: event_run.induct)
  case (run_none e)
  then show ?case by (simp add: acked_def)
next
  case (run_snoc e evs e1 ev e2)
  then show ?case
    using event_step_durable [where mem = mem, OF mem] event_step_points [where mem = mem, OF mem, of junk dataDir e1 ev e2 m]
    by (fastforce simp: acked_def)
qed

section \<open>Properties\<close>


text \<open>A third point for the sample engine with its log.\<close>

definition grown_engine :: engine where
  "grown_engine =
     \<lparr>registry = [\<lparr>mkey = ''cpu'', mhead = Some \<lparr>timestamps = [100, 110, 120],
          hvalues = [CDouble 0x4049000000000000, CDouble 0x3FF8000000000000, CDouble 0], hsize = 3, lastTimestamp = 120\<rparr>,
        chunks = [], chunkCount = 0, chunkCapacity = 4\<rparr>],
      store = wal_append ''data'' ''cpu'' 120 (CDouble 0) (store logged_engine)\<rparr>"

definition log_ls :: "disk \<Rightarrow> string \<Rightarrow> string list option" where
  "log_ls d p = (if p = ''data'' then Some [''cpu''] else Some [''wal.log''])"

lemma grown_put: "Head_PUT (\<lambda>_. True) 0 ''cpu'' 120 (CDouble 0) ''data'' logged_engine = Ret (True, grown_engine)"
  by (simp add: Head_PUT_def getMetricFromHashTable_def logged_engine_def sample_engine_def entry_head_def
      head_at_def set_head_def PUT_value_def HEAD_CAPACITY_def store_at_def grown_engine_def Let_def)

lemma logged_durable: "durable ''data'' logged_engine"
proof -
  have "wal_mirrors ''data'' m logged_engine \<and> build_wal_path 512 ''data'' m \<notin> set (chunk_files logged_engine)"
    if fit: "paths_fit ''data'' m" for m
  proof (cases "m = ''cpu''")
    case True
    then show ?thesis
      using logged_engine_props(2) by (simp add: logged_engine_def sample_engine_def chunk_files_def live_chunks_def)
  next
    case False
    then show ?thesis
      using wal_path_fit [OF fit]
      by (simp add: wal_mirrors_def wal_contents_def ram_of_def logged_engine_def sample_engine_def sample_disk_def
          chunk_files_def live_chunks_def)
  qed
  with logged_engine_props(1) show ?thesis by (simp add: durable_def)
qed


end
