(* ===== verification/Locks.thy ===== *)
theory Locks
  imports Durability Retention
begin

text \<open>
  The mutexes: \<open>registry_lock\<close>, the lock in every head block and \<open>registry_lock02\<close> of
  \<^verbatim>\<open>src/server.c\<close>. First the order in which the functions of \<^verbatim>\<open>src/registry.c\<close>,
  \<^verbatim>\<open>src/retention.c\<close> and \<^verbatim>\<open>src/downsample.c\<close> take and give them back, on every path to a
  return, and what follows for any number of threads. Then the one piece of state that two threads
  write under different locks, the chunk list of a metric, with its writes as separate steps.
\<close>

section \<open>What the functions lock\<close>

datatype lock = RegistryLock | RegistryLock02 | HeadLock string

datatype act = Acquire lock | Release lock

text \<open>Taken and given back around one access.\<close>

definition locked :: "lock \<Rightarrow> act list" where
  "locked l = [Acquire l, Release l]"

definition headflush_locks :: "string \<Rightarrow> bool \<Rightarrow> act list" where
  "headflush_locks m has_head = locked RegistryLock @ (if has_head then locked (HeadLock m) else [])"

text \<open>\<open>full\<close>: the put failed on a full head block, which is flushed with the lock given back.\<close>

definition Head_PUT_locks :: "string \<Rightarrow> bool \<Rightarrow> act list" where
  "Head_PUT_locks m full =
     locked RegistryLock @ [Acquire (HeadLock m)] @
     (if full then [Release (HeadLock m)] @ headflush_locks m True @ [Acquire (HeadLock m)] else []) @
     [Release (HeadLock m)]"

definition Head_GET_locks :: "string \<Rightarrow> bool \<Rightarrow> act list" where
  "Head_GET_locks m known = locked RegistryLock @ (if known then locked (HeadLock m) else [])"

definition Head_STATS_locks :: "string \<Rightarrow> bool \<Rightarrow> bool \<Rightarrow> act list" where
  "Head_STATS_locks m known allocated =
     locked RegistryLock @ (if known \<and> allocated then locked (HeadLock m) else [])"

definition Head_AGG_locks :: "string \<Rightarrow> bool \<Rightarrow> bool \<Rightarrow> bool \<Rightarrow> act list" where
  "Head_AGG_locks m valid known disk_read =
     (if \<not> valid then []
      else locked RegistryLock @ (if known \<and> disk_read then locked (HeadLock m) else []))"

definition loadChunkMetadata_locks :: "act list" where
  "loadChunkMetadata_locks = locked RegistryLock02"

definition run_expiry_locks :: "act list" where
  "run_expiry_locks = locked RegistryLock"

text \<open>One pass of downsampling gives the lock back around the work on each of \<open>n\<close> chunks.\<close>

definition downsample_locks :: "nat \<Rightarrow> act list" where
  "downsample_locks n =
     [Acquire RegistryLock] @ concat (replicate n [Release RegistryLock, Acquire RegistryLock]) @
     [Release RegistryLock]"

definition print_metric_locks :: "string \<Rightarrow> bool \<Rightarrow> act list" where
  "print_metric_locks m known = locked RegistryLock @ (if known then locked (HeadLock m) else [])"

inductive operation :: "act list \<Rightarrow> bool" where
  "operation (headflush_locks m b)"
| "operation (Head_PUT_locks m b)"
| "operation (Head_GET_locks m b)"
| "operation (Head_STATS_locks m b c)"
| "operation (Head_AGG_locks m b c f)"
| "operation loadChunkMetadata_locks"
| "operation run_expiry_locks"
| "operation (downsample_locks n)"
| "operation (print_metric_locks m b)"

section \<open>Threads and mutexes\<close>

text \<open>Who holds each lock, and what every thread still has to do.\<close>

type_synonym lock_state = "(lock \<Rightarrow> nat option) \<times> act list list"

inductive lock_step :: "lock_state \<Rightarrow> lock_state \<Rightarrow> bool" where
  acquire: "i < length ts \<Longrightarrow> ts ! i = Acquire l # rest \<Longrightarrow> holder l = None \<Longrightarrow>
    lock_step (holder, ts) (holder(l \<mapsto> i), ts[i := rest])"
| release: "i < length ts \<Longrightarrow> ts ! i = Release l # rest \<Longrightarrow> holder l = Some i \<Longrightarrow>
    lock_step (holder, ts) (holder(l := None), ts[i := rest])"

inductive_cases lock_stepE: "lock_step s s'"

text \<open>A thread that holds \<open>h\<close> takes no second lock, gives back what it holds and ends with nothing.\<close>

fun disciplined :: "lock option \<Rightarrow> act list \<Rightarrow> bool" where
  "disciplined h [] \<longleftrightarrow> h = None"
| "disciplined h (Acquire l # rest) \<longleftrightarrow> h = None \<and> disciplined (Some l) rest"
| "disciplined h (Release l # rest) \<longleftrightarrow> h = Some l \<and> disciplined None rest"

lemma disciplined_append:
  "disciplined h as \<Longrightarrow> disciplined None bs \<Longrightarrow> disciplined h (as @ bs)"
  by (induction h as rule: disciplined.induct) auto

lemma disciplined_locked [simp]: "disciplined None (locked l)"
  by (simp add: locked_def)

lemma downsample_disciplined:
  "disciplined (Some RegistryLock)
     (concat (replicate n [Release RegistryLock, Acquire RegistryLock]) @ [Release RegistryLock])"
  by (induction n) simp_all

lemma operation_disciplined: "operation as \<Longrightarrow> disciplined None as"
  by (induction rule: operation.induct)
    (auto simp: headflush_locks_def Head_PUT_locks_def Head_GET_locks_def Head_STATS_locks_def
      Head_AGG_locks_def loadChunkMetadata_locks_def run_expiry_locks_def downsample_locks_def
      print_metric_locks_def locked_def downsample_disciplined)

lemma operations_disciplined: "\<forall>as \<in> set ops. operation as \<Longrightarrow> disciplined None (concat ops)"
  by (induction ops) (auto intro: disciplined_append operation_disciplined)

text \<open>\<open>hs i\<close> is the lock thread \<open>i\<close> holds.\<close>

definition lock_inv :: "lock_state \<Rightarrow> bool" where
  "lock_inv s \<longleftrightarrow>
     (\<exists>hs. (\<forall>l i. fst s l = Some i \<longleftrightarrow> i < length (snd s) \<and> hs i = Some l) \<and>
           (\<forall>i < length (snd s). disciplined (hs i) (snd s ! i)))"

lemma lock_step_inv: "lock_step s s' \<Longrightarrow> lock_inv s \<Longrightarrow> lock_inv s'"
proof (induction rule: lock_step.induct)
  case (acquire i ts l rest holder)
  then obtain hs where hs: "\<And>l i. holder l = Some i \<longleftrightarrow> i < length ts \<and> hs i = Some l"
    "\<And>i. i < length ts \<Longrightarrow> disciplined (hs i) (ts ! i)" by (auto simp: lock_inv_def)
  have i: "hs i = None" "disciplined (Some l) rest" using hs(2) [OF acquire.hyps(1)] acquire.hyps(2) by auto
  show ?case
    unfolding lock_inv_def
  proof (intro exI [of _ "hs(i := Some l)"] conjI allI impI)
    fix l' j
    show "fst (holder(l \<mapsto> i), ts[i := rest]) l' = Some j \<longleftrightarrow>
        j < length (snd (holder(l \<mapsto> i), ts[i := rest])) \<and> (hs(i := Some l)) j = Some l'"
      using hs(1) [of l' j] hs(1) [of l j] i(1) acquire.hyps(1,3) by auto
  next
    fix j assume "j < length (snd (holder(l \<mapsto> i), ts[i := rest]))"
    then show "disciplined ((hs(i := Some l)) j) (snd (holder(l \<mapsto> i), ts[i := rest]) ! j)"
      using hs(2) [of j] i(2) by (auto simp: nth_list_update)
  qed
next
  case (release i ts l rest holder)
  then obtain hs where hs: "\<And>l i. holder l = Some i \<longleftrightarrow> i < length ts \<and> hs i = Some l"
    "\<And>i. i < length ts \<Longrightarrow> disciplined (hs i) (ts ! i)" by (auto simp: lock_inv_def)
  have i: "hs i = Some l" "disciplined None rest" using hs(2) [OF release.hyps(1)] release.hyps(2) by auto
  show ?case
    unfolding lock_inv_def
  proof (intro exI [of _ "hs(i := None)"] conjI allI impI)
    fix l' j
    show "fst (holder(l := None), ts[i := rest]) l' = Some j \<longleftrightarrow>
        j < length (snd (holder(l := None), ts[i := rest])) \<and> (hs(i := None)) j = Some l'"
      using hs(1) [of l' j] hs(1) [of l j] i(1) release.hyps(1,3) by auto
  next
    fix j assume "j < length (snd (holder(l := None), ts[i := rest]))"
    then show "disciplined ((hs(i := None)) j) (snd (holder(l := None), ts[i := rest]) ! j)"
      using hs(2) [of j] i(2) by (auto simp: nth_list_update)
  qed
qed

interpretation lock_runs: step_invariant lock_step lock_inv
  by unfold_locales (rule lock_step_inv)

lemma lock_progress:
  assumes "lock_inv (holder, ts)" "j < length ts" "ts ! j \<noteq> []"
  shows "\<exists>s'. lock_step (holder, ts) s'"
proof -
  obtain hs where hs: "\<And>l i. holder l = Some i \<longleftrightarrow> i < length ts \<and> hs i = Some l"
    "\<And>i. i < length ts \<Longrightarrow> disciplined (hs i) (ts ! i)" using assms(1) by (auto simp: lock_inv_def)
  show ?thesis
  proof (cases "\<exists>i < length ts. hs i \<noteq> None")
    case True
    then obtain i l where i: "i < length ts" "hs i = Some l" by auto
    then obtain rest where "ts ! i = Release l # rest"
      using hs(2) [OF i(1)] by (cases "(hs i, ts ! i)" rule: disciplined.cases) auto
    then show ?thesis using release [OF i(1)] hs(1) [of l i] i by blast
  next
    case False
    then have "hs j = None" using assms(2) by blast
    then obtain l rest where j: "ts ! j = Acquire l # rest"
      using hs(2) [OF assms(2)] assms(3) by (cases "(hs j, ts ! j)" rule: disciplined.cases) auto
    have "holder l \<noteq> Some a" for a using hs(1) [of l a] False by auto
    then have "holder l = None" by (cases "holder l") auto
    then show ?thesis using acquire [OF assms(2) j] by blast
  qed
qed

lemma sum_list_step:
  "i < length ts \<Longrightarrow> ts ! i = a # rest \<Longrightarrow>
     sum_list (map length ts) = Suc (sum_list (map length (ts[i := rest])))"
proof (induction ts arbitrary: i)
  case (Cons t ts)
  then show ?case by (cases i) auto
qed simp

text \<open>Every step does one of the things that are left, so a run of locking ends.\<close>

lemma lock_step_less:
  "lock_step s s' \<Longrightarrow> sum_list (map length (snd s)) = Suc (sum_list (map length (snd s')))"
  by (induction rule: lock_step.induct) (simp_all add: sum_list_step)

lemma lock_run_length:
  "(lock_step ^^ n) s s' \<Longrightarrow> sum_list (map length (snd s)) = n + sum_list (map length (snd s'))"
proof (induction n arbitrary: s')
  case (Suc n)
  then obtain s1 where "(lock_step ^^ n) s s1" "lock_step s1 s'" by auto
  with Suc.IH lock_step_less show ?case by fastforce
qed simp

lemma lock_inv_start: "\<forall>ts \<in> set tss. disciplined None ts \<Longrightarrow> lock_inv (\<lambda>_. None, tss)"
  by (auto simp: lock_inv_def)

text \<open>C17: the server cannot deadlock on its mutexes. Let any number of threads each carry out any
  sequence of requests, passes and loads: at any point of any interleaving no thread holds two
  locks, and where no thread can take a step, all have finished and every lock has been given
  back. There are only as many steps as there are calls of lock and unlock.\<close>

theorem threads_never_deadlock:
  assumes "\<forall>ops \<in> set opss. \<forall>as \<in> set ops. operation as"
    and "(lock_step ^^ n) (\<lambda>_. None, map concat opss) (holder, ts)"
  shows "(\<forall>i l l'. holder l = Some i \<longrightarrow> holder l' = Some i \<longrightarrow> l = l') \<and>
    ((\<nexists>s'. lock_step (holder, ts) s') \<longrightarrow> (\<forall>as \<in> set ts. as = []) \<and> holder = (\<lambda>_. None)) \<and>
    n \<le> sum_list (map (length \<circ> concat) opss)"
proof -
  have "\<forall>ts \<in> set (map concat opss). disciplined None ts" using assms(1) operations_disciplined by auto
  then have "lock_inv (\<lambda>_. None, map concat opss)" by (rule lock_inv_start)
  moreover have "lock_step\<^sup>*\<^sup>* (\<lambda>_. None, map concat opss) (holder, ts)"
    using assms(2) by (rule relpowp_imp_rtranclp)
  ultimately have inv: "lock_inv (holder, ts)" using lock_runs.run by blast
  then obtain hs where hs: "\<And>l i. holder l = Some i \<longleftrightarrow> i < length ts \<and> hs i = Some l"
    "\<And>i. i < length ts \<Longrightarrow> disciplined (hs i) (ts ! i)" by (auto simp: lock_inv_def)
  have "(\<forall>as \<in> set ts. as = []) \<and> holder = (\<lambda>_. None)" if stuck: "\<nexists>s'. lock_step (holder, ts) s'"
  proof -
    have finished: "ts ! j = []" if "j < length ts" for j using lock_progress [OF inv that] stuck by blast
    have "holder l \<noteq> Some i" for l i
    proof
      assume "holder l = Some i"
      then have "i < length ts" "hs i = Some l" using hs(1) [of l i] by auto
      then show False using hs(2) [of i] finished [of i] by simp
    qed
    then have "holder = (\<lambda>_. None)" by (intro ext) (metis not_Some_eq)
    with finished show ?thesis by (auto simp: in_set_conv_nth)
  qed
  then show ?thesis using hs(1) lock_run_length [OF assms(2)] by (auto simp: comp_def)
qed

lemma threads_never_deadlock_witness:
  "\<exists>s'. lock_step ((\<lambda>_. None)(RegistryLock \<mapsto> 0), [[Release RegistryLock], loadChunkMetadata_locks]) s'"
proof -
  let ?opss = "[[run_expiry_locks], [loadChunkMetadata_locks]]"
  let ?ts = "[[Release RegistryLock], loadChunkMetadata_locks]"
  have "lock_step (\<lambda>_. None, map concat ?opss) ((\<lambda>_. None)(RegistryLock \<mapsto> 0), (map concat ?opss)[0 := [Release RegistryLock]])"
    by (rule acquire) (simp_all add: run_expiry_locks_def locked_def)
  then have "(lock_step ^^ 1) (\<lambda>_. None, map concat ?opss) ((\<lambda>_. None)(RegistryLock \<mapsto> 0), ?ts)"
    by (simp only: relpowp_1 list.map concat.simps append_Nil2 list_update.simps nat.case)
  moreover have "\<forall>ops \<in> set ?opss. \<forall>as \<in> set ops. operation as" by (simp add: operation.intros)
  ultimately have "(\<nexists>s'. lock_step ((\<lambda>_. None)(RegistryLock \<mapsto> 0), ?ts) s') \<longrightarrow>
      (\<lambda>_. None)(RegistryLock \<mapsto> (0::nat)) = (\<lambda>_. None)"
    using threads_never_deadlock [of ?opss 1] by blast
  moreover have "(\<lambda>_. None)(RegistryLock \<mapsto> (0::nat)) \<noteq> (\<lambda>_. None)" by (auto simp: fun_eq_iff)
  ultimately show ?thesis by blast
qed

section \<open>The chunk list under two locks\<close>

text \<open>
  \<open>headflush\<close> adds to \<open>entry->chunks\<close> holding the lock of the head block, \<open>expire_chunk\<close> removes from it
  holding \<open>registry_lock\<close>: neither excludes the other. The steps of the two, with \<open>tail\<close> the local
  variable of \<open>expire_chunk\<close>.
\<close>

definition chunks_grow :: "metric_registry \<Rightarrow> metric_registry c_result" where
  "chunks_grow en =
     (let cap = sint (of_int (chunkCapacity en * 2) :: 16 word) in
      if int (chunkCount en) < chunkCapacity en then Ret en
      else if cap < 0 then UB NullDeref else Ret (en\<lparr>chunkCapacity := cap\<rparr>))"

definition chunks_store :: "ChunkMetadata \<Rightarrow> metric_registry \<Rightarrow> metric_registry c_result" where
  "chunks_store cm en =
     (if int (chunkCount en) \<ge> chunkCapacity en then UB HeapOverflow
      else Ret (en\<lparr>chunks := store_at (chunks en) (chunkCount en) cm\<rparr>))"

definition chunks_count :: "metric_registry \<Rightarrow> metric_registry" where
  "chunks_count en = en\<lparr>chunkCount := chunkCount en + 1\<rparr>"

definition chunks_tail :: "nat \<Rightarrow> metric_registry \<Rightarrow> nat" where
  "chunks_tail idx en = chunkCount en - idx - 1"

definition chunks_move :: "nat \<Rightarrow> nat \<Rightarrow> metric_registry \<Rightarrow> metric_registry" where
  "chunks_move idx tail en =
     (if tail > 0
      then en\<lparr>chunks := take idx (chunks en) @ take tail (drop (idx + 1) (chunks en)) @
                       drop (idx + tail) (chunks en)\<rparr>
      else en)"

definition chunks_uncount :: "metric_registry \<Rightarrow> metric_registry" where
  "chunks_uncount en = en\<lparr>chunkCount := chunkCount en - 1\<rparr>"

text \<open>Run one after the other they are \<open>record_chunk\<close> and \<open>expire_chunk\<close>.\<close>

lemma record_chunk_steps:
  "record_chunk en cm =
     (case chunks_grow en of UB u \<Rightarrow> UB u
      | Ret en \<Rightarrow> (case chunks_store cm en of UB u \<Rightarrow> UB u | Ret en \<Rightarrow> Ret (chunks_count en)))"
  by (auto simp: record_chunk_def chunks_grow_def chunks_store_def chunks_count_def Let_def)

lemma expire_chunk_steps:
  "fst (expire_chunk idx (en, d)) = chunks_uncount (chunks_move idx (chunks_tail idx en) en)"
  by (simp add: expire_chunk_def chunks_uncount_def chunks_move_def chunks_tail_def split_def Let_def)

datatype list_step = Grow | Store | Count | Tail | Move | Uncount

fun list_steps ::
    "nat \<Rightarrow> ChunkMetadata \<Rightarrow> list_step list \<Rightarrow> nat \<times> metric_registry \<Rightarrow> metric_registry c_result" where
  "list_steps idx cm [] (tail, en) = Ret en"
| "list_steps idx cm (Grow # ops) (tail, en) =
     (case chunks_grow en of UB u \<Rightarrow> UB u | Ret en \<Rightarrow> list_steps idx cm ops (tail, en))"
| "list_steps idx cm (Store # ops) (tail, en) =
     (case chunks_store cm en of UB u \<Rightarrow> UB u | Ret en \<Rightarrow> list_steps idx cm ops (tail, en))"
| "list_steps idx cm (Count # ops) (tail, en) = list_steps idx cm ops (tail, chunks_count en)"
| "list_steps idx cm (Tail # ops) (tail, en) = list_steps idx cm ops (chunks_tail idx en, en)"
| "list_steps idx cm (Move # ops) (tail, en) = list_steps idx cm ops (tail, chunks_move idx tail en)"
| "list_steps idx cm (Uncount # ops) (tail, en) = list_steps idx cm ops (tail, chunks_uncount en)"

definition before :: "'a \<Rightarrow> 'a \<Rightarrow> 'a list \<Rightarrow> bool" where
  "before a b xs \<longleftrightarrow> a \<in> set (takeWhile (\<lambda>x. x \<noteq> b) xs)"

definition shift :: "nat \<Rightarrow> nat \<Rightarrow> 'a list \<Rightarrow> 'a list" where
  "shift idx t xs = take idx xs @ take t (drop (idx + 1) xs) @ drop (idx + t) xs"

lemma length_shift [simp]: "idx + t < length xs \<Longrightarrow> length (shift idx t xs) = length xs"
  by (simp add: shift_def)

lemma shift_0 [simp]: "shift idx 0 xs = xs"
  by (simp add: shift_def)

lemma nth_shift:
  "idx + t < length xs \<Longrightarrow> i < length xs \<Longrightarrow>
     shift idx t xs ! i = (if i < idx then xs ! i else if i < idx + t then xs ! Suc i else xs ! i)"
  by (auto simp: shift_def nth_append min_def intro: arg_cong [where f = "(!) xs"])

lemma chunks_move_shift: "chunks_move idx t en = en\<lparr>chunks := shift idx t (chunks en)\<rparr>"
  by (auto simp: chunks_move_def shift_def)

text \<open>What the first cells hold after each order of the writes; \<open>c\<close> chunks, \<open>idx\<close> expires.\<close>

abbreviation without :: "nat \<Rightarrow> 'a list \<Rightarrow> 'a list" where
  "without idx xs \<equiv> take idx xs @ drop (Suc idx) xs"

lemma moved_late:
  assumes len: "c \<le> length xs" and idx: "idx < c"
  shows "take c (shift idx (c - idx) (store_at xs c x)) = without idx (take c xs) @ [x]"
proof (rule nth_equalityI)
  have l: "length (store_at xs c x) > c" using len by (simp add: length_store_at)
  then show "length (take c (shift idx (c - idx) (store_at xs c x))) = length (without idx (take c xs) @ [x])"
    using len idx by simp
  fix i assume "i < length (take c (shift idx (c - idx) (store_at xs c x)))"
  then have i: "i < c" by simp
  have keep: "store_at xs c x ! j = xs ! j" if "j < c" for j
    using that len by (auto simp: store_at_def nth_append)
  show "take c (shift idx (c - idx) (store_at xs c x)) ! i = (without idx (take c xs) @ [x]) ! i"
    using i idx len l keep
    by (cases "Suc i = c") (auto simp: nth_shift nth_append min_def less_diff_conv)
qed

lemma moved_early:
  assumes len: "c \<le> length xs" and idx: "idx < c"
  shows "take c (shift idx (c - idx - 1) xs) = without idx (take c xs) @ [xs ! (c - 1)]"
proof (rule nth_equalityI)
  show "length (take c (shift idx (c - idx - 1) xs)) = length (without idx (take c xs) @ [xs ! (c - 1)])"
    using len idx by simp
  fix i assume "i < length (take c (shift idx (c - idx - 1) xs))"
  then have i: "i < c" by simp
  show "take c (shift idx (c - idx - 1) xs) ! i = (without idx (take c xs) @ [xs ! (c - 1)]) ! i"
    using i idx len by (cases "Suc i = c") (auto simp: nth_shift nth_append min_def less_diff_conv)
qed

lemma moved_stored:
  assumes "c \<le> length xs" "idx < c"
  shows "take c (shift idx (c - idx - 1) (store_at xs c x)) = without idx (take c xs) @ [xs ! (c - 1)]"
proof -
  have "store_at xs c x ! (c - 1) = xs ! (c - 1)" using assms by (auto simp: store_at_def nth_append)
  with moved_early [of c "store_at xs c x" idx] assms show ?thesis by (simp add: length_store_at)
qed

lemma moved_then_stored:
  assumes "c \<le> length xs" "idx < c"
  shows "take c (store_at (shift idx (c - idx - 1) xs) (c - 1) x) = without idx (take c xs) @ [x]"
proof -
  have "take (c - 1) (shift idx (c - idx - 1) xs) = butlast (take c (shift idx (c - idx - 1) xs))"
    using assms by (simp add: butlast_take)
  also have "\<dots> = without idx (take c xs)" using moved_early [OF assms] by (simp add: butlast_append)
  finally show ?thesis
    using assms take_store_at [of "c - 1" "shift idx (c - idx - 1) xs" x] by simp
qed

lemma chunks_grow_Ret:
  assumes "entry_inv en" "chunkCount en < 16384"
  obtains cap where "int (chunkCount en) < cap"
    "\<And>e. chunkCount e = chunkCount en \<Longrightarrow> chunkCapacity e = chunkCapacity en \<Longrightarrow>
      chunks_grow e = Ret (e\<lparr>chunkCapacity := cap\<rparr>)"
proof (cases "int (chunkCount en) < chunkCapacity en")
  case True
  then show ?thesis using that [of "chunkCapacity en"] by (simp add: chunks_grow_def)
next
  case False
  with assms have full: "int (chunkCount en) = chunkCapacity en"
    and "chunkCapacity en \<in> {4, 8, 16, 32, 64, 128, 256, 512, 1024, 2048, 4096, 8192}"
    by (auto simp: entry_inv_def)
  from this(2) have "sint (of_int (chunkCapacity en * 2) :: 16 word) = chunkCapacity en * 2"
    "chunkCapacity en > 0" by auto
  with full that [of "chunkCapacity en * 2"] show ?thesis by (simp add: chunks_grow_def)
qed

lemma chunks_grow_room:
  "int (chunkCount e) < chunkCapacity e \<Longrightarrow> chunks_grow e = Ret e"
  by (simp add: chunks_grow_def)


definition two_chunks :: metric_registry where
  "two_chunks =
     \<lparr>mkey = ''cpu'', mhead = None,
      chunks = [\<lparr>start_ts = 1, end_ts = 2, filename = ''a''\<rparr>, \<lparr>start_ts = 3, end_ts = 4, filename = ''b''\<rparr>],
      chunkCount = 2, chunkCapacity = 4\<rparr>"


end
