(* ===== verification/Read_Race.thy ===== *)
theory Read_Race
  imports Aggregate
begin

text \<open>
  Reads that overlap other requests. \<open>Head_GET\<close> and \<open>Head_AGG\<close> of \<^verbatim>\<open>src/registry.c\<close> visit the
  chunks of a metric without a lock and take the lock of its head block only afterwards, so that
  other clients run between the two parts. Here each function is the composition of its parts, the
  first on the engine of one moment and the second on that of a later one. The answer is that of an
  undisturbed read of an engine that never was: the chunks of the first moment with the head block
  of the second. A flush in between puts the points of the head block into neither.
\<close>

section \<open>The two parts of a read\<close>

text \<open>The part of \<open>Head_GET\<close> behind the loop over the chunks.\<close>

definition GET_head ::
    "allocator \<Rightarrow> long \<Rightarrow> long \<Rightarrow> metric_registry \<Rightarrow> string \<times> nat \<times> nat \<times> int \<Rightarrow>
     (string \<times> int) option c_result" where
  "GET_head mem s e entry st =
     (let (result, current_len, capacity, found) = st in
      if mhead entry = None then UB NullDeref
      else
        (case GET_value mem (mhead entry) s e of
           UB u \<Rightarrow> UB u
         | Ret ram \<Rightarrow>
             let (result, found) =
                   (case ram of
                      None \<Rightarrow> (result, found)
                    | Some (ramData, ramPoints) \<Rightarrow> (result @ ramData, found + ramPoints));
                 summary = ''('' @ show_int found @ '' points)'' @ newline
             in Ret (Some (take current_len result @ summary, found))))"

definition Head_GET_overlapped ::
    "allocator \<Rightarrow> string \<Rightarrow> long \<Rightarrow> long \<Rightarrow> engine \<Rightarrow> engine \<Rightarrow> (string \<times> int) option c_result" where
  "Head_GET_overlapped mem metricName s e first second =
     (case registry_find metricName (registry first) of
        None \<Rightarrow> Ret None
      | Some i \<Rightarrow>
          (case GET_chunks mem (store first) s e (live_chunks (registry first ! i)) ([], 0, 2048, 0) of
             UB u \<Rightarrow> UB u
           | Ret st \<Rightarrow> GET_head mem s e (registry second ! i) st))"

text \<open>The part of \<open>Head_AGG\<close> behind the chunks, raw or coarse.\<close>

definition AGG_head ::
    "allocator \<Rightarrow> long \<Rightarrow> long \<Rightarrow> int \<Rightarrow> string \<Rightarrow> metric_registry \<Rightarrow> point_array \<Rightarrow> string option c_result" where
  "AGG_head mem s e bucketSeconds func entry arr =
     (case mhead entry of
        None \<Rightarrow> UB NullDeref
      | Some head \<Rightarrow>
          (case collect_points_from_head mem head s e arr of
             UB u \<Rightarrow> UB u
           | Ret (res, arr) \<Rightarrow>
               if res \<noteq> 0 then Ret (malloc_text mem 64 (''ERR no memory'' @ newline))
               else if pts arr = [] then Ret (malloc_text mem 32 (''(0 buckets)'' @ newline))
               else agg_points mem (sort_points (pts arr)) s e bucketSeconds func))"

definition Head_AGG_overlapped ::
    "allocator \<Rightarrow> (disk \<Rightarrow> string \<Rightarrow> string list option) \<Rightarrow> string \<Rightarrow>
     string \<Rightarrow> long \<Rightarrow> long \<Rightarrow> int \<Rightarrow> string \<Rightarrow> engine \<Rightarrow> engine \<Rightarrow> string option c_result" where
  "Head_AGG_overlapped mem ls g_dataDir metricName s e bucketSeconds func first second =
     (if bucketSeconds \<le> 0 \<or> sint s \<ge> sint e
      then Ret (malloc_text mem 64 (''ERR invalid range or bucket'' @ newline))
      else
        case registry_find metricName (registry first) of
          None \<Rightarrow> Ret (malloc_text mem 32 (''(0 buckets)'' @ newline))
        | Some i \<Rightarrow>
            (case collect_disk mem ls g_dataDir metricName s e bucketSeconds (registry first ! i) (store first) of
               UB u \<Rightarrow> UB u
             | Ret (True, arr) \<Rightarrow> Ret (malloc_text mem 64 (''ERR disk read'' @ newline))
             | Ret (False, arr) \<Rightarrow> AGG_head mem s e bucketSeconds func (registry second ! i) arr))"

section \<open>The engine that such a read sees\<close>

definition seen_head :: "metric_registry \<Rightarrow> metric_registry \<Rightarrow> metric_registry" where
  "seen_head first second = first\<lparr>mhead := mhead second\<rparr>"

definition seen :: "string \<Rightarrow> engine \<Rightarrow> engine \<Rightarrow> engine" where
  "seen m first second =
     (case registry_find m (registry first) of
        None \<Rightarrow> first
      | Some i \<Rightarrow>
          first\<lparr>registry := (registry first)[i := seen_head (registry first ! i) (registry second ! i)]\<rparr>)"

lemma seen_head_simps [simp]:
  "mkey (seen_head a b) = mkey a" "mhead (seen_head a b) = mhead b" "live_chunks (seen_head a b) = live_chunks a"
  "seen_head a a = a"
  by (simp_all add: seen_head_def live_chunks_def)

lemma seen_same [simp]: "seen m eng eng = eng"
  by (simp add: seen_def split: option.split)

lemma seen_store [simp]: "store (seen m first second) = store first"
  by (simp add: seen_def split: option.split)

lemma seen_find [simp]: "registry_find m (registry (seen m first second)) = registry_find m (registry first)"
  by (auto simp: seen_def split: option.split dest: registry_find_Some)

lemma seen_entry:
  "registry_find m (registry first) = Some i \<Longrightarrow>
     registry (seen m first second) ! i = seen_head (registry first ! i) (registry second ! i)"
  by (auto simp: seen_def dest: registry_find_Some)

lemma Head_GET_parts:
  "Head_GET mem m s e eng =
     (case registry_find m (registry eng) of
        None \<Rightarrow> Ret None
      | Some i \<Rightarrow>
          (case GET_chunks mem (store eng) s e (live_chunks (registry eng ! i)) ([], 0, 2048, 0) of
             UB u \<Rightarrow> UB u
           | Ret st \<Rightarrow> GET_head mem s e (registry eng ! i) st))"
  by (simp add: Head_GET_def GET_head_def Let_def split: option.split c_result.split prod.split)

lemma GET_head_seen: "GET_head mem s e (seen_head a b) st = GET_head mem s e b st"
  unfolding GET_head_def seen_head_simps ..

lemma Head_AGG_parts:
  "Head_AGG mem ls g_dataDir m s e b func eng =
     (if b \<le> 0 \<or> sint s \<ge> sint e
      then Ret (malloc_text mem 64 (''ERR invalid range or bucket'' @ newline))
      else
        case registry_find m (registry eng) of
          None \<Rightarrow> Ret (malloc_text mem 32 (''(0 buckets)'' @ newline))
        | Some i \<Rightarrow>
            (case collect_disk mem ls g_dataDir m s e b (registry eng ! i) (store eng) of
               UB u \<Rightarrow> UB u
             | Ret (True, arr) \<Rightarrow> Ret (malloc_text mem 64 (''ERR disk read'' @ newline))
             | Ret (False, arr) \<Rightarrow> AGG_head mem s e b func (registry eng ! i) arr))"
  unfolding Head_AGG_def AGG_head_def Let_def ..

lemma AGG_head_seen: "AGG_head mem s e k func (seen_head a b) arr = AGG_head mem s e k func b arr"
  unfolding AGG_head_def seen_head_simps ..

lemma collect_disk_seen: "collect_disk mem ls g m s e k (seen_head a b) d = collect_disk mem ls g m s e k a d"
  unfolding collect_disk_def seen_head_simps ..

lemmas seen_parts = GET_head_seen AGG_head_seen collect_disk_seen seen_find seen_store

text \<open>A read with other requests between its parts answers like an undisturbed read of the engine
  that has the chunks of the first part and the head block of the second; with nothing in between
  it is the function of \<open>Query\<close> and \<open>Aggregate\<close>.\<close>

lemma Head_GET_overlapped_seen:
  "Head_GET_overlapped mem m s e first second = Head_GET mem m s e (seen m first second)"
  unfolding Head_GET_overlapped_def Head_GET_parts seen_parts
  by (cases "registry_find m (registry first)") (simp_all add: seen_entry GET_head_seen cong: c_result.case_cong)

lemma Head_AGG_overlapped_seen:
  "Head_AGG_overlapped mem ls g_dataDir m s e b func first second =
     Head_AGG mem ls g_dataDir m s e b func (seen m first second)"
  unfolding Head_AGG_overlapped_def Head_AGG_parts seen_parts
  by (cases "registry_find m (registry first)")
    (simp_all add: seen_entry seen_parts split: c_result.split prod.split bool.split)

section \<open>A put in between\<close>

text \<open>When the second engine has the same chunks with the same contents, the read is one of the
  points of the second engine: a put that does not flush is seen in full.\<close>

lemma seen_points_put:
  assumes find: "registry_find m (registry first) = Some i" "registry_find m (registry second) = Some i"
    and live: "live_chunks (registry second ! i) = live_chunks (registry first ! i)"
    and same: "\<And>p. p \<in> filename ` set (live_chunks (registry first ! i)) \<Longrightarrow>
      chunkread mem p (store second) = chunkread mem p (store first)"
  shows "metric_points mem (seen m first second) m = metric_points mem second m"
proof -
  have "concat (map (\<lambda>cm. chunk_points mem (store second) (filename cm)) (live_chunks (registry first ! i))) =
      concat (map (\<lambda>cm. chunk_points mem (store first) (filename cm)) (live_chunks (registry first ! i)))"
    using same by (intro arg_cong [where f = concat] map_cong refl) (simp add: chunk_points_def)
  with find live show ?thesis
    by (simp add: metric_points_def seen_entry entry_points_def ram_points_def)
qed

section \<open>A flush in between\<close>

definition disk_points :: "allocator \<Rightarrow> engine \<Rightarrow> string \<Rightarrow> point list" where
  "disk_points mem eng m =
     (case registry_find m (registry eng) of
        None \<Rightarrow> []
      | Some i \<Rightarrow> concat (map (\<lambda>cm. chunk_points mem (store eng) (filename cm)) (live_chunks (registry eng ! i))))"

lemma headflush_emptied:
  assumes "engine_inv eng" "flush_ready dataDir m eng" "\<And>k. mem k"
    and "headflush mem junk m dataDir eng = Ret (True, eng')"
    and "registry_find m (registry eng) = Some i" "mhead (registry eng ! i) = Some h"
  obtains h' where "mhead (registry eng' ! i) = Some h'" "head_points h' = []"
  using headflush_outcome [OF assms(1-4)] assms(5,6) that by (auto simp: ram_points_def)

text \<open>A successful flush changes no stored point, and yet the read that it overlaps sees none of the
  points that were in the head block: the chunks were visited before the new one existed, and the
  head block is empty by the time it is locked.\<close>

lemma flush_hides_points:
  assumes "engine_inv eng" and "flush_ready dataDir m eng" and "\<And>k. mem k"
    and "headflush mem junk m dataDir eng = Ret (True, eng')"
  shows "metric_points mem eng' m = metric_points mem eng m \<and>
    metric_points mem eng m = disk_points mem eng m @
      (case registry_find m (registry eng) of None \<Rightarrow> [] | Some i \<Rightarrow> map stored_point (ram_points (registry eng ! i))) \<and>
    metric_points mem (seen m eng eng') m = disk_points mem eng m"
proof -
  from headflush_outcome [OF assms] obtain i where find: "registry_find m (registry eng) = Some i"
    and same: "same_points mem eng eng'" and ram: "ram_points (registry eng' ! i) = []"
    by (auto split: option.splits)
  have "ram_points (seen_head (registry eng ! i) (registry eng' ! i)) = []"
    using ram by (simp add: ram_points_def)
  with same find show ?thesis
    by (simp add: same_points_def metric_points_def disk_points_def entry_points_def seen_entry)
qed

text \<open>C16: a read that overlaps a flush. An aggregation is answered from the points in the chunks and
  in the head block of its metric when nothing happens between its two parts; when a flush of the
  metric succeeds in between, it is answered from the points in the old chunks alone, although the
  flush keeps every stored point of the metric. This is about raw chunks that are readable and a
  range whose last bucket fits a long.\<close>

theorem read_across_flush:
  assumes "engine_inv eng" and "flush_ready dataDir m eng" and "\<And>k. mem k"
    and "headflush mem junk m dataDir eng = Ret (True, eng')"
    and "registry_find m (registry eng) = Some i" and "mhead (registry eng ! i) = Some h"
    and "0 < b" "sint s < sint e" "sint e + b \<le> long_max" and "func \<in> agg_funcs"
    and "use_coarse g_dataDir m s e b (store eng) = Ret False"
    and "\<forall>cm \<in> set (live_chunks (registry eng ! i)). meets s e cm \<longrightarrow> chunkread mem (filename cm) (store eng) \<noteq> None"
    and "length (raw_points mem (store eng) s e (live_chunks (registry eng ! i))) + length (head_points h) \<le> 8000000"
  shows "Head_AGG_overlapped mem ls g_dataDir m s e b func eng eng =
      Ret (Some (agg_answer func s e b
        (raw_points mem (store eng) s e (live_chunks (registry eng ! i)) @ head_points h))) \<and>
    Head_AGG_overlapped mem ls g_dataDir m s e b func eng eng' =
      Ret (Some (agg_answer func s e b (raw_points mem (store eng) s e (live_chunks (registry eng ! i))))) \<and>
    metric_points mem eng' m = metric_points mem eng m"
proof -
  let ?seen = "seen m eng eng'"
  obtain h' where h': "mhead (registry eng' ! i) = Some h'" "head_points h' = []"
    by (rule headflush_emptied [where mem = mem, OF assms(1-6)])
  have entry: "registry ?seen ! i = seen_head (registry eng ! i) (registry eng' ! i)"
    by (rule seen_entry [OF assms(5)])
  have undisturbed: "Head_AGG mem ls g_dataDir m s e b func eng =
      Ret (Some (agg_answer func s e b
        (raw_points mem (store eng) s e (live_chunks (registry eng ! i)) @ head_points h)))"
    by (rule aggregate_raw [where mem = mem, OF assms(5,6) assms(7-10) assms(3) assms(11-13)])
  have "Head_AGG mem ls g_dataDir m s e b func ?seen =
      Ret (Some (agg_answer func s e b
        (raw_points mem (store ?seen) s e (live_chunks (registry ?seen ! i)) @ head_points h')))"
    using assms(3,5,7-13) h' by (intro aggregate_raw) (simp_all add: entry)
  moreover have "metric_points mem eng' m = metric_points mem eng m"
    using headflush_outcome [where mem = mem, OF assms(1-4)] by (simp add: same_points_def)
  ultimately show ?thesis
    using undisturbed h'(2) by (simp add: Head_AGG_overlapped_seen entry)
qed

theorem read_across_flush_witness:
  "\<exists>eng'. headflush (\<lambda>_. True) 0 ''cpu'' ''data'' sample_engine = Ret (True, eng') \<and>
     Head_AGG_overlapped (\<lambda>_. True) (\<lambda>_ _. None) [] ''cpu'' 100 160 60 ''avg'' sample_engine sample_engine =
       Ret (Some (''100-160 25.750000'' @ newline @ ''(1 buckets)'' @ newline)) \<and>
     Head_AGG_overlapped (\<lambda>_. True) (\<lambda>_ _. None) [] ''cpu'' 100 160 60 ''avg'' sample_engine eng' =
       Ret (Some (''(0 buckets)'' @ newline))"
proof -
  from sample_flush_ok obtain eng' where
    flush: "headflush (\<lambda>_. True) 0 ''cpu'' ''data'' sample_engine = Ret (True, eng')"
    by (auto split: c_result.splits)
  have find: "registry_find ''cpu'' (registry sample_engine) = Some 0"
    and head: "mhead (registry sample_engine ! 0) = Some sample_cpu_head"
    and live: "live_chunks (registry sample_engine ! 0) = []"
    by (simp_all add: sample_engine_def sample_cpu_head_def live_chunks_def)
  have none: "raw_points (\<lambda>_. True) (store sample_engine) 100 160 [] = []" by (simp add: raw_points_def)
  have points: "length (head_points sample_cpu_head) = 2" by (simp add: sample_cpu_head_simps)
  have answer: "agg_answer ''avg'' 100 160 60 (head_points sample_cpu_head) =
      ''100-160 25.750000'' @ newline @ ''(1 buckets)'' @ newline"
    unfolding sample_cpu_head_simps by code_simp
  have empty: "agg_answer ''avg'' 100 160 60 [] = ''(0 buckets)'' @ newline" by (simp add: agg_answer_none)
  have "Head_AGG_overlapped (\<lambda>_. True) (\<lambda>_ _. None) [] ''cpu'' 100 160 60 ''avg'' sample_engine sample_engine =
      Ret (Some (agg_answer ''avg'' 100 160 60 (head_points sample_cpu_head))) \<and>
    Head_AGG_overlapped (\<lambda>_. True) (\<lambda>_ _. None) [] ''cpu'' 100 160 60 ''avg'' sample_engine eng' =
      Ret (Some (agg_answer ''avg'' 100 160 60 []))"
    using read_across_flush [OF sample_engine_inv sample_flush_ready TrueI flush find head,
        of 60 100 160 "''avg''" "[]" "\<lambda>_ _. None"] live none points
    by (simp add: use_coarse_def long_max_def agg_funcs_def)
  with flush answer empty show ?thesis by simp
qed

end
