(* ===== verification/Command_Line.thy ===== *)
theory Command_Line
  imports Server "HOL-Library.Sublist"
begin

text \<open>
  The command line client, \<^verbatim>\<open>src/client.c\<close>: its arguments, its loop over the lines of standard
  input, and the conversation it has with the thread of the server that serves it.
\<close>

section \<open>Arguments\<close>

text \<open>\<open>ipAddress\<close> in \<open>main\<close> has 256 bytes.\<close>

definition handleArguments :: "string list \<Rightarrow> int \<times> string \<Rightarrow> (int \<times> string) c_result" where
  "handleArguments argv st =
     (if length argv \<ge> 3
      then if length (argv ! 1) \<ge> 256 then UB StackOverflow else Ret (atoi (argv ! 2), argv ! 1)
      else Ret st)"

definition client_arguments :: "string list \<Rightarrow> (int \<times> string) c_result" where
  "client_arguments argv = handleArguments argv (8088, ''127.0.0.1'')"

section \<open>The loop\<close>

text \<open>
  \<open>fgets\<close> with the array \<open>message\<close> and what standard input still holds. At the end of the input it
  returns a null pointer, which is not looked at, and leaves the array alone.
\<close>

definition fgets :: "nat \<Rightarrow> string \<Rightarrow> string \<Rightarrow> string \<times> string" where
  "fgets bufsize message input =
     (let line = takeWhile (\<lambda>c. \<not> is_nl c) input;
          n = min (bufsize - 1) (if length line < length input then length line + 1 else length line)
      in if input = [] then (message, []) else (take n input, drop n input))"

definition c_string :: "string \<Rightarrow> string" where
  "c_string s = takeWhile (\<lambda>c. c \<noteq> CHR 0x00) s"

datatype session_end = Waiting | Disconnected | Bye

text \<open>What is kept between two turns: \<open>message\<close>, the input, what was sent, what was printed.\<close>

record session =
  message :: string
  input :: string
  cl_sends :: "string list"
  printed :: string

definition prompt :: "session \<Rightarrow> session" where
  "prompt st =
     (let (message, rest) = fgets 1024 (message st) (input st)
      in st\<lparr>message := message, input := rest, cl_sends := cl_sends st @ [c_string message],
            printed := printed st @ ''> ''\<rparr>)"

text \<open>
  \<open>strncmp\<close> looks at the buffer before its NUL is set; \<open>junk\<close> is what the fresh buffer holds behind
  the bytes that were received.
\<close>

definition is_quit :: "string \<Rightarrow> string \<Rightarrow> bool" where
  "is_quit junk reply \<longleftrightarrow> take 4 (reply @ junk) = ''quit''"

definition print_reply :: "string \<Rightarrow> session \<Rightarrow> session" where
  "print_reply reply st = st\<lparr>printed := printed st @ c_string reply @ newline\<rparr>"

text \<open>An empty \<open>recv\<close> is the end of the connection; with the list at its end the client waits.\<close>

primrec client_main :: "string \<Rightarrow> string list \<Rightarrow> session \<Rightarrow> session_end \<times> session" where
  "client_main junk [] st = (Waiting, prompt st)"
| "client_main junk (reply # recvs) st =
     (let st = prompt st in
      if reply = [] then (Disconnected, st\<lparr>printed := printed st @ ''Server disconnected'' @ newline\<rparr>)
      else if is_quit junk reply then (Bye, st\<lparr>printed := printed st @ ''bye:)'' @ newline\<rparr>)
      else client_main junk recvs (print_reply reply st))"

text \<open>
  The process: \<open>connected\<close> is whether \<open>connect\<close> succeeded, \<open>array\<close> what \<open>message\<close> holds before the first
  line. Without an exit code the client is still waiting.
\<close>

definition client_run ::
    "string list \<Rightarrow> bool \<Rightarrow> string \<Rightarrow> string \<Rightarrow> string list \<Rightarrow> string \<Rightarrow> (int option \<times> session) c_result" where
  "client_run argv connected junk array recvs typing =
     (let st = \<lparr>message = array, input = typing, cl_sends = [], printed = []\<rparr> in
      case client_arguments argv of
        UB u \<Rightarrow> UB u
      | Ret (portNumber, ipAddress) \<Rightarrow>
          if \<not> connected then Ret (Some 1, st)
          else
            (case client_main junk recvs (st\<lparr>printed := ''Connected to server!'' @ newline\<rparr>) of
               (Waiting, st) \<Rightarrow> Ret (None, st)
             | (_, st) \<Rightarrow> Ret (Some 0, st)))"

section \<open>The conversation\<close>

text \<open>
  The client and its thread in the server: the buffer of the thread, what it has sent, the bytes
  that the client has not yet received, and the engine. The network delivers what one \<open>send\<close> was
  given, and what is there, in one piece.
\<close>

record talk =
  tk_client :: session
  tk_inbuf :: string
  tk_sent :: "string list"
  tk_pending :: string
  tk_engine :: engine

definition talk_start :: "string \<Rightarrow> string \<Rightarrow> engine \<Rightarrow> talk" where
  "talk_start array typing e =
     \<lparr>tk_client = \<lparr>message = array, input = typing, cl_sends = [], printed = []\<rparr>,
      tk_inbuf = [], tk_sent = [], tk_pending = [], tk_engine = e\<rparr>"

definition talk_send ::
    "env \<Rightarrow> string \<Rightarrow> talk \<Rightarrow> talk c_result" where
  "talk_send env m tk =
     (if m = [] then Ret tk
      else
        case recv_bytes env m (tk_inbuf tk) (tk_sent tk) (tk_engine tk) of
          UB u \<Rightarrow> UB u
        | Ret (out, inbuf, sent, e) \<Rightarrow>
            Ret (tk\<lparr>tk_inbuf := inbuf, tk_sent := sent,
              tk_pending := tk_pending tk @ concat (drop (length (tk_sent tk)) sent), tk_engine := e\<rparr>))"

definition talk_recv :: "string \<Rightarrow> talk \<Rightarrow> session_end option \<times> talk" where
  "talk_recv junk tk =
     (let reply = take 1023 (tk_pending tk); tk' = tk\<lparr>tk_pending := drop 1023 (tk_pending tk)\<rparr> in
      if tk_pending tk = [] then (Some Waiting, tk)
      else if is_quit junk reply then
        (Some Bye, tk'\<lparr>tk_client := (tk_client tk)\<lparr>printed := printed (tk_client tk) @ ''bye:)'' @ newline\<rparr>\<rparr>)
      else (None, tk'\<lparr>tk_client := print_reply reply (tk_client tk)\<rparr>))"

definition talk_turn :: "env \<Rightarrow> string \<Rightarrow> talk \<Rightarrow> (session_end option \<times> talk) c_result" where
  "talk_turn env junk tk =
     (let tk = tk\<lparr>tk_client := prompt (tk_client tk)\<rparr> in
      case talk_send env (last (cl_sends (tk_client tk))) tk of
        UB u \<Rightarrow> UB u
      | Ret tk \<Rightarrow> Ret (talk_recv junk tk))"

primrec dialogue :: "nat \<Rightarrow> env \<Rightarrow> string \<Rightarrow> talk \<Rightarrow> (session_end option \<times> talk) c_result" where
  "dialogue 0 env junk tk = Ret (None, tk)"
| "dialogue (Suc n) env junk tk =
     (case talk_turn env junk tk of
        UB u \<Rightarrow> UB u
      | Ret (None, tk) \<Rightarrow> dialogue n env junk tk
      | Ret (Some out, tk) \<Rightarrow> Ret (Some out, tk))"

text \<open>In the conversation the client runs its loop, on what its thread sends.\<close>

lemma talk_turn_client:
  assumes "talk_turn env junk tk = Ret (None, tk')"
  shows "\<exists>r. \<forall>rest. client_main junk (r # rest) (tk_client tk) = client_main junk rest (tk_client tk')"
proof -
  let ?tk = "tk\<lparr>tk_client := prompt (tk_client tk)\<rparr>"
  obtain tk1 where send: "talk_send env (last (cl_sends (tk_client ?tk))) ?tk = Ret tk1"
    and recv: "talk_recv junk tk1 = (None, tk')"
    using assms by (auto simp: talk_turn_def Let_def split: c_result.splits)
  have "tk_client tk1 = prompt (tk_client tk)"
    using send by (auto simp: talk_send_def split: if_splits c_result.splits)
  then have "client_main junk (take 1023 (tk_pending tk1) # rest) (tk_client tk) = client_main junk rest (tk_client tk')"
    for rest
    using recv by (auto simp: talk_recv_def Let_def split: if_splits)
  then show ?thesis by blast
qed

lemma dialogue_client:
  "dialogue n env junk tk = Ret (None, tk') \<Longrightarrow>
     \<exists>rs. length rs = n \<and> (\<forall>rest. client_main junk (rs @ rest) (tk_client tk) = client_main junk rest (tk_client tk'))"
proof (induction n arbitrary: tk)
  case (Suc n)
  then obtain tk1 where turn: "talk_turn env junk tk = Ret (None, tk1)" and "dialogue n env junk tk1 = Ret (None, tk')"
    by (auto split: c_result.splits option.splits)
  with Suc.IH obtain rs where "length rs = n"
    "\<forall>rest. client_main junk (rs @ rest) (tk_client tk1) = client_main junk rest (tk_client tk')" by blast
  moreover obtain r where "\<forall>rest. client_main junk (r # rest) (tk_client tk) = client_main junk rest (tk_client tk1)"
    using talk_turn_client [OF turn] by blast
  ultimately show ?case by (intro exI [of _ "r # rs"]) (simp del: client_main.simps)
qed simp

section \<open>One line\<close>

text \<open>A line that \<open>fgets\<close> takes whole.\<close>

definition typed :: "string \<Rightarrow> bool" where
  "typed l \<longleftrightarrow> length l \<le> 1022 \<and> (\<forall>c \<in> set l. \<not> is_nl c \<and> c \<noteq> CHR 0x00)"

definition typed_input :: "string list \<Rightarrow> string" where
  "typed_input ls = concat (map (\<lambda>l. l @ newline) ls)"

lemma typed_input_Cons: "typed_input (l # ls) = l @ CHR 0x0A # typed_input ls"
  by (simp add: typed_input_def newline_def)

lemma fgets_typed:
  assumes "typed l" shows "fgets 1024 m (l @ CHR 0x0A # later) = (l @ newline, later)"
proof -
  have "takeWhile (\<lambda>c. \<not> is_nl c) (l @ CHR 0x0A # later) = l"
    using assms by (subst takeWhile_append2) (auto simp: typed_def is_nl_def)
  then show ?thesis using assms by (simp add: fgets_def typed_def newline_def)
qed

lemma prompt_typed:
  assumes "typed l" "input st = l @ CHR 0x0A # later"
  shows "prompt st = st\<lparr>message := l @ newline, input := later, cl_sends := cl_sends st @ [l @ newline],
    printed := printed st @ ''> ''\<rparr>"
proof -
  have "c_string (l @ newline) = l @ newline"
    using assms(1) by (simp add: c_string_def typed_def newline_def takeWhile_eq_all_conv)
  then show ?thesis using fgets_typed [OF assms(1)] assms(2) by (simp add: prompt_def)
qed

lemma typed_handled:
  assumes "typed l"
  shows "handle_lines env (l @ CHR 0x0A # s) sent e =
    (case handle_line env (l @ newline) sent e of
       UB u \<Rightarrow> UB u
     | Ret (out, sent, e) \<Rightarrow> if out = Next then handle_lines env s sent e else Ret (out, s, sent, e))"
  using assms by (intro handle_lines_first) (auto simp: typed_def is_nl_def)

lemma talk_turn_typed:
  assumes "typed l" "input (tk_client tk) = l @ CHR 0x0A # later" "tk_inbuf tk = []" "tk_pending tk = []"
    and one: "handle_line env (l @ newline) (tk_sent tk) (tk_engine tk) = Ret (Next, tk_sent tk @ [a], e)"
    and reply: "a \<noteq> []" "length a \<le> 1023" "\<not> is_quit junk a"
  shows "talk_turn env junk tk = Ret (None, tk\<lparr>
    tk_client := print_reply a (prompt (tk_client tk)), tk_sent := tk_sent tk @ [a], tk_engine := e\<rparr>)"
proof -
  have "recv_bytes env (l @ newline) [] (tk_sent tk) (tk_engine tk) = Ret (Next, [], tk_sent tk @ [a], e)"
    using assms(1) typed_handled [OF assms(1), of env "[]" "tk_sent tk" "tk_engine tk"]
    by (simp add: recv_bytes_def typed_def newline_def one [unfolded newline_def] handle_lines_none)
  then have "talk_send env (l @ newline) (tk\<lparr>tk_client := prompt (tk_client tk)\<rparr>) =
      Ret (tk\<lparr>tk_client := prompt (tk_client tk), tk_inbuf := [], tk_sent := tk_sent tk @ [a],
        tk_pending := a, tk_engine := e\<rparr>)"
    using assms(3,4) by (simp add: talk_send_def newline_def)
  then show ?thesis
    using reply assms(3,4)
    by (simp add: talk_turn_def prompt_typed [OF assms(1,2)] talk_recv_def)
qed

lemma handle_lines_prefix:
  "(\<And>s. env_send env s) \<Longrightarrow> handle_lines env s sent e = Ret (out, rest, sent', e') \<Longrightarrow> prefix sent sent'"
proof (induction "length s" arbitrary: s sent e rule: less_induct)
  case less
  show ?case
  proof (cases s rule: split_line)
    case none
    with less.prems show ?thesis by (simp add: handle_lines_none)
  next
    case (line w c u)
    note part = handle_lines_first [OF line(3,2), of env u sent e]
    obtain out1 sent1 e1 where one: "handle_line env (w @ newline) sent e = Ret (out1, sent1, e1)"
      using less.prems(2) by (auto simp: line(1) part split: c_result.splits)
    have "prefix sent sent1" using handle_line_sends [OF less.prems(1) one] by auto
    moreover have "prefix sent1 sent'"
    proof (cases "out1 = Next")
      case True
      then have "handle_lines env u sent1 e1 = Ret (out, rest, sent', e')"
        using less.prems(2) by (simp add: line(1) part one)
      moreover have "length u < length s" by (simp add: line(1))
      ultimately show ?thesis using less.hyps less.prems(1) by blast
    next
      case False
      then show ?thesis using less.prems(2) by (simp add: line(1) part one)
    qed
    ultimately show ?thesis by (rule prefix_order.trans)
  qed
qed

lemma dialogue_typed:
  assumes send: "\<And>s. env_send env s"
  shows "\<forall>l \<in> set ls. typed l \<Longrightarrow> input (tk_client tk) = typed_input ls @ later \<Longrightarrow>
    tk_inbuf tk = [] \<Longrightarrow> tk_pending tk = [] \<Longrightarrow>
    handle_lines env (typed_input ls) (tk_sent tk) (tk_engine tk) = Ret (Next, [], tk_sent tk @ answers, e) \<Longrightarrow>
    \<forall>a \<in> set answers. a \<noteq> [] \<and> length a \<le> 1023 \<and> \<not> is_quit junk a \<Longrightarrow>
    \<exists>tk'. dialogue (length ls) env junk tk = Ret (None, tk') \<and> tk_engine tk' = e \<and>
      input (tk_client tk') = later \<and> length answers = length ls \<and>
      tk_inbuf tk' = [] \<and> tk_pending tk' = [] \<and>
      printed (tk_client tk') =
        printed (tk_client tk) @ concat (map (\<lambda>a. ''> '' @ c_string a @ newline) answers)"
proof (induction ls arbitrary: tk answers)
  case Nil
  then show ?case by (simp add: typed_input_def handle_lines_none)
next
  case (Cons l ls)
  have l: "typed l" using Cons.prems(1) by simp
  have inp: "input (tk_client tk) = l @ CHR 0x0A # (typed_input ls @ later)"
    using Cons.prems(2) by (simp add: typed_input_Cons)
  from Cons.prems(5) obtain out sent1 e1 where
    one: "handle_line env (l @ newline) (tk_sent tk) (tk_engine tk) = Ret (out, sent1, e1)" and "out = Next"
    and rest: "handle_lines env (typed_input ls) sent1 e1 = Ret (Next, [], tk_sent tk @ answers, e)"
    by (auto simp: typed_input_Cons typed_handled [OF l] split: c_result.splits if_splits)
  obtain a where a: "sent1 = tk_sent tk @ [a]" using handle_line_sends [OF send one] by auto
  obtain as where as: "answers = a # as"
    using handle_lines_prefix [OF send rest] by (auto simp: a prefix_def)
  let ?tk = "tk\<lparr>tk_client := print_reply a (prompt (tk_client tk)), tk_sent := tk_sent tk @ [a], tk_engine := e1\<rparr>"
  have turn: "talk_turn env junk tk = Ret (None, ?tk)"
    using one Cons.prems(6) \<open>out = Next\<close> by (intro talk_turn_typed [OF l inp Cons.prems(3,4)]) (simp_all add: a as)
  have "\<exists>tk'. dialogue (length ls) env junk ?tk = Ret (None, tk') \<and> tk_engine tk' = e \<and>
      input (tk_client tk') = later \<and> length as = length ls \<and> tk_inbuf tk' = [] \<and> tk_pending tk' = [] \<and>
      printed (tk_client tk') = printed (tk_client ?tk) @ concat (map (\<lambda>a. ''> '' @ c_string a @ newline) as)"
    using Cons.prems rest by (intro Cons.IH) (simp_all add: a as prompt_typed [OF l inp] print_reply_def)
  then show ?case
    by (simp add: turn as prompt_typed [OF l inp] print_reply_def)
qed

section \<open>A line that is too long\<close>

lemma talk_turn_long:
  assumes long: "length (input (tk_client tk)) \<ge> 1023"
    and line: "\<forall>c \<in> set (take 1023 (input (tk_client tk))). \<not> is_nl c \<and> c \<noteq> CHR 0x00"
    and "tk_inbuf tk = []" "tk_pending tk = []"
  shows "\<exists>tk'. talk_turn env junk tk = Ret (Some Waiting, tk') \<and> tk_inbuf tk' = take 1023 (input (tk_client tk)) \<and>
    tk_engine tk' = tk_engine tk"
proof -
  let ?in = "input (tk_client tk)"
  have "takeWhile (\<lambda>c. \<not> is_nl c) ?in = take 1023 ?in @ takeWhile (\<lambda>c. \<not> is_nl c) (drop 1023 ?in)"
    using line by (subst append_take_drop_id [of 1023 ?in, symmetric], subst takeWhile_append2) auto
  then have "length (takeWhile (\<lambda>c. \<not> is_nl c) ?in) \<ge> 1023" using long by simp
  moreover have "?in \<noteq> []" using long by auto
  ultimately have "fgets 1024 m ?in = (take 1023 ?in, drop 1023 ?in)" for m
    by (simp add: fgets_def Let_def min_def)
  moreover have "c_string (take 1023 ?in) = take 1023 ?in"
    unfolding c_string_def takeWhile_eq_all_conv using line by blast
  ultimately have prompt: "prompt (tk_client tk) = (tk_client tk)\<lparr>message := take 1023 ?in, input := drop 1023 ?in,
      cl_sends := cl_sends (tk_client tk) @ [take 1023 ?in], printed := printed (tk_client tk) @ ''> ''\<rparr>"
    by (simp add: prompt_def)
  have "recv_bytes env (take 1023 ?in) [] sent e = Ret (Next, take 1023 ?in, sent, e)" for sent e
    using line by (simp add: recv_bytes_def handle_lines_none)
  then show ?thesis
    using assms(3,4) \<open>?in \<noteq> []\<close> by (simp add: talk_turn_def prompt talk_send_def talk_recv_def)
qed

section \<open>Properties\<close>



text \<open>At the end of its input the client sends the last line again, for ever.\<close>

lemma end_of_input:
  assumes "input st = []"
  shows "cl_sends (prompt st) = cl_sends st @ [c_string (message st)]" "message (prompt st) = message st"
    "input (prompt st) = []"
  using assms by (simp_all add: prompt_def fgets_def)

end
