(* ===== verification/Spec2Isabelle.thy ===== *)
theory Spec2Isabelle
  imports Bit_IO Codec Timestamp Value Disk Chunk Flush C_Text Head Wal Registry Durability Query Retention Downsample Aggregate Strtod Request Server Restart Clients Uthash Uthash_Sort Uthash_Ops Uthash_Options Uthash_Select Registry_Hash Background Lifecycle Crash_Safety Locks Read_Race Command_Line
begin

text \<open>
  A verification library for the time series database engine under \<^verbatim>\<open>src/\<close>: a TCP server that
  keeps, per metric, a block of recent points in memory, a log of them on disk and compressed chunk
  files of older ones. It is modelled from the bits of a chunk to the life of the process, and from
  the pointers of its hash table to the order in which its threads take their locks.

  \<^bold>\<open>The program.\<close> A client line is cut out of the byte stream (\<open>handleClient\<close>, server.c), split into
  words (\<open>parseString\<close>, parsor.c), parsed (\<open>getRequest\<close>) and dispatched (\<open>ProcessRequest\<close>, request.c)
  to the storage engine (registry.c). PUT appends to the head block of the metric (head.c) and to its
  log (wal.c); a full block, a FLUSH or the shutdown compresses it (flush.c over timestamp.c, value.c
  and bit_io.c) into a chunk file (chunk.c), records the file in the registry and removes the log. GET
  and AGG decompress the chunks that meet the range and add the head block. Two background passes
  remove chunks that are too old (retention.c) and write chunks of one-minute averages
  (downsample.c), which AGG reads instead of the raw chunks for long ranges. At start-up the
  registry is rebuilt from the data directory. \<open>createAndRunServer\<close> accepts connections, one thread
  each, until a signal, then joins the background threads and flushes every metric. The client
  (client.c) sends the lines of its input and prints the answers.

  \<^bold>\<open>The theories, from the bottom.\<close>
  \<^item> \<open>Prelude\<close>: types, the outcome \<open>c_result\<close> of a C function (a value or an undefined behaviour),
    lemmas on bit lists, words and lists.
  \<^item> \<open>Bit_IO\<close>: bit_io.c. Buffers, writer and reader as records. Written fields are read back; a closed
    buffer has the bytes it needs.
  \<^item> \<open>Codec\<close>: the contract of an encoder and a decoder that run in step, as a locale, and the locale of
    two codecs that take turns; \<open>Timestamp\<close> and \<open>Value\<close> (timestamp.c, value.c) provide it.
  \<^item> \<open>C_Double\<close>, \<open>C_Text\<close>, \<open>Strtod\<close>: what the sources use of the C library: IEEE doubles as bit
    patterns with rounding arithmetic, printing and reading of numbers.
  \<^item> \<open>Disk\<close>: files, directories, refused paths and remaining room, with the stdio calls as functions
    on them; the allocator as a predicate on sizes.
  \<^item> \<open>Chunk\<close>, \<open>Flush\<close>: chunk.c, flush.c. A chunk store as a locale (what was put is read, other files
    stay); a successful flush decodes to the flushed points.
  \<^item> \<open>Head\<close>, \<open>Wal\<close>: head.c, wal.c. The sorted bounded block, the text of a GET, the log as a locale, and
    what a replay recovers of a log that a crash cut anywhere.
  \<^item> \<open>Registry\<close>: the registry and \<open>Head_PUT\<close>, \<open>headflush\<close> of registry.c over an engine state of entries and
    disk. Abstractly a metric is the list of its points (\<open>metric_points\<close>): a PUT appends to it, a flush
    keeps it. \<open>Durability\<close> ties the log to the head block across crashes.
  \<^item> \<open>Query\<close>: GET, STATS and the shutdown of registry.c. \<open>Aggregate\<close>: AGG, with its bucket loop against
    reference aggregates, and its memory safety under any allocator.
  \<^item> \<open>Retention\<close>, \<open>Downsample\<close>: one pass of each background job against what it is to compute.
  \<^item> \<open>Request\<close>: parsor.c and request.c. Commands are printed and parsed back; all inputs that crash
    the parser.
  \<^item> \<open>Server\<close>, \<open>Restart\<close>: server.c and the options of main.c. Framing and answers of a connection,
    the registry after a start.
  \<^item> \<open>Clients\<close>: the server as a step relation of interleaved connections and background passes, with
    the invariant of its reachable states.

  \<^item> \<open>Uthash\<close>, \<open>Registry_Hash\<close>: the macros of uthash.h that the program uses, with handles, chains and
    buckets in a store of addresses, the Jenkins hash and the doubling of the buckets. Every table
    that insertions and deletions build represents the list of its elements (\<open>hash_rep\<close>, and the
    locale \<open>ordered_table\<close>), which is what \<open>Registry\<close> works with.
  \<^item> \<open>Uthash_Sort\<close>, \<open>Uthash_Ops\<close>, \<open>Uthash_Options\<close>, \<open>Uthash_Select\<close>: the rest of uthash.h, which the
    program does not expand. The merge sort that relinks the elements (\<open>HASH_SORT\<close>), against the
    stable sort of the library; insertion in order, replacement and clearing, with the locale
    \<open>sortable_table\<close> and the step relation \<open>table_run\<close> of all operations; the other hash functions,
    the Bloom filter and the build in which a failed allocation is undone; the selection into a
    second table.
  \<^item> \<open>Background\<close>: the threads of retention.c and downsample.c, their loops as partial functions over
    the seconds since the start, and when their passes run.
  \<^item> \<open>Lifecycle\<close>: the accept loop, the signal handler and \<open>createAndRunServer\<close>; a clean shutdown and the
    start after it. \<open>Crash_Safety\<close>: sequences of puts, flushes and expiry passes, and the start after
    a crash.
  \<^item> \<open>Locks\<close>: the calls of lock and unlock of every operation, on every path, and the threads that make
    them in any interleaving; the chunk list of a metric, which is written under two different locks.
    \<open>Read_Race\<close>: GET and AGG in their two parts, the chunks and the head block, with other requests
    in between; such a read is a read of an engine \<open>seen\<close> that mixes the two moments.
  \<^item> \<open>Command_Line\<close>: client.c, and its conversation with a thread of the server.

  \<^bold>\<open>Conventions.\<close> A C \<open>long\<close> and \<open>uint64_t\<close> is a 64-bit word, a \<open>uint32_t\<close> a 32-bit word, an \<open>int\<close> mostly an
  integer; where a signed sum may leave its type the outcome is \<open>UB SignedOverflow\<close>. A store outside an
  object is \<open>UB HeapOverflow\<close> or \<open>UB StackOverflow\<close>, a use of a null pointer \<open>UB NullDeref\<close>; nothing is said
  of what follows. C strings are character lists without the NUL. An allocation whose result the
  source tests succeeds or fails by its size; one that it does not test succeeds, unless the size
  is impossible. Memory that is read before it was set is an argument named \<open>junk\<close>. The order in
  which \<open>readdir\<close> lists a directory is an argument, \<open>ls\<close>. \<open>qsort\<close> is taken to be stable.

  \<^bold>\<open>Bounds.\<close> Flushes are shown to decode for up to 50000 points, the capacity of a head block, and for
  timestamps that fit the code (\<open>points_fit\<close>): a first gap in 14 signed bits and second differences in 32.
  Aggregations are shown correct up to 8000000 points, beyond which the output length could leave
  an \<open>int\<close>. Framing is shown for lines up to 7166 bytes, which with a \<open>recv\<close> of 1024 always fit the 8192
  of the buffer. \<open>agg_fuel\<close> counts the iterations of the bucket loop; one more than the number of
  buckets is enough.

  The doublings of the buckets of the hash table are bounded by the memory: no allocation of 2 ^ 35
  bytes or more succeeds (\<open>small_heap\<close>), which keeps the 32-bit counts from wrapping around.

  \<^bold>\<open>Not modelled.\<close> Requests and passes are whole steps where their effects are concerned; of their
  overlap \<open>Locks\<close> has the locks and the writes to the chunk list and \<open>Read_Race\<close> what happens between
  the two parts of a read, not the other accesses that no lock covers: a chunk list that changes
  while GET, AGG or STATS walk it, the second look-up of \<open>headflush\<close>, and client threads that still run while \<open>cleanupRegistry\<close> frees the entries. The calls of the socket
  library and of \<open>pthread_create\<close> are arguments. The buffering of a \<open>FILE\<close>, so that a write error that
  shows only in \<open>fclose\<close>, whose result chunk.c does not look at, does not occur. \<open>fsync\<close>, messages on
  the terminal other than those of the client and of \<open>print_metric\<close>, the release of memory. Of
  uthash.h the output of keys for tuning (\<open>HASH_EMIT_KEYS\<close>), the variants of its macros for compilers
  without \<open>decltype\<close>, which expand to the same program, and the combinations of its options: the Bloom
  filter is modelled beside the table, not inside it, and a selection in the build that exits when
  memory runs out. The benchmark and the tests.

  The properties that span components are in \<open>Durability\<close>, \<open>Restart\<close>, \<open>Clients\<close>, \<open>Registry_Hash\<close>,
  \<open>Lifecycle\<close>, \<open>Crash_Safety\<close>, \<open>Locks\<close>, \<open>Read_Race\<close> and \<open>Command_Line\<close>.
\<close>

end
